(* ===== verification/Prelude.thy ===== *)
theory Prelude
  imports Main "HOL-Library.Word"
begin

text \<open>
  What every component of the development shares: the machine types of the program, the
  lemma collections, arithmetic of ring slots and of 64-bit counters that have not wrapped
  yet, the locales of an invariant of a step relation and of a machine driven by events, and the
  locale of a run that implements an abstract one.
\<close>

section \<open>Machine types\<close>

text \<open>\<open>size_t\<close> is 64 bits wide on each supported platform (x64 and arm64).\<close>

type_synonym size_t = "64 word"

named_theorems counter_simps \<open>64-bit counters below their wrap-around\<close>
named_theorems ring_simps \<open>slots of a ring buffer\<close>

section \<open>Counters that have not wrapped\<close>

lemma unat_of_nat_size [counter_simps]: "n < 2 ^ 64 \<Longrightarrow> unat (of_nat n :: size_t) = n"
  by (simp add: unat_of_nat take_bit_nat_eq_self)

lemma of_nat_eq_size: "m < 2 ^ 64 \<Longrightarrow> n < 2 ^ 64 \<Longrightarrow> (of_nat m :: size_t) = of_nat n \<longleftrightarrow> m = n"
  by (metis unat_of_nat_size)

lemma size_eq_of_nat: "(w :: size_t) = of_nat (unat w)"
  by simp

lemma unat_lt_size [simp]: "unat (w :: size_t) < 18446744073709551616"
  using unsigned_less [of w, where ?'a = nat] by simp

lemma unat_add_size [counter_simps]:
  "unat (a :: size_t) + unat b < 2 ^ 64 \<Longrightarrow> unat (a + b) = unat a + unat b"
  by (simp add: unat_word_ariths)

lemma unat_inc_size [counter_simps]:
  "unat (a :: size_t) + 1 < 2 ^ 64 \<Longrightarrow> unat (a + 1) = Suc (unat a)"
  by (simp add: unat_word_ariths)

lemma unat_Suc_below:
  assumes "i < (old :: size_t)"
  shows "unat (i + 1) = Suc (unat i)"
proof -
  have "unat i < unat old" using assms by (simp add: word_less_nat_alt)
  then have "unat i + 1 < 2 ^ 64" using unat_lt_size [of old] by (simp del: unat_lt_size)
  then show ?thesis by (rule unat_inc_size)
qed

lemma unat_diff_size [counter_simps]:
  "unat b \<le> unat (a :: size_t) \<Longrightarrow> unat (a - b) = unat a - unat b"
  by (simp add: unat_sub word_le_nat_alt)

text \<open>Subtracting the larger counter wraps, to a number that exceeds every capacity.\<close>

lemma unat_diff_wrap_size:
  "unat (a :: size_t) < unat b \<Longrightarrow> unat (a - b) = 2 ^ 64 + unat a - unat b"
  by (simp add: unat_sub_if')

lemma unat_mod_size [counter_simps]: "unat ((a :: size_t) mod b) = unat a mod unat b"
  by (simp add: unat_mod)

section \<open>Ring slots\<close>

text \<open>In a window of at most \<open>c\<close> consecutive tickets, each slot has one ticket.\<close>

lemma mod_window_inj:
  fixes k :: nat
  assumes "k \<le> t" "t < k + c" "k \<le> u" "u < k + c" "t mod c = u mod c"
  shows "t = u"
proof (rule ccontr)
  assume "t \<noteq> u"
  have less: "False" if "a < b" "k \<le> a" "b < k + c" "a mod c = b mod c" for a b :: nat
  proof -
    from that have "c dvd b - a" by (metis mod_eq_dvd_iff_nat less_imp_le)
    moreover from that have "0 < b - a" "b - a < c" by arith+
    ultimately show False by (auto dest: dvd_imp_le)
  qed
  show False
    using \<open>t \<noteq> u\<close> less [of t u] less [of u t] assms by (metis linorder_neqE_nat)
qed

lemma ex_window_Suc:
  "(\<exists>u. k \<le> u \<and> u < k + Suc n \<and> P u) \<longleftrightarrow> P k \<or> (\<exists>u. Suc k \<le> u \<and> u < Suc k + n \<and> P u)"
proof
  assume "\<exists>u. k \<le> u \<and> u < k + Suc n \<and> P u"
  then obtain u where u: "k \<le> u" "u < k + Suc n" "P u" by blast
  then have "u = k \<or> Suc k \<le> u \<and> u < Suc k + n" by auto
  with u(3) show "P k \<or> (\<exists>u. Suc k \<le> u \<and> u < Suc k + n \<and> P u)" by blast
next
  assume "P k \<or> (\<exists>u. Suc k \<le> u \<and> u < Suc k + n \<and> P u)"
  then show "\<exists>u. k \<le> u \<and> u < k + Suc n \<and> P u"
  proof
    assume "P k"
    then show ?thesis by (intro exI [of _ k]) simp
  next
    assume "\<exists>u. Suc k \<le> u \<and> u < Suc k + n \<and> P u"
    then obtain u where "Suc k \<le> u" "u < Suc k + n" "P u" by blast
    then show ?thesis by (intro exI [of _ u]) simp
  qed
qed

lemma ex_residue_in_window:
  assumes "j < (c :: nat)"
  shows "\<exists>u. k \<le> u \<and> u < k + c \<and> j = u mod c"
proof -
  have "\<exists>u. k \<le> u \<and> u < k + c \<and> u mod c = j"
  proof (cases "k mod c \<le> j")
    case True
    let ?u = "k + (j - k mod c)"
    have "?u mod c = (k mod c + (j - k mod c)) mod c" by (metis mod_add_left_eq)
    with True assms show ?thesis by (intro exI [of _ ?u]) auto
  next
    case False
    let ?u = "k + (j + c - k mod c)"
    have lt: "k mod c < c" using assms by auto
    have "?u mod c = (k mod c + (j + c - k mod c)) mod c" by (metis mod_add_left_eq)
    also have "\<dots> = (j + c) mod c" using lt by (simp add: add.commute)
    also have "\<dots> = j" using assms by simp
    finally show ?thesis using False lt by (intro exI [of _ ?u]) auto
  qed
  then show ?thesis by auto
qed

lemma nth_update_window [ring_simps]:
  fixes k :: nat
  assumes "length xs = c" "k \<le> t" "t < k + c" "k \<le> u" "u < k + c"
  shows "xs[t mod c := x] ! (u mod c) = (if u = t then x else xs ! (u mod c))"
proof (cases "u = t")
  case True
  with assms have "t mod c < length xs" by (metis add_0_right gr_zeroI leD mod_less_divisor)
  with True show ?thesis by simp
next
  case False
  with assms have "t mod c \<noteq> u mod c" using mod_window_inj by metis
  with False show ?thesis by simp
qed

lemma mod_less_ring [ring_simps]: "length xs = c \<Longrightarrow> 0 < c \<Longrightarrow> (t :: nat) mod c < length xs"
  by simp

section \<open>Invariants of step relations\<close>

text \<open>
  The step relations of the concurrent components share one contract: a predicate that
  every step keeps holds all along a run.
\<close>

locale step_invariant =
  fixes step :: "'s \<Rightarrow> 's \<Rightarrow> bool" and inv :: "'s \<Rightarrow> bool"
  assumes inv_step: "step s t \<Longrightarrow> inv s \<Longrightarrow> inv t"
begin

lemma inv_run: "step\<^sup>*\<^sup>* s t \<Longrightarrow> inv s \<Longrightarrow> inv t"
  by (induction rule: rtranclp_induct) (auto intro: inv_step)

end

text \<open>
  A machine that is driven by events is the step relation of what some event makes of a state, and
  an invariant of every event holds after every sequence of them.
\<close>

locale event_invariant =
  fixes exec :: "'v \<Rightarrow> 's \<Rightarrow> 's" and inv :: "'s \<Rightarrow> bool"
  assumes inv_exec: "inv s \<Longrightarrow> inv (exec ev s)"

sublocale event_invariant \<subseteq> events: step_invariant "\<lambda>s t. \<exists>ev. t = exec ev s" inv
  by unfold_locales (use inv_exec in blast)

context event_invariant
begin

lemma fold_reachable: "(\<lambda>s t. \<exists>ev. t = exec ev s)\<^sup>*\<^sup>* s (fold exec evs s)"
proof (induction evs arbitrary: s)
  case (Cons ev evs)
  have "(\<lambda>s t. \<exists>ev. t = exec ev s)\<^sup>*\<^sup>* s (exec ev s)" by blast
  with Cons.IH [of "exec ev s"] show ?case by simp
qed simp

lemma inv_fold: "inv s \<Longrightarrow> inv (fold exec evs s)"
  by (rule events.inv_run [OF fold_reachable])

end

section \<open>Refinement along a run\<close>

text \<open>
  The sequential and the interleaved logger share a second contract. Their steps may fail, and their
  counters bear a bounded number of further steps; as long as there is budget left, a step of the
  program on a state related to an abstract one does not fail and is related to the abstract step.
  So a whole run is, and its budget shrinks by its length.
\<close>

fun run_all :: "('v \<Rightarrow> 's \<Rightarrow> 'f + 's) \<Rightarrow> 'v list \<Rightarrow> 's \<Rightarrow> 'f + 's" where
  "run_all exec [] s = Inr s"
| "run_all exec (ev # evs) s = (case exec ev s of Inl f \<Rightarrow> Inl f | Inr s \<Rightarrow> run_all exec evs s)"

lemma run_all_append:
  "run_all exec (evs @ evs') s = (case run_all exec evs s of Inl f \<Rightarrow> Inl f | Inr s \<Rightarrow> run_all exec evs' s)"
  by (induction evs arbitrary: s) (simp_all split: sum.splits)

locale budgeted_refinement =
  fixes exec :: "'v \<Rightarrow> 's \<Rightarrow> 'f + 's"
    and spec :: "'v \<Rightarrow> 'a \<Rightarrow> 'a"
    and rel :: "nat \<Rightarrow> 's \<Rightarrow> 'a \<Rightarrow> bool"
    and allowed :: "'v \<Rightarrow> bool"
  assumes exec_related:
    "rel (Suc n) s a \<Longrightarrow> allowed ev \<Longrightarrow> \<exists>s'. exec ev s = Inr s' \<and> rel n s' (spec ev a)"
begin

lemma run_related:
  "rel (length evs + n) s a \<Longrightarrow> list_all allowed evs \<Longrightarrow>
     \<exists>s'. run_all exec evs s = Inr s' \<and> rel n s' (fold spec evs a)"
proof (induction evs arbitrary: s a)
  case (Cons ev evs)
  then obtain s1 where "exec ev s = Inr s1" "rel (length evs + n) s1 (spec ev a)"
    using exec_related [of "length evs + n" s a ev] by auto
  with Cons.IH [of s1 "spec ev a"] Cons.prems(2) show ?case by simp
qed simp

end

end
