(* ===== verification/Cxx_String.thy ===== *)
theory Cxx_String
  imports Prelude
begin

text \<open>
  The parts of the C++ standard library's string handling that the program uses: positions
  in a \<open>std::string\<close> with \<open>npos\<close> and the wrap-around of \<open>size_t\<close> subtraction,
  \<open>find\<close>, \<open>rfind\<close>, \<open>find_last_of\<close>, \<open>substr\<close>, decimal output (\<open>to_string\<close> and
  the zero-padded fields of \<open>std::format\<close>) and \<open>stoi\<close>. Strings are lists of bytes.
\<close>

section \<open>Positions\<close>

definition npos :: nat where
  "npos = 18446744073709551615"

definition size_sub :: "nat \<Rightarrow> nat \<Rightarrow> nat" where
  "size_sub a b = (a + 18446744073709551616 - b) mod 18446744073709551616"

lemma size_sub_le: "b \<le> a \<Longrightarrow> a \<le> npos \<Longrightarrow> size_sub a b = a - b"
proof -
  assume "b \<le> a" "a \<le> npos"
  then have "a + 18446744073709551616 - b = (a - b) + 18446744073709551616" by simp
  moreover have "a - b < 18446744073709551616" using \<open>a \<le> npos\<close> by (simp add: npos_def)
  ultimately show ?thesis by (simp only: size_sub_def mod_add_self2 mod_less)
qed

lemma size_sub_wrap: "size_sub 0 1 = npos"
  by (simp add: size_sub_def npos_def)

text \<open>Every \<open>std::string\<close> is shorter than \<open>npos\<close>.\<close>

abbreviation fits :: "string \<Rightarrow> bool" where
  "fits s \<equiv> length s < npos"

section \<open>Searching\<close>

definition occurs_at :: "string \<Rightarrow> string \<Rightarrow> nat \<Rightarrow> bool" where
  "occurs_at s p i \<longleftrightarrow> take (length p) (drop i s) = p"

definition find_str :: "string \<Rightarrow> string \<Rightarrow> nat" where
  "find_str s p = (case find (occurs_at s p) [0..<Suc (length s)] of None \<Rightarrow> npos | Some i \<Rightarrow> i)"

definition rfind_str :: "string \<Rightarrow> string \<Rightarrow> nat \<Rightarrow> nat" where
  "rfind_str s p pos =
     (case find (\<lambda>i. i \<le> pos \<and> occurs_at s p i) (rev [0..<Suc (length s)])
      of None \<Rightarrow> npos | Some i \<Rightarrow> i)"

definition find_char :: "string \<Rightarrow> char \<Rightarrow> nat" where
  "find_char s c =
     (let i = length (takeWhile (\<lambda>x. x \<noteq> c) s) in if i < length s then i else npos)"

definition find_last_of :: "string \<Rightarrow> char \<Rightarrow> nat \<Rightarrow> nat" where
  "find_last_of s c pos =
     (case find (\<lambda>i. i \<le> pos \<and> s ! i = c) (rev [0..<length s]) of None \<Rightarrow> npos | Some i \<Rightarrow> i)"

definition substr :: "string \<Rightarrow> nat \<Rightarrow> nat \<Rightarrow> string" where
  "substr s pos n = take n (drop pos s)"

lemma occurs_at_0: "occurs_at s p 0 \<longleftrightarrow> (\<exists>r. s = p @ r)"
  by (metis append_eq_conv_conj append_take_drop_id drop0 occurs_at_def)

lemma find_SomeD: "find P xs = Some x \<Longrightarrow> P x \<and> x \<in> set xs"
  by (induction xs) (auto split: if_splits)

lemma find_upt_Some:
  "P i \<Longrightarrow> (\<forall>j < i. \<not> P j) \<Longrightarrow> i < n \<Longrightarrow> find P [0..<n] = Some i"
  by (subst find_Some_iff) (metis add_0 diff_zero length_upt nth_upt order.strict_trans)

lemma find_rev_upt_Some:
  assumes "P i" "i < n" "\<forall>j. i < j \<and> j < n \<longrightarrow> \<not> P j"
  shows "find P (rev [0..<n]) = Some i"
  using assms
proof (induction n)
  case 0
  then show ?case by simp
next
  case (Suc n)
  then show ?case by (cases "i = n") auto
qed

lemma find_str_eq_0: "find_str s p = 0 \<longleftrightarrow> (\<exists>r. s = p @ r)"
proof -
  have "find (occurs_at s p) [0..<Suc (length s)] = Some 0 \<longleftrightarrow> occurs_at s p 0"
    by (subst upt_conv_Cons) (auto dest: find_SomeD)
  then show ?thesis
    by (auto simp: find_str_def npos_def occurs_at_0 split: option.splits)
qed

lemma rfind_str_0: "rfind_str s p 0 = 0 \<longleftrightarrow> (\<exists>r. s = p @ r)"
proof (cases "occurs_at s p 0")
  case True
  then have "find (\<lambda>i. i \<le> 0 \<and> occurs_at s p i) (rev [0..<Suc (length s)]) = Some 0"
    by (intro find_rev_upt_Some) auto
  with True show ?thesis by (simp add: rfind_str_def occurs_at_0)
next
  case False
  then have "find (\<lambda>i. i \<le> 0 \<and> occurs_at s p i) (rev [0..<Suc (length s)]) = None"
    by (auto simp: find_None_iff)
  with False show ?thesis by (simp add: rfind_str_def occurs_at_0 npos_def)
qed

lemma find_char_append [simp]: "c \<notin> set s \<Longrightarrow> find_char (s @ c # t) c = length s"
proof -
  assume "c \<notin> set s"
  then have "takeWhile (\<lambda>x. x \<noteq> c) (s @ c # t) = s"
    by (subst takeWhile_append2) auto
  then show ?thesis by (simp add: find_char_def)
qed

lemma find_char_None: "c \<notin> set s \<Longrightarrow> find_char s c = npos"
proof -
  assume "c \<notin> set s"
  then have all: "takeWhile (\<lambda>x. x \<noteq> c) s = s" by (auto simp: takeWhile_eq_all_conv)
  show ?thesis unfolding find_char_def all by simp
qed

lemma find_last_of_append:
  assumes "c \<notin> set t" "length s \<le> pos"
  shows "find_last_of (s @ c # t) c pos = length s"
proof -
  have "find (\<lambda>i. i \<le> pos \<and> (s @ c # t) ! i = c) (rev [0..<length (s @ c # t)]) = Some (length s)"
  proof (rule find_rev_upt_Some)
    show "\<forall>j. length s < j \<and> j < length (s @ c # t) \<longrightarrow> \<not> (j \<le> pos \<and> (s @ c # t) ! j = c)"
    proof (intro allI impI notI)
      fix j assume j: "length s < j \<and> j < length (s @ c # t)" and "j \<le> pos \<and> (s @ c # t) ! j = c"
      then have "t ! (j - length s - 1) = c" and "j - length s - 1 < length t"
        by (auto simp: nth_append nth_Cons')
      with assms(1) show False by (metis nth_mem)
    qed
  qed (use assms in auto)
  then show ?thesis by (simp add: find_last_of_def)
qed

text \<open>Bounding the search cuts the string.\<close>

lemma find_last_of_cut:
  assumes "c \<notin> set t"
  shows "find_last_of (s @ c # t @ u) c (length s + length t) = length s"
proof -
  have "find (\<lambda>i. i \<le> length s + length t \<and> (s @ c # t @ u) ! i = c)
          (rev [0..<length (s @ c # t @ u)]) = Some (length s)"
  proof (rule find_rev_upt_Some)
    show "\<forall>j. length s < j \<and> j < length (s @ c # t @ u) \<longrightarrow>
            \<not> (j \<le> length s + length t \<and> (s @ c # t @ u) ! j = c)"
    proof (intro allI impI notI)
      fix j assume j: "length s < j \<and> j < length (s @ c # t @ u)"
        and b: "j \<le> length s + length t \<and> (s @ c # t @ u) ! j = c"
      then have i: "j - length s - 1 < length t" by auto
      from j have "(s @ c # t @ u) ! j = (t @ u) ! (j - length s - 1)"
        by (simp add: nth_append nth_Cons')
      also have "\<dots> = t ! (j - length s - 1)" using i by (simp add: nth_append)
      finally have "t ! (j - length s - 1) = c" using b by simp
      with i assms show False by (metis nth_mem)
    qed
  qed auto
  then show ?thesis by (simp add: find_last_of_def)
qed

section \<open>Decimal output\<close>

definition digit :: "nat \<Rightarrow> char" where
  "digit d = char_of (48 + d)"

definition digit_value :: "char \<Rightarrow> nat" where
  "digit_value c = of_char c - 48"

definition isdigit :: "char \<Rightarrow> bool" where
  "isdigit c \<longleftrightarrow> 48 \<le> (of_char c :: nat) \<and> (of_char c :: nat) \<le> 57"

fun show_nat :: "nat \<Rightarrow> string" where
  "show_nat n = (if n < 10 then [digit n] else show_nat (n div 10) @ [digit (n mod 10)])"

declare show_nat.simps [simp del]

definition show_int :: "int \<Rightarrow> string" where
  "show_int i = (if i < 0 then CHR ''-'' # show_nat (nat (- i)) else show_nat (nat i))"

definition zero_pad :: "nat \<Rightarrow> string \<Rightarrow> string" where
  "zero_pad w s = replicate (w - length s) CHR ''0'' @ s"

text \<open>The field \<open>{:0wd}\<close> of \<open>std::format\<close>: the sign comes before the zeros.\<close>

definition format_padded :: "nat \<Rightarrow> int \<Rightarrow> string" where
  "format_padded w i =
     (if i < 0 then CHR ''-'' # zero_pad (w - 1) (show_nat (nat (- i)))
      else zero_pad w (show_nat (nat i)))"

fun digits_value :: "nat \<Rightarrow> string \<Rightarrow> nat" where
  "digits_value acc [] = acc"
| "digits_value acc (c # cs) = digits_value (acc * 10 + digit_value c) cs"

lemma of_char_digit: "d < 10 \<Longrightarrow> of_char (digit d) = (48 + d :: nat)"
  by (simp add: digit_def)

lemma digit_eqI: "d < 10 \<Longrightarrow> of_char c = (48 + d :: nat) \<Longrightarrow> digit d = c"
  by (metis of_char_digit of_char_eq_iff)

lemma digit_eval:
  "digit 0 = CHR ''0''" "digit (Suc 0) = CHR ''1''" "digit 1 = CHR ''1''" "digit 2 = CHR ''2''"
  "digit 3 = CHR ''3''" "digit 4 = CHR ''4''" "digit 5 = CHR ''5''" "digit 6 = CHR ''6''"
  "digit 7 = CHR ''7''" "digit 8 = CHR ''8''" "digit 9 = CHR ''9''"
  by (simp_all add: digit_eqI)

text \<open>Evaluation of printed numbers.\<close>

lemmas decimal_eval = show_nat.simps digit_eval format_padded_def zero_pad_def show_int_def

lemma isdigit_digit [simp]: "d < 10 \<Longrightarrow> isdigit (digit d)"
  by (simp add: isdigit_def of_char_digit)

lemma digit_value_digit [simp]: "d < 10 \<Longrightarrow> digit_value (digit d) = d"
  by (simp add: digit_value_def of_char_digit)

lemma digits_value_append: "digits_value a (xs @ ys) = digits_value (digits_value a xs) ys"
  by (induction xs arbitrary: a) auto

lemma show_nat_isdigit: "c \<in> set (show_nat n) \<Longrightarrow> isdigit c"
proof (induction n rule: show_nat.induct)
  case (1 n)
  then show ?case by (subst (asm) (2) show_nat.simps) (auto split: if_splits)
qed

lemma show_nat_nonempty [simp]: "show_nat n \<noteq> []"
  by (subst show_nat.simps) simp

lemma digits_value_show_nat: "digits_value 0 (show_nat n) = n"
proof (induction n rule: show_nat.induct)
  case (1 n)
  then show ?case by (subst show_nat.simps) (auto simp: digits_value_append)
qed

lemma show_nat_inject: "show_nat m = show_nat n \<longleftrightarrow> m = n"
  by (metis digits_value_show_nat)

lemma length_show_nat_le: "n < 10 ^ k \<Longrightarrow> 0 < k \<Longrightarrow> length (show_nat n) \<le> k"
proof (induction n arbitrary: k rule: show_nat.induct)
  case (1 n)
  show ?case
  proof (cases "n < 10")
    case True
    then show ?thesis using 1(3) by (subst show_nat.simps) simp
  next
    case False
    with 1(2,3) obtain j where j: "k = Suc j" "0 < j" by (cases k) (auto, metis False gr0I power_0 mult_1_right)
    with 1(2) have "n div 10 < 10 ^ j" by (simp add: less_mult_imp_div_less mult.commute)
    with 1(1) False j have "length (show_nat (n div 10)) \<le> j" by blast
    then show ?thesis using False j by (subst show_nat.simps) simp
  qed
qed

lemma digits_value_zeros: "digits_value 0 (replicate k CHR ''0'' @ s) = digits_value 0 s"
  by (induction k) (simp_all add: digit_value_def)

lemma digits_value_zero_pad: "digits_value 0 (zero_pad w (show_nat n)) = n"
  by (simp add: zero_pad_def digits_value_zeros digits_value_show_nat)

lemma length_zero_pad: "length s \<le> w \<Longrightarrow> length (zero_pad w s) = w"
  by (simp add: zero_pad_def)

lemma zero_pad_isdigit: "c \<in> set (zero_pad w (show_nat n)) \<Longrightarrow> isdigit c"
  by (auto simp: zero_pad_def isdigit_def dest: show_nat_isdigit)

lemma length_format_padded: "0 \<le> i \<Longrightarrow> i < 10 ^ w \<Longrightarrow> 0 < w \<Longrightarrow> length (format_padded w i) = w"
  by (simp add: format_padded_def length_zero_pad length_show_nat_le nat_less_iff)

lemma digits_value_format_padded: "0 \<le> i \<Longrightarrow> digits_value 0 (format_padded w i) = nat i"
  by (simp add: format_padded_def digits_value_zero_pad)

section \<open>\<open>stoi\<close>\<close>

text \<open>
  \<open>None\<close> stands for the exceptions (\<open>invalid_argument\<close> without a digit,
  \<open>out_of_range\<close> beyond 32 bits). Leading white space and a sign are accepted, and what
  follows the digits is ignored.
\<close>

definition isspace :: "char \<Rightarrow> bool" where
  "isspace c \<longleftrightarrow> (of_char c :: nat) = 32 \<or> 9 \<le> (of_char c :: nat) \<and> (of_char c :: nat) \<le> 13"

definition stoi :: "string \<Rightarrow> int option" where
  "stoi s =
     (let t = dropWhile isspace s;
          neg = (t \<noteq> [] \<and> hd t = CHR ''-'');
          u = (if t \<noteq> [] \<and> (hd t = CHR ''-'' \<or> hd t = CHR ''+'') then tl t else t);
          ds = takeWhile isdigit u;
          v = (if neg then - int (digits_value 0 ds) else int (digits_value 0 ds))
      in if ds = [] then None
         else if v < - 2147483648 \<or> 2147483647 < v then None
         else Some v)"

lemma isdigit_not_special:
  assumes "isdigit c"
  shows "\<not> isspace c" "c \<noteq> CHR ''-''" "c \<noteq> CHR ''+''" "c \<noteq> CHR ''.''" "c \<noteq> CHR '',''" "c \<noteq> CHR '']''"
  using assms by (auto simp: isdigit_def isspace_def)

lemma stoi_digits:
  assumes "ds \<noteq> []" "\<forall>c \<in> set ds. isdigit c"
  shows "stoi ds = (if digits_value 0 ds \<le> 2147483647 then Some (int (digits_value 0 ds)) else None)"
proof -
  obtain d es where ds: "ds = d # es" using assms(1) by (cases ds) auto
  with assms(2) have d: "isdigit d" by simp
  have all: "takeWhile isdigit ds = ds" using assms(2) by (simp add: takeWhile_eq_all_conv)
  have start: "dropWhile isspace ds = ds" "hd ds \<noteq> CHR ''-''" "hd ds \<noteq> CHR ''+''"
    using d ds by (auto simp: isdigit_not_special)
  then have u: "(if ds \<noteq> [] \<and> (hd ds = CHR ''-'' \<or> hd ds = CHR ''+'') then tl ds else ds) = ds"
    by simp
  show ?thesis
    unfolding stoi_def start(1) Let_def u all using start(2) assms(1) by auto
qed

lemma stoi_show_nat: "n \<le> 2147483647 \<Longrightarrow> stoi (show_nat n) = Some (int n)"
  by (subst stoi_digits) (auto simp: digits_value_show_nat dest: show_nat_isdigit)

end
