(* ===== verification/Platform.thy ===== *)
theory Platform
  imports Prelude
begin

text \<open>
  \<open>platform.h\<close> and \<open>features.h\<close>: which platform, architecture and C++20 features the
  predefined macros of the compiler select, and the types of process and thread identifiers.
\<close>

section \<open>Platform and architecture (\<open>platform.h\<close>)\<close>

datatype platform = Windows | MacOS

datatype arch = X64 | ARM64

record host_macros =
  def_WIN32 :: bool
  def_WIN64 :: bool
  def_APPLE :: bool
  TARGET_OS_MAC :: bool
  def_M_X64 :: bool
  def_x86_64 :: bool
  def_M_ARM64 :: bool
  def_aarch64 :: bool

datatype build_error = Unsupported_platform | Unsupported_architecture

text \<open>
  \<open>Inl\<close> is the \<open>#error\<close> directive. On an Apple target that is not a Mac no platform
  macro is defined and no error is raised.
\<close>

definition detect_platform :: "host_macros \<Rightarrow> build_error + platform option" where
  "detect_platform h =
     (if def_WIN32 h \<or> def_WIN64 h then Inr (Some Windows)
      else if def_APPLE h then Inr (if TARGET_OS_MAC h then Some MacOS else None)
      else Inl Unsupported_platform)"

definition detect_arch :: "host_macros \<Rightarrow> build_error + arch" where
  "detect_arch h =
     (if def_M_X64 h \<or> def_x86_64 h then Inr X64
      else if def_M_ARM64 h \<or> def_aarch64 h then Inr ARM64
      else Inl Unsupported_architecture)"

text \<open>
  Identifiers: a Windows process or thread id is an unsigned 32-bit \<open>DWORD\<close>, a POSIX
  process id a signed 32-bit \<open>pid_t\<close>, a POSIX thread id an opaque \<open>std::thread::id\<close>.
\<close>

type_synonym ProcessIdType = "32 word"

datatype ThreadIdType = Dword "32 word" | Std_thread_id nat

definition pid_value :: "platform \<Rightarrow> ProcessIdType \<Rightarrow> int" where
  "pid_value p w = (case p of Windows \<Rightarrow> uint w | MacOS \<Rightarrow> sint w)"

section \<open>Feature detection (\<open>features.h\<close>)\<close>

text \<open>The \<open>__cpp_lib\<close> macros: \<open>None\<close> when the macro is not defined.\<close>

record feature_macros =
  cpp_lib_format :: "nat option"
  cpp_lib_jthread :: "nat option"
  cpp_lib_source_location :: "nat option"
  cpp_lib_atomic_ref :: "nat option"
  MSC_VER :: "nat option"
  clang_major :: "nat option"

definition SPECKIT_HAS_FORMAT :: "feature_macros \<Rightarrow> nat" where
  "SPECKIT_HAS_FORMAT f = (case cpp_lib_format f of Some v \<Rightarrow> if v \<ge> 201907 then 1 else 0 | None \<Rightarrow> 0)"

definition SPECKIT_HAS_JTHREAD :: "feature_macros \<Rightarrow> nat" where
  "SPECKIT_HAS_JTHREAD f = (if cpp_lib_jthread f \<noteq> None then 1 else 0)"

definition SPECKIT_HAS_SOURCE_LOCATION :: "feature_macros \<Rightarrow> nat" where
  "SPECKIT_HAS_SOURCE_LOCATION f = (if cpp_lib_source_location f \<noteq> None then 1 else 0)"

definition SPECKIT_HAS_ATOMIC_REF :: "feature_macros \<Rightarrow> nat" where
  "SPECKIT_HAS_ATOMIC_REF f = (if cpp_lib_atomic_ref f \<noteq> None then 1 else 0)"

definition SPECKIT_MSVC_2022_OR_LATER :: "feature_macros \<Rightarrow> nat option" where
  "SPECKIT_MSVC_2022_OR_LATER f = map_option (\<lambda>v. if v \<ge> 1930 then 1 else 0) (MSC_VER f)"

definition SPECKIT_CLANG_14_OR_LATER :: "feature_macros \<Rightarrow> nat option" where
  "SPECKIT_CLANG_14_OR_LATER f = map_option (\<lambda>v. if v \<ge> 14 then 1 else 0) (clang_major f)"

end
