(* ===== verification/Log_Level.thy ===== *)
theory Log_Level
  imports Platform
begin

text \<open>
  \<open>log_level.h\<close>: the severity levels, an \<open>enum class\<close> over \<open>int8_t\<close>. Its values are
  all 256 bytes, four of which have names: the C interface casts an arbitrary \<open>int\<close> into it.
\<close>

datatype LogLevel = LogLevel_of (level_byte: "8 word")

definition kLogLevelDebug :: LogLevel where "kLogLevelDebug = LogLevel_of 0"
definition kLogLevelInfo :: LogLevel where "kLogLevelInfo = LogLevel_of 1"
definition kLogLevelWarning :: LogLevel where "kLogLevelWarning = LogLevel_of 2"
definition kLogLevelError :: LogLevel where "kLogLevelError = LogLevel_of 3"

lemmas level_defs = kLogLevelDebug_def kLogLevelInfo_def kLogLevelWarning_def kLogLevelError_def

text \<open>\<open>static_cast<int8_t>(level)\<close>.\<close>

definition level_int8 :: "LogLevel \<Rightarrow> int" where
  "level_int8 l = sint (level_byte l)"

text \<open>\<open>static_cast<LogLevel>(i)\<close> of a 32-bit \<open>int\<close> keeps its low eight bits.\<close>

definition LogLevel_of_int :: "32 word \<Rightarrow> LogLevel" where
  "LogLevel_of_int i = LogLevel_of (ucast i)"

definition shouldLog :: "LogLevel \<Rightarrow> LogLevel \<Rightarrow> bool" where
  "shouldLog level minimum \<longleftrightarrow> level_int8 level \<ge> level_int8 minimum"

definition levelToString :: "LogLevel \<Rightarrow> string" where
  "levelToString level =
     (if level = kLogLevelDebug then ''DEBUG''
      else if level = kLogLevelInfo then ''INFO''
      else if level = kLogLevelWarning then ''WARNING''
      else if level = kLogLevelError then ''ERROR''
      else ''UNKNOWN'')"

text \<open>The levels are linearly ordered by severity, and \<open>shouldLog\<close> is that order.\<close>

instantiation LogLevel :: linorder
begin

definition less_eq_LogLevel :: "LogLevel \<Rightarrow> LogLevel \<Rightarrow> bool" where
  "less_eq_LogLevel a b \<longleftrightarrow> level_int8 a \<le> level_int8 b"

definition less_LogLevel :: "LogLevel \<Rightarrow> LogLevel \<Rightarrow> bool" where
  "less_LogLevel a b \<longleftrightarrow> level_int8 a < level_int8 b"

instance
proof
  fix a b c :: LogLevel
  show "(a < b) = (a \<le> b \<and> \<not> b \<le> a)" by (auto simp: less_eq_LogLevel_def less_LogLevel_def)
  show "a \<le> a" by (simp add: less_eq_LogLevel_def)
  show "a \<le> b \<Longrightarrow> b \<le> c \<Longrightarrow> a \<le> c" by (simp add: less_eq_LogLevel_def)
  show "a \<le> b \<Longrightarrow> b \<le> a \<Longrightarrow> a = b"
    by (cases a; cases b) (auto simp: less_eq_LogLevel_def level_int8_def dest!: order.antisym signed_word_eqI)
  show "a \<le> b \<or> b \<le> a" by (auto simp: less_eq_LogLevel_def)
qed

end

lemma shouldLog_iff: "shouldLog level minimum \<longleftrightarrow> minimum \<le> level"
  by (simp add: shouldLog_def less_eq_LogLevel_def)

lemma level_order:
  "kLogLevelDebug < kLogLevelInfo" "kLogLevelInfo < kLogLevelWarning"
  "kLogLevelWarning < kLogLevelError"
  by (simp_all add: less_LogLevel_def level_int8_def level_defs)

lemma levelToString_no_bracket: "CHR '']'' \<notin> set (levelToString l)"
  by (simp add: levelToString_def)

section \<open>The C enumeration (\<open>speckit_logger.h\<close>)\<close>

datatype SpeckitLogLevel =
  SPECKIT_LOG_LEVEL_DEBUG | SPECKIT_LOG_LEVEL_INFO | SPECKIT_LOG_LEVEL_WARNING | SPECKIT_LOG_LEVEL_ERROR

definition toCppLogLevel :: "SpeckitLogLevel \<Rightarrow> LogLevel" where
  "toCppLogLevel l =
     (case l of SPECKIT_LOG_LEVEL_DEBUG \<Rightarrow> LogLevel_of_int 0
      | SPECKIT_LOG_LEVEL_INFO \<Rightarrow> LogLevel_of_int 1
      | SPECKIT_LOG_LEVEL_WARNING \<Rightarrow> LogLevel_of_int 2
      | SPECKIT_LOG_LEVEL_ERROR \<Rightarrow> LogLevel_of_int 3)"

text \<open>
  The cast back is defined on the values of the C enumeration only; \<open>None\<close> stands for a
  cast of another value.
\<close>

definition toCLogLevel :: "LogLevel \<Rightarrow> SpeckitLogLevel option" where
  "toCLogLevel l =
     (if level_int8 l = 0 then Some SPECKIT_LOG_LEVEL_DEBUG
      else if level_int8 l = 1 then Some SPECKIT_LOG_LEVEL_INFO
      else if level_int8 l = 2 then Some SPECKIT_LOG_LEVEL_WARNING
      else if level_int8 l = 3 then Some SPECKIT_LOG_LEVEL_ERROR
      else None)"

text \<open>
  Raising the minimum level only removes messages: what a logger at level \<open>m'\<close> lets
  through is let through at every lower level \<open>m\<close>, each level lets itself through, and
  levels are filtered in the documented order DEBUG < INFO < WARNING < ERROR.
\<close>

theorem shouldLog_monotone:
  "(m \<le> m' \<and> shouldLog l m' \<longrightarrow> shouldLog l m) \<and> shouldLog m m \<and>
   (shouldLog l m \<or> shouldLog m l) \<and>
   [l' \<leftarrow> [kLogLevelDebug, kLogLevelInfo, kLogLevelWarning, kLogLevelError]. shouldLog l' kLogLevelWarning]
     = [kLogLevelWarning, kLogLevelError]"
  by (auto simp: shouldLog_iff level_defs less_eq_LogLevel_def level_int8_def)

theorem shouldLog_monotone_witness:
  "kLogLevelInfo \<le> kLogLevelError \<and> shouldLog kLogLevelError kLogLevelInfo"
proof -
  have "kLogLevelInfo \<le> kLogLevelError \<and> shouldLog kLogLevelError kLogLevelError"
    by (simp add: shouldLog_iff level_defs less_eq_LogLevel_def level_int8_def)
  then show ?thesis
    using shouldLog_monotone [of kLogLevelInfo kLogLevelError kLogLevelError] by blast
qed

text \<open>
  Casting a C level to the C++ level and back gives the level again, the cast keeps the
  order of severities, and the names of the four levels are distinct and never the name
  \<open>UNKNOWN\<close> that every other value gets.
\<close>

theorem level_cast_roundtrip:
  "toCLogLevel (toCppLogLevel c) = Some c \<and>
   levelToString (toCppLogLevel c) \<noteq> ''UNKNOWN'' \<and>
   (levelToString (toCppLogLevel c) = levelToString (toCppLogLevel d) \<longleftrightarrow> c = d) \<and>
   (toCLogLevel l = None \<longleftrightarrow> levelToString l = ''UNKNOWN'')"
proof -
  have "toCLogLevel l = None \<longleftrightarrow> levelToString l = ''UNKNOWN''"
  proof (cases l)
    case (LogLevel_of b)
    have eq: "sint b = sint w \<longleftrightarrow> b = w" for w by (auto simp: signed_word_eqI)
    from eq [of 0] eq [of 1] eq [of 2] eq [of 3] show ?thesis
      by (simp add: LogLevel_of toCLogLevel_def levelToString_def level_defs level_int8_def)
  qed
  then show ?thesis
    by (cases c; cases d)
      (simp_all add: toCppLogLevel_def toCLogLevel_def LogLevel_of_int_def level_int8_def
        levelToString_def level_defs)
qed

end
