(* ===== verification/Log_Entry.thy ===== *)
theory Log_Entry
  imports Cxx_String Log_Level
begin

text \<open>
  \<open>log_entry.h\<close> and \<open>log_entry.cpp\<close>: the log record, its moves and its text form. A
  record holds its tag and message as \<open>string_view\<close>s, that is as addresses into strings
  owned by somebody else, so the formatter takes the memory it reads them from.
\<close>

section \<open>Memory and string views\<close>

text \<open>The live \<open>std::string\<close> objects: a destroyed string is not in the map any more.\<close>

type_synonym memory = "nat \<rightharpoonup> string"

record string_view =
  sv_ptr :: "nat option"
  sv_len :: nat

definition view_of :: "memory \<Rightarrow> nat \<Rightarrow> string_view" where
  "view_of m a = \<lparr>sv_ptr = Some a, sv_len = (case m a of Some s \<Rightarrow> length s | None \<Rightarrow> 0)\<rparr>"

text \<open>
  \<open>view.data()\<close> handed to \<open>std::format\<close> as a \<open>const char*\<close>: the bytes up to the first
  NUL. Reading a null pointer or a destroyed string is undefined behaviour, the value \<open>None\<close>.
\<close>

definition c_string :: "memory \<Rightarrow> string_view \<Rightarrow> string option" where
  "c_string m v =
     (case sv_ptr v of None \<Rightarrow> None
      | Some a \<Rightarrow> map_option (takeWhile (\<lambda>c. c \<noteq> CHR 0x00)) (m a))"

section \<open>The record and its moves\<close>

record LogEntry =
  le_level :: LogLevel
  timestamp_ms :: int
  le_process_id :: ProcessIdType
  le_thread_id :: ThreadIdType
  le_tag :: string_view
  le_message :: string_view

definition LogEntry_ctor ::
  "LogLevel \<Rightarrow> int \<Rightarrow> ProcessIdType \<Rightarrow> ThreadIdType \<Rightarrow> string_view \<Rightarrow> string_view \<Rightarrow> LogEntry" where
  "LogEntry_ctor lvl ts pid tid tg msg =
     \<lparr>le_level = lvl, timestamp_ms = ts, le_process_id = pid, le_thread_id = tid,
      le_tag = tg, le_message = msg\<rparr>"

text \<open>The value-initialised record that \<open>make_unique<LogEntry[]>\<close> fills a buffer with.\<close>

definition LogEntry_default :: LogEntry where
  "LogEntry_default =
     LogEntry_ctor (LogLevel_of 0) 0 0 (Dword 0) \<lparr>sv_ptr = None, sv_len = 0\<rparr> \<lparr>sv_ptr = None, sv_len = 0\<rparr>"

text \<open>
  The move constructor and the move assignment: the new value of the target and the value
  left in the source, which no move clears.
\<close>

definition LogEntry_move_ctor :: "LogEntry \<Rightarrow> LogEntry \<times> LogEntry" where
  "LogEntry_move_ctor src =
     (\<lparr>le_level = le_level src, timestamp_ms = timestamp_ms src, le_process_id = le_process_id src,
       le_thread_id = le_thread_id src, le_tag = le_tag src, le_message = le_message src\<rparr>, src)"

definition LogEntry_move_assign :: "bool \<Rightarrow> LogEntry \<Rightarrow> LogEntry \<Rightarrow> LogEntry \<times> LogEntry" where
  "LogEntry_move_assign same_object dst src =
     (if \<not> same_object then
        (dst\<lparr>le_level := le_level src, timestamp_ms := timestamp_ms src,
             le_process_id := le_process_id src, le_thread_id := le_thread_id src,
             le_tag := le_tag src, le_message := le_message src\<rparr>, src)
      else (dst, src))"

lemma move_ctor_copies [simp]: "LogEntry_move_ctor e = (e, e)"
  by (simp add: LogEntry_move_ctor_def)

lemma move_assign_copies: "LogEntry_move_assign False d e = (e, e)"
  by (simp add: LogEntry_move_assign_def)

section \<open>Formatting\<close>

record tm =
  tm_year :: int
  tm_mon :: int
  tm_mday :: int
  tm_hour :: int
  tm_min :: int
  tm_sec :: int

text \<open>
  What the formatter takes from its environment: the platform, the local time zone
  (\<open>localtime_r\<close> or \<open>localtime_s\<close>) and the text the standard library prints for a
  \<open>std::thread::id\<close>.
\<close>

record format_env =
  fe_platform :: platform
  fe_localtime :: "int \<Rightarrow> tm"
  fe_thread_text :: "nat \<Rightarrow> string"

text \<open>C++ division and remainder truncate towards zero.\<close>

definition quot_trunc :: "int \<Rightarrow> int \<Rightarrow> int" where
  "quot_trunc a b = sgn a * sgn b * (\<bar>a\<bar> div \<bar>b\<bar>)"

definition rem_trunc :: "int \<Rightarrow> int \<Rightarrow> int" where
  "rem_trunc a b = a - b * quot_trunc a b"

definition format_timestamp :: "(int \<Rightarrow> tm) \<Rightarrow> int \<Rightarrow> string" where
  "format_timestamp localtime ms_since_epoch =
     (let seconds = quot_trunc ms_since_epoch 1000;
          milliseconds = rem_trunc ms_since_epoch 1000;
          t = localtime seconds
      in format_padded 4 (tm_year t + 1900) @ ''-'' @ format_padded 2 (tm_mon t + 1) @ ''-'' @
         format_padded 2 (tm_mday t) @ '' '' @ format_padded 2 (tm_hour t) @ '':'' @
         format_padded 2 (tm_min t) @ '':'' @ format_padded 2 (tm_sec t) @ ''.'' @
         format_padded 3 milliseconds)"

definition format_thread_id :: "format_env \<Rightarrow> ThreadIdType \<Rightarrow> string" where
  "format_thread_id fe t =
     (case t of Dword w \<Rightarrow> show_nat (unat w) | Std_thread_id i \<Rightarrow> fe_thread_text fe i)"

definition format_line :: "string \<Rightarrow> string \<Rightarrow> string \<Rightarrow> string \<Rightarrow> string \<Rightarrow> string \<Rightarrow> string" where
  "format_line level timestamp pid tid tag message =
     ''['' @ level @ ''] '' @ timestamp @ '' ['' @ pid @ '', '' @ tid @ ''] ['' @ tag @ '']: '' @
     message @ [CHR 0x0A]"

definition formatLogEntry :: "format_env \<Rightarrow> memory \<Rightarrow> LogEntry \<Rightarrow> string option" where
  "formatLogEntry fe m e =
     (case c_string m (le_tag e) of None \<Rightarrow> None
      | Some tag \<Rightarrow>
        (case c_string m (le_message e) of None \<Rightarrow> None
         | Some message \<Rightarrow>
           Some (format_line (levelToString (le_level e))
                   (format_timestamp (fe_localtime fe) (timestamp_ms e))
                   (show_int (pid_value (fe_platform fe) (le_process_id e)))
                   (format_thread_id fe (le_thread_id e)) tag message)))"

section \<open>Reading a line back\<close>

text \<open>
  The reference reader of the documented layout
  \<open>[LEVEL] YYYY-MM-DD HH:MM:SS.mmm [PID, TID] [TAG]: message\<close>.
\<close>

definition until :: "char \<Rightarrow> string \<Rightarrow> string \<times> string" where
  "until c s = (takeWhile (\<lambda>x. x \<noteq> c) s, drop (Suc (length (takeWhile (\<lambda>x. x \<noteq> c) s))) s)"

definition parse_line :: "string \<Rightarrow> string \<times> string \<times> string \<times> string \<times> string \<times> string" where
  "parse_line s =
     (let (level, s1) = until CHR '']'' (tl s);
          timestamp = take 23 (tl s1);
          (pid, s2) = until CHR '','' (drop 26 s1);
          (tid, s3) = until CHR '']'' (tl s2);
          (tag, s4) = until CHR '']'' (drop 2 s3)
      in (level, timestamp, pid, tid, tag, butlast (drop 2 s4)))"

lemma until_append [simp]: "c \<notin> set s \<Longrightarrow> until c (s @ c # t) = (s, t)"
proof -
  assume "c \<notin> set s"
  then have "takeWhile (\<lambda>x. x \<noteq> c) (s @ c # t) = s" by (subst takeWhile_append2) auto
  then show ?thesis by (simp add: until_def)
qed

lemma parse_format_line:
  assumes "CHR '']'' \<notin> set level" "length timestamp = 23" "CHR '','' \<notin> set pid"
    "CHR '']'' \<notin> set tid" "CHR '']'' \<notin> set tag"
  shows "parse_line (format_line level timestamp pid tid tag message) =
           (level, timestamp, pid, tid, tag, message)"
  using assms by (simp add: parse_line_def format_line_def)

text \<open>The documented ranges of \<open>struct tm\<close>, for years of four digits.\<close>

definition tm_in_range :: "tm \<Rightarrow> bool" where
  "tm_in_range t \<longleftrightarrow> 0 \<le> tm_year t + 1900 \<and> tm_year t + 1900 < 10000 \<and>
     0 \<le> tm_mon t \<and> tm_mon t < 12 \<and> 1 \<le> tm_mday t \<and> tm_mday t \<le> 31 \<and>
     0 \<le> tm_hour t \<and> tm_hour t < 24 \<and> 0 \<le> tm_min t \<and> tm_min t < 60 \<and>
     0 \<le> tm_sec t \<and> tm_sec t \<le> 60"

lemma rem_trunc_range: "0 \<le> a \<Longrightarrow> 0 \<le> rem_trunc a 1000 \<and> rem_trunc a 1000 < 1000"
proof -
  assume "0 \<le> a"
  then have "rem_trunc a 1000 = a mod 1000"
    by (cases "a = 0") (simp_all add: rem_trunc_def quot_trunc_def minus_mult_div_eq_mod)
  then show ?thesis by simp
qed

lemma length_format_timestamp:
  assumes "0 \<le> ms" "tm_in_range (lt (quot_trunc ms 1000))"
  shows "length (format_timestamp lt ms) = 23"
  using assms rem_trunc_range [OF assms(1)]
  by (simp add: format_timestamp_def Let_def tm_in_range_def length_format_padded)

lemma show_int_no_comma: "CHR '','' \<notin> set (show_int i)"
proof -
  have "CHR '','' \<notin> set (show_nat n)" for n
    using show_nat_isdigit isdigit_not_special(5) by blast
  then show ?thesis by (simp add: show_int_def)
qed

text \<open>
  C28: a formatted line is the documented layout and can be read back: for every entry whose
  strings are alive, whose timestamp is not before the epoch and whose tag and thread text
  hold no closing bracket, the reader recovers the level's name, the 23-character timestamp,
  both identifiers, the tag and the whole message from the line, which ends in a newline.
\<close>

theorem format_parse_roundtrip:
  assumes "c_string m (le_tag e) = Some tag" "c_string m (le_message e) = Some message"
    and "0 \<le> timestamp_ms e" "tm_in_range (fe_localtime fe (quot_trunc (timestamp_ms e) 1000))"
    and "CHR '']'' \<notin> set (format_thread_id fe (le_thread_id e))" "CHR '']'' \<notin> set tag"
  shows "\<exists>line. formatLogEntry fe m e = Some line \<and> last line = CHR 0x0A \<and>
     parse_line line =
       (levelToString (le_level e), format_timestamp (fe_localtime fe) (timestamp_ms e),
        show_int (pid_value (fe_platform fe) (le_process_id e)),
        format_thread_id fe (le_thread_id e), tag, message)"
proof -
  let ?line = "format_line (levelToString (le_level e))
      (format_timestamp (fe_localtime fe) (timestamp_ms e))
      (show_int (pid_value (fe_platform fe) (le_process_id e)))
      (format_thread_id fe (le_thread_id e)) tag message"
  have "formatLogEntry fe m e = Some ?line" using assms by (simp add: formatLogEntry_def)
  moreover have "last ?line = CHR 0x0A" by (simp add: format_line_def)
  ultimately show ?thesis
    using assms parse_format_line levelToString_no_bracket length_format_timestamp show_int_no_comma
    by blast
qed

definition sample_env :: format_env where
  "sample_env = \<lparr>fe_platform = Windows,
     fe_localtime = (\<lambda>s. \<lparr>tm_year = 70, tm_mon = 0, tm_mday = 1 + s div 86400, tm_hour = s div 3600 mod 24,
        tm_min = s div 60 mod 60, tm_sec = s mod 60\<rparr>),
     fe_thread_text = (\<lambda>i. ''0x'' @ show_nat i)\<rparr>"

definition sample_entry :: LogEntry where
  "sample_entry = LogEntry_ctor kLogLevelInfo 12345 1234 (Dword 5678)
     \<lparr>sv_ptr = Some 1, sv_len = 7\<rparr> \<lparr>sv_ptr = Some 2, sv_len = 9\<rparr>"

definition sample_memory :: memory where
  "sample_memory = [1 \<mapsto> ''Network'', 2 \<mapsto> ''Connected'']"

lemmas sample_defs = sample_env_def sample_entry_def sample_memory_def LogEntry_ctor_def

theorem format_parse_roundtrip_witness:
  "\<exists>line. formatLogEntry sample_env sample_memory sample_entry = Some line \<and> last line = CHR 0x0A \<and>
     parse_line line = (''INFO'', ''1970-01-01 00:00:12.345'', ''1234'', ''5678'', ''Network'', ''Connected'')"
proof -
  have vals: "c_string sample_memory (le_tag sample_entry) = Some ''Network''"
    "c_string sample_memory (le_message sample_entry) = Some ''Connected''"
    "levelToString (le_level sample_entry) = ''INFO''"
    "format_timestamp (fe_localtime sample_env) (timestamp_ms sample_entry) = ''1970-01-01 00:00:12.345''"
    "show_int (pid_value (fe_platform sample_env) (le_process_id sample_entry)) = ''1234''"
    "format_thread_id sample_env (le_thread_id sample_entry) = ''5678''"
    by (simp_all add: sample_defs c_string_def levelToString_def level_defs format_thread_id_def
        pid_value_def format_timestamp_def quot_trunc_def rem_trunc_def decimal_eval)
  have "0 \<le> timestamp_ms sample_entry"
    "tm_in_range (fe_localtime sample_env (quot_trunc (timestamp_ms sample_entry) 1000))"
    by (simp_all add: sample_defs tm_in_range_def quot_trunc_def)
  then show ?thesis
    using format_parse_roundtrip [OF vals(1,2), of sample_env] unfolding vals(3-6) by simp
qed

end
