(* ===== verification/Fifo.thy ===== *)
theory Fifo
  imports Prelude
begin

text \<open>
  The contract both buffers of the logger promise: a bounded first-in first-out store whose
  \<open>push\<close> says whether it took the entry and whose \<open>popAll\<close> drains it. An operation that
  would wait forever is \<open>None\<close>. \<open>budget\<close> is the number of pushes left before the
  64-bit counters of the implementation would wrap.
\<close>

fun push_list :: "('e \<Rightarrow> 'q \<Rightarrow> (bool \<times> 'q) option) \<Rightarrow> 'e list \<Rightarrow> 'q \<Rightarrow> (bool list \<times> 'q) option" where
  "push_list push [] q = Some ([], q)"
| "push_list push (e # es) q =
     (case push e q of None \<Rightarrow> None
      | Some (b, q') \<Rightarrow>
        (case push_list push es q' of None \<Rightarrow> None | Some (bs, q'') \<Rightarrow> Some (b # bs, q'')))"

locale bounded_fifo =
  fixes push :: "'e \<Rightarrow> 'q \<Rightarrow> (bool \<times> 'q) option"
    and pop_all :: "'q \<Rightarrow> ('e list \<times> 'q) option"
    and contents :: "'q \<Rightarrow> 'e list"
    and cap :: "'q \<Rightarrow> nat"
    and inv :: "'q \<Rightarrow> bool"
    and budget :: "'q \<Rightarrow> nat"
  assumes push_room: "inv q \<Longrightarrow> 0 < budget q \<Longrightarrow> length (contents q) < cap q \<Longrightarrow>
      \<exists>q'. push e q = Some (True, q') \<and> inv q' \<and> contents q' = contents q @ [e] \<and>
        cap q' = cap q \<and> budget q \<le> Suc (budget q')"
    and push_full: "inv q \<Longrightarrow> \<not> length (contents q) < cap q \<Longrightarrow> push e q = Some (False, q)"
    and pop_all_drains: "inv q \<Longrightarrow>
      \<exists>q'. pop_all q = Some (contents q, q') \<and> inv q' \<and> contents q' = [] \<and>
        cap q' = cap q \<and> budget q' = budget q"
    and within_cap: "inv q \<Longrightarrow> length (contents q) \<le> cap q"
begin

lemma push_total:
  assumes "inv q" "0 < budget q"
  shows "\<exists>b q'. push e q = Some (b, q') \<and> inv q' \<and> cap q' = cap q \<and> budget q \<le> Suc (budget q') \<and>
     b = (length (contents q) < cap q) \<and> contents q' = contents q @ (if b then [e] else [])"
proof (cases "length (contents q) < cap q")
  case True
  then show ?thesis using push_room [OF assms, of e] by auto
next
  case False
  then show ?thesis
    using push_full [OF assms(1)] assms(1) by (intro exI [of _ False] exI [of _ q]) simp
qed

lemma push_list_fifo:
  assumes "inv q" "length es \<le> budget q"
  shows "\<exists>bs q'. push_list push es q = Some (bs, q') \<and> inv q' \<and> cap q' = cap q \<and>
     contents q' = contents q @ take (cap q - length (contents q)) es \<and>
     bs = map (\<lambda>i. i < cap q - length (contents q)) [0..<length es]"
  using assms
proof (induction es arbitrary: q)
  case Nil
  then show ?case by simp
next
  case (Cons e es)
  then obtain b q1 where p: "push e q = Some (b, q1)" "inv q1" "cap q1 = cap q"
    "budget q \<le> Suc (budget q1)" "b = (length (contents q) < cap q)"
    "contents q1 = contents q @ (if b then [e] else [])"
    using push_total [of q e] by auto
  with Cons.prems have "length es \<le> budget q1" by simp
  with Cons.IH [of q1] p(2) obtain bs q2 where r: "push_list push es q1 = Some (bs, q2)" "inv q2"
    "cap q2 = cap q1" "contents q2 = contents q1 @ take (cap q1 - length (contents q1)) es"
    "bs = map (\<lambda>i. i < cap q1 - length (contents q1)) [0..<length es]"
    by blast
  have flags: "[0..<length (e # es)] = 0 # map Suc [0..<length es]"
    by (simp add: map_Suc_upt upt_conv_Cons del: upt_Suc)
  show ?case
  proof (cases "length (contents q) < cap q")
    case True
    then obtain n where "cap q - length (contents q) = Suc n" by (metis Suc_diff_Suc)
    moreover from this have "cap q - Suc (length (contents q)) = n" by simp
    ultimately show ?thesis using p r True unfolding flags by (simp add: comp_def del: upt_Suc)
  next
    case False
    then show ?thesis using p r unfolding flags by (simp add: comp_def del: upt_Suc)
  qed
qed

text \<open>Everything that was taken comes out once, in order, and nothing else does.\<close>

lemma push_list_pop_all:
  assumes "inv q" "length es \<le> budget q"
  shows "\<exists>bs q' q''. push_list push es q = Some (bs, q') \<and>
     pop_all q' = Some (contents q @ take (cap q - length (contents q)) es, q'') \<and>
     inv q'' \<and> contents q'' = []"
  using push_list_fifo [OF assms] pop_all_drains by metis

lemma push_list_all_taken:
  assumes "inv q" "length es \<le> budget q" "length (contents q) + length es \<le> cap q"
  shows "\<exists>q'. push_list push es q = Some (replicate (length es) True, q') \<and> inv q' \<and>
     cap q' = cap q \<and> contents q' = contents q @ es"
proof -
  from push_list_fifo [OF assms(1,2)] obtain bs q' where
    p: "push_list push es q = Some (bs, q')" "inv q'" "cap q' = cap q"
      "contents q' = contents q @ take (cap q - length (contents q)) es"
      "bs = map (\<lambda>i. i < cap q - length (contents q)) [0..<length es]"
    by blast
  have "bs = replicate (length es) True"
    using p(5) assms(3) by (auto intro!: nth_equalityI)
  with p assms(3) show ?thesis by simp
qed

end

end
