(* ===== verification/Async_Queue.thy ===== *)
theory Async_Queue
  imports Fifo
begin

text \<open>
  \<open>async_queue.h\<close> and \<open>async_queue.cpp\<close>, called by one thread at a time: a ring of cells
  with per-slot sequence numbers and two monotonic 64-bit ticket counters. An operation
  whose spin loop would never end (no other thread runs) is \<open>None\<close>. Theory \<open>Mpsc\<close> has the
  same operations one atomic access at a time.
\<close>

section \<open>State\<close>

record 'e Cell =
  cell_seq :: size_t
  cell_storage :: "'e option"

record 'e AsyncQueue =
  aq_buffer :: "'e Cell list"
  aq_capacity :: size_t
  aq_tail :: size_t
  aq_head :: size_t
  aq_size :: size_t

definition Cell_ctor :: "'e Cell" where
  "Cell_ctor = \<lparr>cell_seq = 0, cell_storage = None\<rparr>"

text \<open>The constructor; \<open>None\<close> is the failed \<open>assert\<close> of a build with assertions.\<close>

definition AsyncQueue_ctor :: "bool \<Rightarrow> size_t \<Rightarrow> 'e AsyncQueue option" where
  "AsyncQueue_ctor asserts capacity =
     (if asserts \<and> \<not> capacity > 0 then None
      else Some \<lparr>aq_buffer = map (\<lambda>i. Cell_ctor\<lparr>cell_seq := of_nat i\<rparr>) [0..<unat capacity],
                 aq_capacity = capacity, aq_tail = 0, aq_head = 0, aq_size = 0\<rparr>)"

section \<open>Operations\<close>

definition slot :: "'e AsyncQueue \<Rightarrow> size_t \<Rightarrow> nat" where
  "slot q ticket = unat (ticket mod aq_capacity q)"

definition looks_full :: "'e AsyncQueue \<Rightarrow> size_t \<Rightarrow> size_t \<Rightarrow> bool" where
  "looks_full q current_tail current_head \<longleftrightarrow> current_tail - current_head \<ge> aq_capacity q"

definition set_cell :: "nat \<Rightarrow> 'e Cell \<Rightarrow> 'e AsyncQueue \<Rightarrow> 'e AsyncQueue" where
  "set_cell i c q = q\<lparr>aq_buffer := (aq_buffer q)[i := c]\<rparr>"

text \<open>
  \<open>tryPush(LogEntry&)\<close>. With no other thread the compare-and-swap succeeds (a spurious
  failure only repeats the loop with the same values). The caller's entry is not changed.
\<close>

definition tryPush :: "'e \<Rightarrow> 'e AsyncQueue \<Rightarrow> (bool \<times> 'e AsyncQueue) option" where
  "tryPush entry q =
     (let current_tail = aq_tail q; current_head = aq_head q
      in if looks_full q current_tail current_head then Some (False, q)
         else let q = q\<lparr>aq_tail := current_tail + 1\<rparr>;
                  pos = slot q current_tail;
                  cell = aq_buffer q ! pos
              in if cell_seq cell \<noteq> current_tail then None
                 else let cell = cell\<lparr>cell_storage := Some entry\<rparr>;
                          cell = cell\<lparr>cell_seq := current_tail + 1\<rparr>;
                          q = set_cell pos cell q
                      in Some (True, q\<lparr>aq_size := aq_size q + 1\<rparr>))"

text \<open>The overload for temporaries forwards to the first one.\<close>

definition tryPush_rvalue :: "'e \<Rightarrow> 'e AsyncQueue \<Rightarrow> (bool \<times> 'e AsyncQueue) option" where
  "tryPush_rvalue entry q = tryPush entry q"

text \<open>The loop of \<open>popAll\<close>: \<open>n\<close> tickets are left, the next is \<open>head + i\<close>.\<close>

fun drain ::
  "size_t \<Rightarrow> nat \<Rightarrow> size_t \<Rightarrow> 'e list \<Rightarrow> 'e AsyncQueue \<Rightarrow> ('e list \<times> 'e AsyncQueue) option" where
  "drain head 0 i result q = Some (result, q)"
| "drain head (Suc n) i result q =
     (let idx = slot q (head + i); cell = aq_buffer q ! idx; expected = head + i + 1
      in if cell_seq cell \<noteq> expected then None
         else let result = (case cell_storage cell of Some e \<Rightarrow> result @ [e] | None \<Rightarrow> result);
                  cell = cell\<lparr>cell_storage := None\<rparr>;
                  cell = cell\<lparr>cell_seq := head + i + aq_capacity q\<rparr>
              in drain head n (i + 1) result (set_cell idx cell q))"

definition popAll :: "'e AsyncQueue \<Rightarrow> ('e list \<times> 'e AsyncQueue) option" where
  "popAll q =
     (let head = aq_head q; tail = aq_tail q;
          available = (if tail \<ge> head then tail - head else 0)
      in if available = 0 then Some ([], q)
         else case drain head (unat available) 0 [] q of None \<Rightarrow> None
              | Some (result, q) \<Rightarrow>
                  Some (result, q\<lparr>aq_head := head + available, aq_size := aq_size q - available\<rparr>))"

definition aq_isEmpty :: "'e AsyncQueue \<Rightarrow> bool" where
  "aq_isEmpty q \<longleftrightarrow> aq_size q = 0"

text \<open>The number of entries as the counter has it, and the fixed capacity.\<close>

definition AsyncQueue_size :: "'e AsyncQueue \<Rightarrow> size_t" where
  "AsyncQueue_size q = aq_size q"

definition AsyncQueue_capacity :: "'e AsyncQueue \<Rightarrow> size_t" where
  "AsyncQueue_capacity q = aq_capacity q"

text \<open>The destructor resets what is still stored in the tickets between head and tail.\<close>

fun reset_storage :: "size_t \<Rightarrow> nat \<Rightarrow> size_t \<Rightarrow> 'e AsyncQueue \<Rightarrow> 'e AsyncQueue" where
  "reset_storage head 0 i q = q"
| "reset_storage head (Suc n) i q =
     (let pos = slot q (head + i); cell = aq_buffer q ! pos
      in reset_storage head n (i + 1)
           (if cell_storage cell \<noteq> None then set_cell pos (cell\<lparr>cell_storage := None\<rparr>) q else q))"

definition AsyncQueue_dtor :: "'e AsyncQueue \<Rightarrow> 'e AsyncQueue" where
  "AsyncQueue_dtor q =
     (let head = aq_head q; tail = aq_tail q;
          available = (if tail \<ge> head then tail - head else 0)
      in reset_storage head (unat available) 0 q)"

section \<open>Invariant and contents\<close>

text \<open>
  \<open>cells_ok B c k t\<close>: in the ring \<open>B\<close> of \<open>c\<close> slots the tickets from \<open>k\<close> to \<open>t\<close> are
  published and the following ones, up to \<open>k + c\<close>, are free for their producers.
\<close>

definition cells_ok :: "'e Cell list \<Rightarrow> nat \<Rightarrow> nat \<Rightarrow> nat \<Rightarrow> bool" where
  "cells_ok B c k t \<longleftrightarrow> 0 < c \<and> length B = c \<and> k \<le> t \<and> t \<le> k + c \<and> k + 2 * c < 2 ^ 64 \<and>
     (\<forall>u. k \<le> u \<and> u < t \<longrightarrow> (\<exists>e. B ! (u mod c) = \<lparr>cell_seq = of_nat (Suc u), cell_storage = Some e\<rparr>)) \<and>
     (\<forall>u. t \<le> u \<and> u < k + c \<longrightarrow> B ! (u mod c) = \<lparr>cell_seq = of_nat u, cell_storage = None\<rparr>)"

definition entry_at :: "'e Cell list \<Rightarrow> nat \<Rightarrow> nat \<Rightarrow> 'e" where
  "entry_at B c u = the (cell_storage (B ! (u mod c)))"

definition entries :: "'e Cell list \<Rightarrow> nat \<Rightarrow> nat \<Rightarrow> nat \<Rightarrow> 'e list" where
  "entries B c k t = map (entry_at B c) [k..<t]"

definition aq_cap :: "'e AsyncQueue \<Rightarrow> nat" where
  "aq_cap q = unat (aq_capacity q)"

definition aq_contents :: "'e AsyncQueue \<Rightarrow> 'e list" where
  "aq_contents q = entries (aq_buffer q) (aq_cap q) (unat (aq_head q)) (unat (aq_tail q))"

definition aq_inv :: "'e AsyncQueue \<Rightarrow> bool" where
  "aq_inv q \<longleftrightarrow> cells_ok (aq_buffer q) (aq_cap q) (unat (aq_head q)) (unat (aq_tail q)) \<and>
     unat (aq_tail q) + 2 * aq_cap q < 2 ^ 64 \<and> aq_size q = aq_tail q - aq_head q"

definition aq_budget :: "'e AsyncQueue \<Rightarrow> nat" where
  "aq_budget q = 2 ^ 64 - 1 - (unat (aq_tail q) + 2 * aq_cap q)"

lemma cells_okD:
  assumes "cells_ok B c k t"
  shows "0 < c" "length B = c" "k \<le> t" "t \<le> k + c" "k + 2 * c < 2 ^ 64"
    and "k \<le> u \<Longrightarrow> u < t \<Longrightarrow>
      B ! (u mod c) = \<lparr>cell_seq = of_nat (Suc u), cell_storage = Some (entry_at B c u)\<rparr>"
    and "t \<le> u \<Longrightarrow> u < k + c \<Longrightarrow> B ! (u mod c) = \<lparr>cell_seq = of_nat u, cell_storage = None\<rparr>"
proof -
  show "B ! (u mod c) = \<lparr>cell_seq = of_nat (Suc u), cell_storage = Some (entry_at B c u)\<rparr>"
    if "k \<le> u" "u < t"
  proof -
    from assms that obtain e where "B ! (u mod c) = \<lparr>cell_seq = of_nat (Suc u), cell_storage = Some e\<rparr>"
      unfolding cells_ok_def by blast
    then show ?thesis by (simp add: entry_at_def)
  qed
qed (use assms in \<open>auto simp: cells_ok_def\<close>)

text \<open>Publishing the next ticket, and freeing the oldest one, keep the ring in order.\<close>

lemma cells_ok_publish:
  fixes B :: "'e Cell list" and e :: 'e
  assumes ok: "cells_ok B c k t" and room: "t < k + c"
  defines "B' \<equiv> B[t mod c := \<lparr>cell_seq = of_nat (Suc t), cell_storage = Some e\<rparr>]"
  shows "cells_ok B' c k (Suc t)" and "entries B' c k (Suc t) = entries B c k t @ [e]"
proof -
  note win = nth_update_window [OF cells_okD(2) [OF ok], of k t]
  have nth: "B' ! (u mod c) =
      (if u = t then \<lparr>cell_seq = of_nat (Suc t), cell_storage = Some e\<rparr> else B ! (u mod c))"
    if "k \<le> u" "u < k + c" for u
    unfolding B'_def using win that room cells_okD(3) [OF ok] by simp
  show "cells_ok B' c k (Suc t)"
    using ok room nth unfolding cells_ok_def
    by (auto simp: less_Suc_eq B'_def)
  have "entry_at B' c u = (if u = t then e else entry_at B c u)" if "k \<le> u" "u < k + c" for u
    using nth [OF that] by (simp add: entry_at_def)
  then show "entries B' c k (Suc t) = entries B c k t @ [e]"
    using cells_okD(3) [OF ok] room by (auto simp: entries_def)
qed

lemma cells_ok_free:
  fixes B :: "'e Cell list"
  assumes ok: "cells_ok B c k t" and some: "k < t" and fit: "Suc k + 2 * c < 2 ^ 64"
  defines "B' \<equiv> B[k mod c := \<lparr>cell_seq = of_nat (k + c), cell_storage = None\<rparr>]"
  shows "cells_ok B' c (Suc k) t" and "entries B c k t = entry_at B c k # entries B' c (Suc k) t"
proof -
  have nth: "B' ! (u mod c) =
      (if u = k then \<lparr>cell_seq = of_nat (k + c), cell_storage = None\<rparr> else B ! (u mod c))"
    if "k \<le> u" "u < k + c" for u
    unfolding B'_def using nth_update_window [OF cells_okD(2) [OF ok], of k k] that cells_okD(1) [OF ok]
    by simp
  have last: "B' ! ((k + c) mod c) = \<lparr>cell_seq = of_nat (k + c), cell_storage = None\<rparr>"
    using nth [of k] cells_okD(1) [OF ok] by simp
  show "cells_ok B' c (Suc k) t"
    unfolding cells_ok_def
  proof (intro conjI allI impI)
    fix u
    assume u: "t \<le> u \<and> u < Suc k + c"
    show "B' ! (u mod c) = \<lparr>cell_seq = of_nat u, cell_storage = None\<rparr>"
    proof (cases "u = k + c")
      case True
      with last show ?thesis by simp
    next
      case False
      with u some have "k \<le> u" "u < k + c" "u \<noteq> k" by auto
      with nth u cells_okD(7) [OF ok] show ?thesis by simp
    qed
  next
    fix u
    assume u: "Suc k \<le> u \<and> u < t"
    then show "\<exists>e. B' ! (u mod c) = \<lparr>cell_seq = of_nat (Suc u), cell_storage = Some e\<rparr>"
      using nth [of u] cells_okD(4) [OF ok] cells_okD(6) [OF ok, of u] by auto
  qed (use cells_okD(1-4) [OF ok] some fit in \<open>auto simp: B'_def\<close>)
  have "entry_at B' c u = entry_at B c u" if "Suc k \<le> u" "u < t" for u
    using nth [of u] that cells_okD(4) [OF ok] by (simp add: entry_at_def)
  then show "entries B c k t = entry_at B c k # entries B' c (Suc k) t"
    using some by (simp add: entries_def upt_conv_Cons)
qed

section \<open>Correctness of the operations\<close>

lemma aq_inv_cells:
  assumes "aq_inv q"
  shows "cells_ok (aq_buffer q) (aq_cap q) (unat (aq_head q)) (unat (aq_tail q))"
    and "unat (aq_tail q) + 2 * aq_cap q < 2 ^ 64" and "aq_size q = aq_tail q - aq_head q"
  using assms by (auto simp: aq_inv_def)

lemma slot_eq: "t < 2 ^ 64 \<Longrightarrow> slot q (of_nat t) = t mod aq_cap q"
  by (simp add: slot_def aq_cap_def unat_mod_size unat_of_nat_size)

lemma looks_full_iff:
  assumes "aq_inv q"
  shows "looks_full q (aq_tail q) (aq_head q) \<longleftrightarrow> \<not> length (aq_contents q) < aq_cap q"
  using cells_okD(3) [OF aq_inv_cells(1) [OF assms]]
  by (simp add: looks_full_def word_le_nat_alt unat_diff_size aq_contents_def entries_def aq_cap_def not_less)

lemma AsyncQueue_ctor_ok:
  assumes "0 < unat capacity" "unat capacity < 2 ^ 62"
  shows "\<exists>q. AsyncQueue_ctor asserts capacity = Some q \<and> aq_inv q \<and> aq_contents q = [] \<and>
     aq_cap q = unat capacity"
  using assms
  by (auto simp: AsyncQueue_ctor_def Cell_ctor_def aq_inv_def cells_ok_def aq_contents_def
      entries_def aq_cap_def word_gt_0)

lemma tryPush_room:
  assumes inv: "aq_inv q" and budget: "0 < aq_budget q" and room: "length (aq_contents q) < aq_cap q"
  shows "\<exists>q'. tryPush e q = Some (True, q') \<and> aq_inv q' \<and> aq_contents q' = aq_contents q @ [e] \<and>
     aq_cap q' = aq_cap q \<and> aq_budget q \<le> Suc (aq_budget q')"
proof -
  let ?c = "aq_cap q" and ?h = "unat (aq_head q)" and ?t = "unat (aq_tail q)"
  note ok = aq_inv_cells(1) [OF inv]
  have lt: "?t < ?h + ?c" using room cells_okD(3) [OF ok] by (simp add: aq_contents_def entries_def)
  have suc: "unat (aq_tail q + 1) = Suc ?t"
    using aq_inv_cells(2) [OF inv] cells_okD(1) [OF ok] by (simp add: unat_inc_size)
  let ?B = "(aq_buffer q)[?t mod ?c := \<lparr>cell_seq = of_nat (Suc ?t), cell_storage = Some e\<rparr>]"
  let ?q' = "q\<lparr>aq_tail := aq_tail q + 1, aq_buffer := ?B, aq_size := aq_size q + 1\<rparr>"
  have pos: "slot (q\<lparr>aq_tail := x\<rparr>) (aq_tail q) = ?t mod ?c" for x
    by (simp add: slot_def aq_cap_def unat_mod_size)
  have cell: "aq_buffer q ! (?t mod ?c) = \<lparr>cell_seq = aq_tail q, cell_storage = None\<rparr>"
    using cells_okD(7) [OF ok le_refl lt] by simp
  have "tryPush e q = Some (True, ?q')"
    using inv room looks_full_iff [OF inv]
    by (simp add: tryPush_def Let_def pos cell set_cell_def add.commute)
  moreover have "aq_inv ?q'"
    using cells_ok_publish(1) [OF ok lt, of e] budget aq_inv_cells(2,3) [OF inv]
    by (simp add: aq_inv_def aq_cap_def suc aq_budget_def)
  moreover have "aq_contents ?q' = aq_contents q @ [e]"
    using cells_ok_publish(2) [OF ok lt, of e] by (simp add: aq_contents_def aq_cap_def suc)
  moreover have "aq_budget q \<le> Suc (aq_budget ?q')"
    using budget by (simp add: aq_budget_def aq_cap_def suc)
  ultimately show ?thesis by (intro exI [of _ ?q']) (simp add: aq_cap_def)
qed

lemma tryPush_full: "aq_inv q \<Longrightarrow> \<not> length (aq_contents q) < aq_cap q \<Longrightarrow> tryPush e q = Some (False, q)"
  by (simp add: tryPush_def looks_full_iff)

lemma drain_ok:
  assumes "cells_ok (aq_buffer q) (aq_cap q) (h + i) t" "n = t - (h + i)" "t + 2 * aq_cap q < 2 ^ 64"
  shows "\<exists>B. drain (of_nat h) n (of_nat i) result q =
            Some (result @ entries (aq_buffer q) (aq_cap q) (h + i) t, q\<lparr>aq_buffer := B\<rparr>) \<and>
          cells_ok B (aq_cap q) t t"
  using assms
proof (induction n arbitrary: i result q)
  case 0
  with cells_okD(3) have "h + i = t" by force
  with 0 show ?case by (auto intro!: exI [of _ "aq_buffer q"] simp: entries_def)
next
  case (Suc n)
  let ?k = "h + i" and ?c = "aq_cap q"
  from Suc.prems(2) have lt: "?k < t" by simp
  have fit: "Suc ?k + 2 * ?c < 2 ^ 64" using Suc.prems(3) lt by simp
  have idx: "slot q (of_nat h + of_nat i) = ?k mod ?c"
    using slot_eq [of ?k q] fit by simp
  have cell: "aq_buffer q ! (?k mod ?c) =
      \<lparr>cell_seq = of_nat h + of_nat i + 1, cell_storage = Some (entry_at (aq_buffer q) ?c ?k)\<rparr>"
    using cells_okD(6) [OF Suc.prems(1) le_refl lt] by (simp add: ac_simps)
  define B where "B = (aq_buffer q)[?k mod ?c := \<lparr>cell_seq = of_nat (?k + ?c), cell_storage = None\<rparr>]"
  have seq: "of_nat h + of_nat i + aq_capacity q = (of_nat (?k + ?c) :: size_t)"
    by (simp add: aq_cap_def)
  have step: "drain (of_nat h) (Suc n) (of_nat i) result q =
      drain (of_nat h) n (of_nat (Suc i)) (result @ [entry_at (aq_buffer q) ?c ?k]) (q\<lparr>aq_buffer := B\<rparr>)"
    unfolding drain.simps Let_def idx cell seq by (simp add: set_cell_def B_def ac_simps)
  have n: "n = t - (h + Suc i)" using Suc.prems(2) by simp
  have "cells_ok B ?c (h + Suc i) t" and
    ents: "entries (aq_buffer q) ?c ?k t = entry_at (aq_buffer q) ?c ?k # entries B ?c (h + Suc i) t"
    using cells_ok_free [OF Suc.prems(1) lt fit] by (simp_all add: B_def)
  then obtain B' where
    "drain (of_nat h) n (of_nat (Suc i)) (result @ [entry_at (aq_buffer q) ?c ?k]) (q\<lparr>aq_buffer := B\<rparr>) =
       Some ((result @ [entry_at (aq_buffer q) ?c ?k]) @ entries B ?c (h + Suc i) t, q\<lparr>aq_buffer := B'\<rparr>)"
    "cells_ok B' ?c t t"
    using Suc.IH [where i = "Suc i" and q = "q\<lparr>aq_buffer := B\<rparr>"
        and result = "result @ [entry_at (aq_buffer q) ?c ?k]"] n Suc.prems(3)
    by (auto simp: aq_cap_def)
  with step ents show ?case by auto
qed

lemma popAll_drains:
  assumes inv: "aq_inv q"
  shows "\<exists>q'. popAll q = Some (aq_contents q, q') \<and> aq_inv q' \<and> aq_contents q' = [] \<and>
     aq_cap q' = aq_cap q \<and> aq_budget q' = aq_budget q"
proof -
  let ?c = "aq_cap q" and ?h = "unat (aq_head q)" and ?t = "unat (aq_tail q)"
  note ok = aq_inv_cells(1) [OF inv]
  have le: "aq_head q \<le> aq_tail q" using cells_okD(3) [OF ok] by (simp add: word_le_nat_alt)
  show ?thesis
  proof (cases "aq_tail q = aq_head q")
    case True
    with inv show ?thesis
      by (auto intro!: exI [of _ q] simp: popAll_def aq_contents_def entries_def)
  next
    case False
    have n: "unat (aq_tail q - aq_head q) = ?t - (?h + 0)"
      using le by (simp add: unat_diff_size word_le_nat_alt)
    from drain_ok [OF _ n, of q "[]"] ok aq_inv_cells(2) [OF inv] obtain B where
      d: "drain (aq_head q) (unat (aq_tail q - aq_head q)) 0 [] q =
            Some (entries (aq_buffer q) ?c ?h ?t, q\<lparr>aq_buffer := B\<rparr>)" and B: "cells_ok B ?c ?t ?t"
      by auto
    let ?q' = "q\<lparr>aq_buffer := B, aq_head := aq_tail q, aq_size := aq_size q - (aq_tail q - aq_head q)\<rparr>"
    have "popAll q = Some (aq_contents q, ?q')"
      using le False d by (simp add: popAll_def Let_def aq_contents_def)
    moreover have "aq_inv ?q'" "aq_contents ?q' = []"
      using B aq_inv_cells(2,3) [OF inv] by (simp_all add: aq_inv_def aq_cap_def aq_contents_def entries_def)
    ultimately show ?thesis by (intro exI [of _ ?q']) (simp add: aq_cap_def aq_budget_def)
  qed
qed

text \<open>The queue keeps the contract of a bounded first-in first-out store.\<close>

interpretation aq: bounded_fifo tryPush popAll aq_contents aq_cap aq_inv aq_budget
proof
  show "length (aq_contents q) \<le> aq_cap q" if "aq_inv q" for q :: "'a AsyncQueue"
    using cells_okD(3,4) [OF aq_inv_cells(1) [OF that]] by (simp add: aq_contents_def entries_def)
qed (fact tryPush_room tryPush_full popAll_drains)+

text \<open>Called by one thread, the accessors tell the truth.\<close>

lemma accessors_exact:
  assumes "aq_inv q"
  shows "unat (AsyncQueue_size q) = length (aq_contents q)" "unat (AsyncQueue_capacity q) = aq_cap q"
    "aq_isEmpty q \<longleftrightarrow> aq_contents q = []"
proof -
  have "aq_head q \<le> aq_tail q" using cells_okD(3) [OF aq_inv_cells(1) [OF assms]] by (simp add: word_le_nat_alt)
  then show size: "unat (AsyncQueue_size q) = length (aq_contents q)"
    using aq_inv_cells(3) [OF assms]
    by (simp add: AsyncQueue_size_def aq_contents_def entries_def unat_diff_size word_le_nat_alt)
  show "unat (AsyncQueue_capacity q) = aq_cap q" by (simp add: AsyncQueue_capacity_def aq_cap_def)
  show "aq_isEmpty q \<longleftrightarrow> aq_contents q = []"
    using size by (simp add: aq_isEmpty_def AsyncQueue_size_def) (metis length_0_conv unat_eq_zero)
qed

section \<open>The destructor\<close>

lemma storage_set_cell:
  "i < length (aq_buffer q) \<Longrightarrow> aq_buffer (set_cell i c q) ! j = (if j = i then c else aq_buffer q ! j)"
  by (simp add: set_cell_def nth_list_update)

lemma reset_storage_clears:
  assumes "length (aq_buffer q) = aq_cap q" "0 < aq_cap q" "h + i + n < 2 ^ 64"
  defines "r \<equiv> reset_storage (of_nat h) n (of_nat i) q"
  shows "length (aq_buffer r) = aq_cap q \<and>
     (\<forall>j < aq_cap q. cell_storage (aq_buffer r ! j) =
        (if \<exists>u. h + i \<le> u \<and> u < h + i + n \<and> j = u mod aq_cap q then None
         else cell_storage (aq_buffer q ! j)))"
  using assms(1-3) unfolding r_def
proof (induction n arbitrary: i q)
  case 0
  then show ?case by auto
next
  case (Suc n)
  let ?k = "h + i" and ?c = "aq_cap q"
  have idx: "slot q (of_nat h + of_nat i) = ?k mod ?c"
    using slot_eq [of ?k q] Suc.prems(3) by simp
  have in_ring: "?k mod ?c < length (aq_buffer q)" using Suc.prems(1,2) by simp
  define q1 where "q1 = (if cell_storage (aq_buffer q ! (?k mod ?c)) \<noteq> None
     then set_cell (?k mod ?c) ((aq_buffer q ! (?k mod ?c))\<lparr>cell_storage := None\<rparr>) q else q)"
  have q1: "length (aq_buffer q1) = aq_cap q1" "aq_cap q1 = ?c"
    using Suc.prems(1) by (simp_all add: q1_def set_cell_def aq_cap_def)
  have st: "cell_storage (aq_buffer q1 ! j) = (if j = ?k mod ?c then None else cell_storage (aq_buffer q ! j))" for j
    using storage_set_cell [OF in_ring] by (auto simp: q1_def)
  have step: "reset_storage (of_nat h) (Suc n) (of_nat i) q = reset_storage (of_nat h) n (of_nat (Suc i)) q1"
    by (simp add: Let_def idx q1_def add.commute)
  define hit where "hit m k j \<longleftrightarrow> (\<exists>u. k \<le> u \<and> u < k + m \<and> j = u mod ?c)" for m k j
  have hit: "hit (Suc n) ?k j \<longleftrightarrow> j = ?k mod ?c \<or> hit n (h + Suc i) j" for j
    unfolding hit_def using ex_window_Suc [of ?k n] by simp
  have IH: "length (aq_buffer (reset_storage (of_nat h) n (of_nat (Suc i)) q1)) = ?c \<and> (\<forall>j < ?c.
      cell_storage (aq_buffer (reset_storage (of_nat h) n (of_nat (Suc i)) q1) ! j) =
        (if hit n (h + Suc i) j then None else cell_storage (aq_buffer q1 ! j)))"
    using Suc.IH [of q1 "Suc i"] q1 Suc.prems(2,3) unfolding hit_def by simp
  show ?case
    unfolding step hit_def [symmetric] hit using IH st by simp
qed

section \<open>Properties\<close>

text \<open>
  C18: a fresh queue of capacity \<open>c\<close> is a bounded first-in first-out queue: of any sequence
  of pushes exactly the first \<open>c\<close> are accepted (the others answer \<open>false\<close>), no operation
  waits forever, draining returns the accepted entries, each once and in order, and the queue
  is empty again and keeps its invariant.
\<close>

theorem queue_fifo:
  assumes "0 < unat capacity" "unat capacity < 2 ^ 62" "length es < 2 ^ 63"
  shows "\<exists>q q1 q2. AsyncQueue_ctor asserts capacity = Some q \<and>
     push_list tryPush es q = Some (map (\<lambda>i. i < unat capacity) [0..<length es], q1) \<and>
     popAll q1 = Some (take (unat capacity) es, q2) \<and> aq_contents q2 = [] \<and> aq_inv q2"
proof -
  from AsyncQueue_ctor_ok [OF assms(1,2)] obtain q :: "'a AsyncQueue" where
    q: "AsyncQueue_ctor asserts capacity = Some q" "aq_inv q" "aq_contents q = []"
      "aq_cap q = unat capacity"
    by blast
  then have "aq_tail q = 0" by (auto simp: AsyncQueue_ctor_def split: if_splits)
  with assms q have "length es \<le> aq_budget q" by (simp add: aq_budget_def)
  from aq.push_list_fifo [OF q(2) this] obtain q1 where
    "push_list tryPush es q = Some (map (\<lambda>i. i < unat capacity) [0..<length es], q1)" "aq_inv q1"
    "aq_contents q1 = take (unat capacity) es"
    using q(3,4) by auto
  with aq.pop_all_drains [of q1] q(1) show ?thesis by fastforce
qed

theorem queue_fifo_witness:
  "\<exists>q q1 q2. AsyncQueue_ctor True 2 = Some q \<and>
     push_list tryPush ''abc'' q = Some ([True, True, False], q1) \<and>
     popAll q1 = Some (''ab'', q2) \<and> aq_contents q2 = [] \<and> aq_inv q2"
proof -
  have eval: "map (\<lambda>i. i < unat (2 :: size_t)) [0..<length ''abc''] = [True, True, False]"
    "take (unat (2 :: size_t)) ''abc'' = ''ab''"
    by (simp_all add: upt_rec)
  have "0 < unat (2 :: size_t)" "unat (2 :: size_t) < 2 ^ 62" "length ''abc'' < 2 ^ 63" by simp_all
  from queue_fifo [OF this, of True] show ?thesis unfolding eval .
qed

text \<open>
  The destructor leaves no entry behind: after it no cell of the ring holds an entry, for
  every queue in its invariant.
\<close>

theorem dtor_clears:
  assumes "aq_inv q"
  shows "map cell_storage (aq_buffer (AsyncQueue_dtor q)) = replicate (aq_cap q) None"
proof -
  let ?c = "aq_cap q" and ?h = "unat (aq_head q)" and ?t = "unat (aq_tail q)"
  note ok = aq_inv_cells(1) [OF assms]
  have le: "aq_head q \<le> aq_tail q" using cells_okD(3) [OF ok] by (simp add: word_le_nat_alt)
  have n: "unat (aq_tail q - aq_head q) = ?t - ?h" using le by (simp add: unat_diff_size word_le_nat_alt)
  have r: "length (aq_buffer (AsyncQueue_dtor q)) = ?c \<and> (\<forall>j < ?c.
      cell_storage (aq_buffer (AsyncQueue_dtor q) ! j) =
        (if \<exists>u. ?h \<le> u \<and> u < ?h + (?t - ?h) \<and> j = u mod ?c then None else cell_storage (aq_buffer q ! j)))"
    using reset_storage_clears [of q ?h 0 "?t - ?h"] cells_okD(1-3) [OF ok] le n
    unfolding AsyncQueue_dtor_def Let_def by simp
  have "cell_storage (aq_buffer (AsyncQueue_dtor q) ! j) = None" if j: "j < ?c" for j
  proof (cases "\<exists>u. ?h \<le> u \<and> u < ?t \<and> j = u mod ?c")
    case True
    with r j show ?thesis using cells_okD(3) [OF ok] by auto
  next
    case False
    obtain u where u: "?h \<le> u" "u < ?h + ?c" "j = u mod ?c"
      using ex_residue_in_window [OF j] by blast
    then have "\<not> u < ?t" using False by blast
    then have "?t \<le> u" by simp
    with u False r j cells_okD(7) [OF ok, of u] cells_okD(3) [OF ok] show ?thesis by auto
  qed
  with r show ?thesis by (auto intro!: nth_equalityI)
qed

definition sample_queue :: "nat AsyncQueue" where
  "sample_queue = \<lparr>aq_buffer = [\<lparr>cell_seq = 3, cell_storage = Some 7\<rparr>, \<lparr>cell_seq = 3, cell_storage = None\<rparr>],
     aq_capacity = 2, aq_tail = 3, aq_head = 2, aq_size = 1\<rparr>"

lemma sample_queue_inv: "aq_inv sample_queue"
proof -
  have two: "(2 \<le> u \<and> u < 3) = (u = (2 :: nat))" "(3 \<le> u \<and> u < 4) = (u = (3 :: nat))" for u by auto
  show ?thesis
    by (simp add: aq_inv_def cells_ok_def sample_queue_def aq_cap_def two)
qed

theorem dtor_clears_witness:
  "map cell_storage (aq_buffer (AsyncQueue_dtor sample_queue)) = [None, None]"
proof -
  have "replicate (aq_cap sample_queue) None = [None, None :: nat option]"
    by (simp add: sample_queue_def aq_cap_def) (simp add: numeral_2_eq_2)
  with dtor_clears [OF sample_queue_inv] show ?thesis by simp
qed

definition queue_before_wrap :: "nat AsyncQueue" where
  "queue_before_wrap = \<lparr>aq_buffer = [\<lparr>cell_seq = 18446744073709551615, cell_storage = None\<rparr>,
       \<lparr>cell_seq = 0, cell_storage = None\<rparr>, \<lparr>cell_seq = 1, cell_storage = None\<rparr>],
     aq_capacity = 3, aq_tail = 18446744073709551615, aq_head = 18446744073709551615, aq_size = 0\<rparr>"

text \<open>
  The ticket counters must not wrap. One ticket before the wrap a queue of capacity 3,
  whose cells are as the algorithm leaves them, accepts one more entry; from then on \<open>popAll\<close>
  returns nothing although the size is 1, and the next push, of ticket 0, is accepted into the
  slot of the last ticket and overwrites its entry.
\<close>

theorem counter_wrap_loses_entry:
  "\<exists>q q'. tryPush 7 queue_before_wrap = Some (True, q) \<and> aq_size q = 1 \<and>
     popAll q = Some ([], q) \<and> tryPush 8 q = Some (True, q') \<and> aq_size q' = 2 \<and>
     map cell_storage (aq_buffer q') = [Some 8, None, None]"
  by (simp add: tryPush_def popAll_def queue_before_wrap_def looks_full_def slot_def set_cell_def
      Let_def word_le_nat_alt)

end
