(* ===== verification/Mpsc.thy ===== *)
theory Mpsc
  imports Async_Queue
begin

text \<open>
  \<open>async_queue.cpp\<close> under concurrency: \<open>tryPush\<close> and \<open>popAll\<close> broken into their atomic
  accesses, any number of producer threads interleaved in any order with consumer threads.
  The interleaving is sequentially consistent: the release/acquire pairs of the code order
  the accesses to each cell, and weaker orders of unrelated accesses are not modelled.
  Ghost state: \<open>hist\<close> is the entries in the order in which their tickets were reserved,
  \<open>taken\<close> what finished calls of \<open>popAll\<close> have returned.
\<close>

section \<open>Program counters and atomic actions\<close>

datatype 'e producer =
    PIdle
  | PCall 'e                     \<comment> \<open>about to load \<open>tail_\<close>\<close>
  | PLoadHead 'e size_t          \<comment> \<open>\<open>current_tail\<close> loaded, about to load \<open>head_\<close>\<close>
  | PCas 'e size_t               \<comment> \<open>not full, about to reserve the ticket\<close>
  | PWait 'e size_t              \<comment> \<open>ticket reserved, spinning on the slot\<close>
  | PEmplace 'e size_t           \<comment> \<open>slot free, about to store the entry\<close>
  | PPublish size_t              \<comment> \<open>entry stored, about to publish\<close>
  | PCount                       \<comment> \<open>published, about to count\<close>
  | PDone bool

datatype 'e consumer =
    CIdle
  | CLoadTail size_t                           \<comment> \<open>\<open>head\<close> loaded\<close>
  | CSpin size_t size_t size_t "'e list"       \<comment> \<open>head, available, i, result\<close>
  | CFree size_t size_t size_t "'e list"       \<comment> \<open>entry taken, about to free the slot\<close>
  | CAdvance size_t size_t "'e list"           \<comment> \<open>about to store \<open>head_\<close>\<close>
  | CCount size_t "'e list"
  | CDone "'e list"

text \<open>
  One atomic action of \<open>tryPush\<close>: the queue and program counter after it, and the entry
  whose ticket it reserved, if any. \<open>weak_fails\<close> lets \<open>compare_exchange_weak\<close> fail
  spuriously.
\<close>

fun producer_action ::
  "bool \<Rightarrow> 'e AsyncQueue \<Rightarrow> 'e producer \<Rightarrow> 'e AsyncQueue \<times> 'e producer \<times> 'e list" where
  "producer_action weak_fails q PIdle = (q, PIdle, [])"
| "producer_action weak_fails q (PCall e) = (q, PLoadHead e (aq_tail q), [])"
| "producer_action weak_fails q (PLoadHead e current_tail) =
     (if looks_full q current_tail (aq_head q) then (q, PDone False, [])
      else (q, PCas e current_tail, []))"
| "producer_action weak_fails q (PCas e current_tail) =
     (if aq_tail q = current_tail \<and> \<not> weak_fails
      then (q\<lparr>aq_tail := current_tail + 1\<rparr>, PWait e current_tail, [e])
      else (q, PCall e, []))"
| "producer_action weak_fails q (PWait e current_tail) =
     (if cell_seq (aq_buffer q ! slot q current_tail) \<noteq> current_tail then (q, PWait e current_tail, [])
      else (q, PEmplace e current_tail, []))"
| "producer_action weak_fails q (PEmplace e current_tail) =
     (let pos = slot q current_tail
      in (set_cell pos ((aq_buffer q ! pos)\<lparr>cell_storage := Some e\<rparr>) q, PPublish current_tail, []))"
| "producer_action weak_fails q (PPublish current_tail) =
     (let pos = slot q current_tail
      in (set_cell pos ((aq_buffer q ! pos)\<lparr>cell_seq := current_tail + 1\<rparr>) q, PCount, []))"
| "producer_action weak_fails q PCount = (q\<lparr>aq_size := aq_size q + 1\<rparr>, PDone True, [])"
| "producer_action weak_fails q (PDone b) = (q, PIdle, [])"

text \<open>One atomic action of \<open>popAll\<close>; the last component is what the call returns.\<close>

fun consumer_action ::
  "'e AsyncQueue \<Rightarrow> 'e consumer \<Rightarrow> 'e AsyncQueue \<times> 'e consumer \<times> 'e list" where
  "consumer_action q CIdle = (q, CLoadTail (aq_head q), [])"
| "consumer_action q (CLoadTail head) =
     (let tail = aq_tail q; available = (if tail \<ge> head then tail - head else 0)
      in (q, if available = 0 then CDone [] else CSpin head available 0 [], []))"
| "consumer_action q (CSpin head available i result) =
     (let idx = slot q (head + i); cell = aq_buffer q ! idx; expected = head + i + 1
      in if cell_seq cell \<noteq> expected then (q, CSpin head available i result, [])
         else (set_cell idx (cell\<lparr>cell_storage := None\<rparr>) q,
               CFree head available i
                 (case cell_storage cell of Some e \<Rightarrow> result @ [e] | None \<Rightarrow> result), []))"
| "consumer_action q (CFree head available i result) =
     (let idx = slot q (head + i); cell = aq_buffer q ! idx
      in (set_cell idx (cell\<lparr>cell_seq := head + i + aq_capacity q\<rparr>) q,
          if i + 1 < available then CSpin head available (i + 1) result
          else CAdvance head available result, []))"
| "consumer_action q (CAdvance head available result) =
     (q\<lparr>aq_head := head + available\<rparr>, CCount available result, [])"
| "consumer_action q (CCount available result) =
     (q\<lparr>aq_size := aq_size q - available\<rparr>, CDone result, [])"
| "consumer_action q (CDone result) = (q, CIdle, result)"

section \<open>Interleavings\<close>

record 'e mpsc =
  mq :: "'e AsyncQueue"
  prods :: "nat \<Rightarrow> 'e producer"
  conss :: "nat \<Rightarrow> 'e consumer"
  hist :: "'e list"
  taken :: "'e list"

definition mpsc_init :: "'e AsyncQueue \<Rightarrow> 'e mpsc" where
  "mpsc_init q = \<lparr>mq = q, prods = (\<lambda>_. PIdle), conss = (\<lambda>_. CIdle), hist = [], taken = []\<rparr>"

datatype 'e event =
    Call nat 'e            \<comment> \<open>producer calls \<open>tryPush\<close>\<close>
  | Prod nat bool          \<comment> \<open>producer makes its next atomic action\<close>
  | Cons nat               \<comment> \<open>consumer makes its next atomic action\<close>

fun enabled :: "'e event \<Rightarrow> 'e mpsc \<Rightarrow> bool" where
  "enabled (Call p e) s \<longleftrightarrow> prods s p = PIdle"
| "enabled (Prod p w) s \<longleftrightarrow> prods s p \<noteq> PIdle"
| "enabled (Cons c) s \<longleftrightarrow> True"

fun exec_event :: "'e event \<Rightarrow> 'e mpsc \<Rightarrow> 'e mpsc" where
  "exec_event (Call p e) s = s\<lparr>prods := (prods s)(p := PCall e)\<rparr>"
| "exec_event (Prod p w) s =
     (case producer_action w (mq s) (prods s p) of (q, pc, new) \<Rightarrow>
        s\<lparr>mq := q, prods := (prods s)(p := pc), hist := hist s @ new\<rparr>)"
| "exec_event (Cons c) s =
     (case consumer_action (mq s) (conss s c) of (q, pc, out) \<Rightarrow>
        s\<lparr>mq := q, conss := (conss s)(c := pc), taken := taken s @ out\<rparr>)"

text \<open>
  A step of the queue, and a step in which only consumer 0 pops, which is the way the class
  is meant to be used.
\<close>

inductive queue_step :: "'e mpsc \<Rightarrow> 'e mpsc \<Rightarrow> bool" where
  event: "enabled ev s \<Longrightarrow> queue_step s (exec_event ev s)"

inductive mpsc_step :: "'e mpsc \<Rightarrow> 'e mpsc \<Rightarrow> bool" where
  call: "prods s p = PIdle \<Longrightarrow> mpsc_step s (exec_event (Call p e) s)"
| prod: "prods s p \<noteq> PIdle \<Longrightarrow> mpsc_step s (exec_event (Prod p w) s)"
| cons: "mpsc_step s (exec_event (Cons 0) s)"

inductive_cases mpsc_stepE: "mpsc_step s t"

lemma mpsc_step_queue_step: "mpsc_step s t \<Longrightarrow> queue_step s t"
  by (induction rule: mpsc_step.induct) (metis enabled.simps queue_step.event)+

text \<open>Concrete runs: a schedule is a list of events, each enabled when its turn comes.\<close>

fun run_schedule :: "'e event list \<Rightarrow> 'e mpsc \<Rightarrow> 'e mpsc option" where
  "run_schedule [] s = Some s"
| "run_schedule (ev # evs) s = (if enabled ev s then run_schedule evs (exec_event ev s) else None)"

lemma run_schedule_reach: "run_schedule evs s = Some t \<Longrightarrow> queue_step\<^sup>*\<^sup>* s t"
proof (induction evs arbitrary: s)
  case Nil
  then show ?case by simp
next
  case (Cons ev evs)
  then have "queue_step s (exec_event ev s)" "queue_step\<^sup>*\<^sup>* (exec_event ev s) t"
    by (auto split: if_splits intro: queue_step.event)
  then show ?case by (rule converse_rtranclp_into_rtranclp)
qed

section \<open>The invariant\<close>

definition cell_at :: "'e AsyncQueue \<Rightarrow> nat \<Rightarrow> 'e Cell" where
  "cell_at q u = aq_buffer q ! (u mod aq_cap q)"

fun ticket_of :: "'e producer \<Rightarrow> size_t option" where
  "ticket_of (PWait e t) = Some t"
| "ticket_of (PEmplace e t) = Some t"
| "ticket_of (PPublish t) = Some t"
| "ticket_of pc = None"

text \<open>
  How far the consumer has come: the tickets whose slots it has freed, those whose entries
  it has taken out, and what it has in hand.
\<close>

fun freed :: "'e AsyncQueue \<Rightarrow> 'e consumer \<Rightarrow> nat" where
  "freed q (CSpin h a i r) = unat h + unat i"
| "freed q (CFree h a i r) = unat h + unat i"
| "freed q (CAdvance h a r) = unat h + unat a"
| "freed q c = unat (aq_head q)"

fun emptied :: "'e AsyncQueue \<Rightarrow> 'e consumer \<Rightarrow> nat" where
  "emptied q (CFree h a i r) = Suc (unat h + unat i)"
| "emptied q c = freed q c"

fun in_hand :: "'e consumer \<Rightarrow> 'e list" where
  "in_hand (CSpin h a i r) = r"
| "in_hand (CFree h a i r) = r"
| "in_hand (CAdvance h a r) = r"
| "in_hand (CCount a r) = r"
| "in_hand (CDone r) = r"
| "in_hand c = []"

fun consumer_ok :: "'e AsyncQueue \<Rightarrow> nat \<Rightarrow> 'e consumer \<Rightarrow> bool" where
  "consumer_ok q T (CLoadTail h) \<longleftrightarrow> h = aq_head q"
| "consumer_ok q T (CSpin h a i r) \<longleftrightarrow> h = aq_head q \<and> i < a \<and> unat h + unat a \<le> T"
| "consumer_ok q T (CFree h a i r) \<longleftrightarrow> h = aq_head q \<and> i < a \<and> unat h + unat a \<le> T \<and>
     cell_at q (unat h + unat i) = \<lparr>cell_seq = of_nat (Suc (unat h + unat i)), cell_storage = None\<rparr>"
| "consumer_ok q T (CAdvance h a r) \<longleftrightarrow> h = aq_head q \<and> unat h + unat a \<le> T"
| "consumer_ok q T c \<longleftrightarrow> True"

text \<open>\<open>k\<close> is the first ticket whose entry has not been taken out.\<close>

fun producer_ok :: "'e AsyncQueue \<Rightarrow> nat \<Rightarrow> 'e list \<Rightarrow> 'e producer \<Rightarrow> bool" where
  "producer_ok q k hs (PCas e t) \<longleftrightarrow> unat t < unat (aq_head q) + aq_cap q"
| "producer_ok q k hs (PWait e t) \<longleftrightarrow> k \<le> unat t \<and> unat t < length hs \<and> hs ! unat t = e \<and>
     cell_at q (unat t) = \<lparr>cell_seq = t, cell_storage = None\<rparr>"
| "producer_ok q k hs (PEmplace e t) \<longleftrightarrow> k \<le> unat t \<and> unat t < length hs \<and> hs ! unat t = e \<and>
     cell_at q (unat t) = \<lparr>cell_seq = t, cell_storage = None\<rparr>"
| "producer_ok q k hs (PPublish t) \<longleftrightarrow> k \<le> unat t \<and> unat t < length hs \<and>
     cell_at q (unat t) = \<lparr>cell_seq = t, cell_storage = Some (hs ! unat t)\<rparr>"
| "producer_ok q k hs pc \<longleftrightarrow> True"

definition ring_ok :: "'e AsyncQueue \<Rightarrow> nat \<Rightarrow> nat \<Rightarrow> bool" where
  "ring_ok q f T \<longleftrightarrow> 0 < aq_cap q \<and> length (aq_buffer q) = aq_cap q \<and> aq_tail q = of_nat T \<and>
     unat (aq_head q) \<le> f \<and> f \<le> T \<and> T \<le> unat (aq_head q) + aq_cap q \<and>
     (\<forall>u. T \<le> u \<and> u < f + aq_cap q \<longrightarrow> cell_at q u = \<lparr>cell_seq = of_nat u, cell_storage = None\<rparr>)"

definition published_ok :: "'e AsyncQueue \<Rightarrow> nat \<Rightarrow> 'e list \<Rightarrow> (nat \<Rightarrow> 'e producer) \<Rightarrow> bool" where
  "published_ok q k hs P \<longleftrightarrow>
     (\<forall>u. k \<le> u \<and> u < length hs \<and> (\<forall>p. ticket_of (P p) \<noteq> Some (of_nat u)) \<longrightarrow>
        cell_at q u = \<lparr>cell_seq = of_nat (Suc u), cell_storage = Some (hs ! u)\<rparr>)"

definition tickets_ok :: "(nat \<Rightarrow> 'e producer) \<Rightarrow> bool" where
  "tickets_ok P \<longleftrightarrow> (\<forall>p p' t. ticket_of (P p) = Some t \<and> ticket_of (P p') = Some t \<longrightarrow> p = p')"

definition mpsc_ok ::
  "'e AsyncQueue \<Rightarrow> (nat \<Rightarrow> 'e producer) \<Rightarrow> 'e consumer \<Rightarrow> 'e list \<Rightarrow> 'e list \<Rightarrow> bool" where
  "mpsc_ok q P c hs tk \<longleftrightarrow>
     ring_ok q (freed q c) (length hs) \<and> consumer_ok q (length hs) c \<and>
     tk @ in_hand c = take (emptied q c) hs \<and>
     (\<forall>p. producer_ok q (emptied q c) hs (P p)) \<and> tickets_ok P \<and>
     published_ok q (emptied q c) hs P"

text \<open>The bound under which the 64-bit tickets have not come near their wrap.\<close>

definition no_wrap :: "'e mpsc \<Rightarrow> bool" where
  "no_wrap s \<longleftrightarrow> length (hist s) + 2 * aq_cap (mq s) < 2 ^ 64"

definition mpsc_inv :: "'e mpsc \<Rightarrow> bool" where
  "mpsc_inv s \<longleftrightarrow> (no_wrap s \<longrightarrow> mpsc_ok (mq s) (prods s) (conss s 0) (hist s) (taken s))"

section \<open>Preservation\<close>

lemma slot_unat: "slot q t = unat t mod aq_cap q"
  by (simp add: slot_def aq_cap_def unat_mod_size)

lemma cap_simps [simp]:
  "aq_cap (q\<lparr>aq_tail := x\<rparr>) = aq_cap q" "aq_cap (q\<lparr>aq_head := x\<rparr>) = aq_cap q"
  "aq_cap (q\<lparr>aq_size := x\<rparr>) = aq_cap q" "aq_cap (set_cell j c q) = aq_cap q"
  by (simp_all add: aq_cap_def set_cell_def)

lemma set_cell_simps [simp]:
  "aq_tail (set_cell j c q) = aq_tail q" "aq_head (set_cell j c q) = aq_head q"
  "aq_size (set_cell j c q) = aq_size q" "aq_capacity (set_cell j c q) = aq_capacity q"
  "length (aq_buffer (set_cell j c q)) = length (aq_buffer q)"
  by (simp_all add: set_cell_def)

lemma cell_at_simps [simp]:
  "cell_at (q\<lparr>aq_tail := x\<rparr>) u = cell_at q u" "cell_at (q\<lparr>aq_head := x\<rparr>) u = cell_at q u"
  "cell_at (q\<lparr>aq_size := x\<rparr>) u = cell_at q u"
  by (simp_all add: cell_at_def)

lemma cell_at_set:
  assumes "length (aq_buffer q) = aq_cap q" "f \<le> u" "u < f + aq_cap q" "f \<le> v" "v < f + aq_cap q"
  shows "cell_at (set_cell (u mod aq_cap q) c q) v = (if v = u then c else cell_at q v)"
proof -
  have set: "cell_at (set_cell i c q) v = (aq_buffer q)[i := c] ! (v mod aq_cap q)" for i
    by (simp add: cell_at_def aq_cap_def set_cell_def)
  show ?thesis unfolding set unfolding cell_at_def by (rule nth_update_window [OF assms])
qed

lemma freed_cong: "aq_head q' = aq_head q \<Longrightarrow> freed q' c = freed q c"
  by (cases c) auto

lemma emptied_cong: "aq_head q' = aq_head q \<Longrightarrow> emptied q' c = emptied q c"
  by (cases c) auto

lemma emptied_freed: "emptied q c = freed q c \<or> emptied q c = Suc (freed q c)"
  by (cases c) auto

lemma mpsc_okD:
  assumes "mpsc_ok q P c hs tk"
  shows "ring_ok q (freed q c) (length hs)" "consumer_ok q (length hs) c"
    "tk @ in_hand c = take (emptied q c) hs" "\<And>p. producer_ok q (emptied q c) hs (P p)"
    "tickets_ok P" "published_ok q (emptied q c) hs P"
  using assms by (auto simp: mpsc_ok_def)

lemma ring_okD:
  assumes "ring_ok q f T"
  shows "0 < aq_cap q" "length (aq_buffer q) = aq_cap q" "aq_tail q = of_nat T"
    "unat (aq_head q) \<le> f" "f \<le> T" "T \<le> unat (aq_head q) + aq_cap q" "T \<le> f + aq_cap q"
    "T \<le> u \<Longrightarrow> u < f + aq_cap q \<Longrightarrow> cell_at q u = \<lparr>cell_seq = of_nat u, cell_storage = None\<rparr>"
  using assms by (auto simp: ring_ok_def)

lemma tickets_ok_update:
  assumes "tickets_ok P" "ticket_of pc = ticket_of (P p) \<or> ticket_of pc = None \<or>
    (\<forall>p'. p' \<noteq> p \<longrightarrow> ticket_of (P p') \<noteq> ticket_of pc)"
  shows "tickets_ok (P(p := pc))"
  using assms unfolding tickets_ok_def by (metis fun_upd_apply option.distinct(1))

text \<open>A change that touches neither the cells nor any ticket.\<close>

lemma quiet_step:
  assumes ok: "mpsc_ok q P c hs tk"
    and same: "aq_buffer q' = aq_buffer q" "aq_tail q' = aq_tail q" "aq_head q' = aq_head q"
      "aq_capacity q' = aq_capacity q"
    and pc: "ticket_of pc = ticket_of (P p)" "producer_ok q (emptied q c) hs pc"
  shows "mpsc_ok q' (P(p := pc)) c hs tk"
proof -
  have cells: "cell_at q' u = cell_at q u" and cap: "aq_cap q' = aq_cap q" for u
    using same by (simp_all add: cell_at_def aq_cap_def)
  have prod: "producer_ok q' k hs x = producer_ok q k hs x" for k x
    by (cases x) (simp_all add: cells cap same)
  have cons: "consumer_ok q' T c = consumer_ok q T c" for T
    by (cases c) (simp_all add: cells same)
  have tick: "ticket_of ((P(p := pc)) x) = ticket_of (P x)" for x using pc(1) by simp
  show ?thesis
    using mpsc_okD [OF ok] pc(2)
    unfolding mpsc_ok_def published_ok_def tick freed_cong [OF same(3)] emptied_cong [OF same(3)] prod cons
      cells ring_ok_def cap same tickets_ok_def
    by (simp add: prod)
qed

text \<open>A producer writes the cell of its own ticket.\<close>

lemma own_cell_step:
  assumes ok: "mpsc_ok q P c hs tk" and p: "ticket_of (P p) = Some t"
    and bounds: "emptied q c \<le> unat t" "unat t < length hs" and wrap: "length hs + 2 * aq_cap q < 2 ^ 64"
    and pc: "producer_ok (set_cell (unat t mod aq_cap q) cl q) (emptied q c) hs pc"
      "ticket_of pc = Some t \<or>
       ticket_of pc = None \<and> cl = \<lparr>cell_seq = of_nat (Suc (unat t)), cell_storage = Some (hs ! unat t)\<rparr>"
  shows "mpsc_ok (set_cell (unat t mod aq_cap q) cl q) (P(p := pc)) c hs tk"
proof -
  let ?q' = "set_cell (unat t mod aq_cap q) cl q" and ?f = "freed q c" and ?k = "emptied q c"
  note r = ring_okD [OF mpsc_okD(1) [OF ok]]
  have k: "?f \<le> ?k" "?k \<le> Suc ?f" using emptied_freed [of q c] by auto
  have cell: "cell_at ?q' u = (if u = unat t then cl else cell_at q u)" if "?f \<le> u" "u < ?f + aq_cap q" for u
    using cell_at_set [OF r(2), of ?f "unat t" u cl] that bounds k r(7) by simp
  have head: "aq_head ?q' = aq_head q" by simp
  have other: "producer_ok ?q' ?k hs (P p')" if "p' \<noteq> p" for p'
  proof -
    have ne: "ticket_of (P p') \<noteq> Some t" using mpsc_okD(5) [OF ok] p that by (auto simp: tickets_ok_def)
    have win: "?k \<le> unat w \<Longrightarrow> unat w < length hs \<Longrightarrow> w \<noteq> t \<Longrightarrow> cell_at ?q' (unat w) = cell_at q (unat w)" for w
      using cell [of "unat w"] k r(7) by (simp add: word_unat_eq_iff)
    show ?thesis using mpsc_okD(4) [OF ok, of p'] ne win by (cases "P p'") auto
  qed
  have cons: "consumer_ok ?q' (length hs) c"
  proof (cases c)
    case (CFree h a i res)
    then have "unat h + unat i \<noteq> unat t" "unat h + unat i < ?f + aq_cap q" "?f \<le> unat h + unat i"
      using bounds(1) r(1) by auto
    with cell mpsc_okD(2) [OF ok] show ?thesis by (auto simp: CFree)
  qed (use mpsc_okD(2) [OF ok] in auto)
  have pub: "published_ok ?q' ?k hs (P(p := pc))"
    unfolding published_ok_def
  proof (intro allI impI)
    fix u
    assume u: "?k \<le> u \<and> u < length hs \<and> (\<forall>p'. ticket_of ((P(p := pc)) p') \<noteq> Some (of_nat u))"
    with k r(7) have win: "?f \<le> u" "u < ?f + aq_cap q" by auto
    show "cell_at ?q' u = \<lparr>cell_seq = of_nat (Suc u), cell_storage = Some (hs ! u)\<rparr>"
    proof (cases "u = unat t")
      case True
      then have "of_nat u = t" by simp
      with u have "ticket_of pc \<noteq> Some t" by (metis fun_upd_same)
      with pc(2) cell [OF win] True show ?thesis by simp
    next
      case False
      have "u < 2 ^ 64" using u wrap by simp
      with False have "of_nat u \<noteq> t" using unat_of_nat_size by metis
      with u p have "\<forall>p'. ticket_of (P p') \<noteq> Some (of_nat u)" by (metis fun_upd_apply option.inject)
      with mpsc_okD(6) [OF ok] u cell [OF win] False show ?thesis by (simp add: published_ok_def)
    qed
  qed
  have free: "cell_at ?q' u = cell_at q u" if "length hs \<le> u" "u < ?f + aq_cap q" for u
    using cell [of u] that bounds r(5) by simp
  show ?thesis
    unfolding mpsc_ok_def freed_cong [OF head] emptied_cong [OF head]
  proof (intro conjI)
    show "ring_ok ?q' ?f (length hs)"
      using mpsc_okD(1) [OF ok] free by (simp add: ring_ok_def)
    show "\<forall>p'. producer_ok ?q' ?k hs ((P(p := pc)) p')" using other pc(1) by simp
    show "tickets_ok (P(p := pc))"
      using tickets_ok_update [OF mpsc_okD(5) [OF ok], of pc p] pc(2) p by auto
  qed (use cons pub mpsc_okD(3) [OF ok] in auto)
qed

text \<open>A producer reserves the next ticket.\<close>

lemma reserve_step:
  assumes ok: "mpsc_ok q P c hs tk" and p: "P p = PCas e t" and t: "aq_tail q = t"
    and wrap: "length (hs @ [e]) + 2 * aq_cap q < 2 ^ 64"
  shows "mpsc_ok (q\<lparr>aq_tail := t + 1\<rparr>) (P(p := PWait e t)) c (hs @ [e]) tk"
proof -
  let ?q' = "q\<lparr>aq_tail := t + 1\<rparr>" and ?f = "freed q c" and ?k = "emptied q c" and ?T = "length hs"
  note r = ring_okD [OF mpsc_okD(1) [OF ok]]
  have ut: "unat t = ?T" using r(3) t wrap by (auto simp: unat_of_nat_size)
  have room: "?T < unat (aq_head q) + aq_cap q" using mpsc_okD(4) [OF ok, of p] p ut by simp
  have kT: "?k \<le> ?T"
    using mpsc_okD(2) [OF ok] r(5) by (cases c) (auto simp: word_less_nat_alt)
  have head: "aq_head ?q' = aq_head q" by simp
  have next_cell: "cell_at q ?T = \<lparr>cell_seq = t, cell_storage = None\<rparr>"
    using r(8) [of ?T] room r(4) ut by (metis le_refl add_le_mono1 order_less_le_trans size_eq_of_nat)
  have other: "producer_ok ?q' ?k (hs @ [e]) (P p')" for p'
    using mpsc_okD(4) [OF ok, of p'] by (cases "P p'") (auto simp: nth_append)
  have none: "ticket_of (P p') \<noteq> Some t" for p'
  proof
    assume "ticket_of (P p') = Some t"
    with mpsc_okD(4) [OF ok, of p'] ut show False by (cases "P p'") auto
  qed
  have pub: "published_ok ?q' ?k (hs @ [e]) (P(p := PWait e t))"
    unfolding published_ok_def
  proof (intro allI impI)
    fix u
    assume u: "?k \<le> u \<and> u < length (hs @ [e]) \<and>
      (\<forall>p'. ticket_of ((P(p := PWait e t)) p') \<noteq> Some (of_nat u))"
    then have "of_nat u \<noteq> t" by (metis fun_upd_same ticket_of.simps(1))
    then have "u \<noteq> ?T" using ut by (metis size_eq_of_nat)
    with u have "u < ?T" by auto
    moreover have "\<forall>p'. ticket_of (P p') \<noteq> Some (of_nat u)"
      using u p by (metis fun_upd_apply option.distinct(1) ticket_of.simps(7))
    ultimately show "cell_at ?q' u = \<lparr>cell_seq = of_nat (Suc u), cell_storage = Some ((hs @ [e]) ! u)\<rparr>"
      using mpsc_okD(6) [OF ok] u by (simp add: published_ok_def nth_append)
  qed
  show ?thesis
    unfolding mpsc_ok_def freed_cong [OF head] emptied_cong [OF head]
  proof (intro conjI)
    show "ring_ok ?q' ?f (length (hs @ [e]))"
      using mpsc_okD(1) [OF ok] room r(3) t by (auto simp: ring_ok_def)
    show "consumer_ok ?q' (length (hs @ [e])) c"
      using mpsc_okD(2) [OF ok] by (cases c) auto
    show "tk @ in_hand c = take ?k (hs @ [e])" using mpsc_okD(3) [OF ok] kT by simp
    show "\<forall>p'. producer_ok ?q' ?k (hs @ [e]) ((P(p := PWait e t)) p')"
      using other ut kT next_cell by simp
    show "tickets_ok (P(p := PWait e t))"
      using tickets_ok_update [OF mpsc_okD(5) [OF ok], of "PWait e t" p] none by auto
  qed (rule pub)
qed

text \<open>A producer never spins: the slot of its ticket is free when it gets there.\<close>

lemma wait_slot_free:
  "mpsc_ok q P c hs tk \<Longrightarrow> P p = PWait e t \<Longrightarrow> cell_seq (aq_buffer q ! slot q t) = t"
  using mpsc_okD(4) [of q P c hs tk p] by (simp add: cell_at_def slot_unat)

lemma producer_preserves:
  assumes ok: "mpsc_ok q P c hs tk" and act: "producer_action w q (P p) = (q', pc, new)"
    and wrap: "length (hs @ new) + 2 * aq_cap q < 2 ^ 64"
  shows "mpsc_ok q' (P(p := pc)) c (hs @ new) tk"
proof (cases "P p")
  case (PEmplace e t)
  with act have q': "q' = set_cell (unat t mod aq_cap q) ((cell_at q (unat t))\<lparr>cell_storage := Some e\<rparr>) q"
    "pc = PPublish t" "new = []" by (auto simp: slot_unat cell_at_def Let_def)
  note pok = mpsc_okD(4) [OF ok, of p, unfolded PEmplace, simplified]
  note r = ring_okD [OF mpsc_okD(1) [OF ok]]
  have "freed q c \<le> unat t" "unat t < freed q c + aq_cap q" using pok r(7) emptied_freed [of q c] by auto
  then have "cell_at q' (unat t) = (cell_at q (unat t))\<lparr>cell_storage := Some e\<rparr>"
    unfolding q'(1) using cell_at_set [OF r(2)] by simp
  then have "producer_ok q' (emptied q c) hs pc" using pok q' by simp
  with own_cell_step [OF ok, of p t] PEmplace pok wrap q' show ?thesis by auto
next
  case (PPublish t)
  with act have q': "q' = set_cell (unat t mod aq_cap q) ((cell_at q (unat t))\<lparr>cell_seq := t + 1\<rparr>) q"
    "pc = PCount" "new = []" by (auto simp: slot_unat cell_at_def Let_def)
  note pok = mpsc_okD(4) [OF ok, of p, unfolded PPublish, simplified]
  have "of_nat (Suc (unat t)) = t + 1" by simp
  with own_cell_step [OF ok, of p t] PPublish pok wrap q' show ?thesis by (auto simp: add.commute)
next
  case (PCas e t)
  show ?thesis
  proof (cases "aq_tail q = t \<and> \<not> w")
    case True
    with PCas act wrap show ?thesis using reserve_step [OF ok PCas, of] by auto
  next
    case False
    with PCas act have "q' = q" "pc = PCall e" "new = []" by auto
    with quiet_step [OF ok, of q pc p] PCas show ?thesis by auto
  qed
next
  case (PLoadHead e t)
  show ?thesis
  proof (cases "looks_full q t (aq_head q)")
    case True
    with PLoadHead act have "q' = q" "pc = PDone False" "new = []" by auto
    with quiet_step [OF ok, of q pc p] PLoadHead show ?thesis by auto
  next
    case False
    with PLoadHead act have eqs: "q' = q" "pc = PCas e t" "new = []" by auto
    have "unat t < unat (aq_head q) + aq_cap q"
    proof (cases "unat (aq_head q) \<le> unat t")
      case True
      with False show ?thesis
        by (simp add: looks_full_def not_le word_less_nat_alt unat_diff_size aq_cap_def)
    qed simp
    with quiet_step [OF ok, of q pc p] PLoadHead eqs show ?thesis by auto
  qed
next
  case (PWait e t)
  with act wait_slot_free [OF ok PWait] have eqs: "q' = q" "pc = PEmplace e t" "new = []" by auto
  with quiet_step [OF ok, of q pc p] PWait mpsc_okD(4) [OF ok, of p] show ?thesis by auto
next
  case PCount
  with act have "q' = q\<lparr>aq_size := aq_size q + 1\<rparr>" "pc = PDone True" "new = []" by auto
  with quiet_step [OF ok, of q' pc p] PCount show ?thesis by auto
qed (use act quiet_step [OF ok, of q' pc p] in auto)

text \<open>The consumer takes out the entry of the next ticket, once it is published.\<close>

lemma unat_add_tickets: "unat (h :: size_t) + unat i < 2 ^ 64 \<Longrightarrow> unat (h + i) = unat h + unat i"
  by (rule unat_add_size)

lemma spin_published:
  assumes ok: "mpsc_ok q P (CSpin h a i res) hs tk" and wrap: "length hs + 2 * aq_cap q < 2 ^ 64"
    and seq: "cell_seq (aq_buffer q ! slot q (h + i)) = h + i + 1"
  shows "unat (h + i) = unat h + unat i" "unat h + unat i < length hs"
    "ticket_of (P p) \<noteq> Some (h + i)"
    "cell_at q (unat h + unat i) =
      \<lparr>cell_seq = h + i + 1, cell_storage = Some (hs ! (unat h + unat i))\<rparr>"
proof -
  let ?k = "unat h + unat i"
  from mpsc_okD(2) [OF ok] have lt: "?k < length hs" by (auto simp: word_less_nat_alt)
  with wrap show u: "unat (h + i) = ?k" by (simp add: unat_add_tickets)
  show "?k < length hs" by (rule lt)
  have cell: "cell_seq (cell_at q (unat (h + i))) = h + i + 1" using seq by (simp add: cell_at_def slot_unat)
  show none: "ticket_of (P p) \<noteq> Some (h + i)" for p
  proof
    assume "ticket_of (P p) = Some (h + i)"
    with mpsc_okD(4) [OF ok, of p] have "cell_seq (cell_at q (unat (h + i))) = h + i"
      by (cases "P p") auto
    with cell show False by simp
  qed
  have "of_nat ?k = h + i" by simp
  with none mpsc_okD(6) [OF ok] lt
  show "cell_at q ?k = \<lparr>cell_seq = h + i + 1, cell_storage = Some (hs ! ?k)\<rparr>"
    by (auto simp: published_ok_def add.commute)
qed

text \<open>What a producer or a published ticket relies on is not touched by another slot's change.\<close>

lemma other_cells:
  assumes "ring_ok q f T" "f < u" "u < f + aq_cap q"
  shows "cell_at (set_cell (f mod aq_cap q) cl q) u = cell_at q u"
  using cell_at_set [OF ring_okD(2) [OF assms(1)], of f f u cl] assms(2,3) ring_okD(1) [OF assms(1)]
  by simp

lemma other_slots:
  assumes r: "ring_ok q f (length hs)" and q': "q' = set_cell (f mod aq_cap q) cl q"
    and prod: "\<And>p. producer_ok q k hs (P p)" and pub: "published_ok q k hs P"
    and k: "f < k'" "k \<le> k'" and none: "\<And>p t. ticket_of (P p) = Some t \<Longrightarrow> k' \<le> unat t"
  shows "producer_ok q' k' hs (P p)" "published_ok q' k' hs P"
proof -
  note T = ring_okD(7) [OF r]
  have same: "cell_at q' u = cell_at q u" if "k' \<le> u" "u < length hs" for u
    unfolding q' using other_cells [OF r] that k T by simp
  have none': "ticket_of (P p) = Some t \<Longrightarrow>
      k' \<le> unat t \<and> (unat t < length hs \<longrightarrow> cell_at q' (unat t) = cell_at q (unat t))" for t p
    using none [of p t] same [of "unat t"] by blast
  show "producer_ok q' k' hs (P p)"
    using prod [of p] none' [of p] by (cases "P p") (auto simp: q')
  show "published_ok q' k' hs P"
    unfolding published_ok_def
  proof (intro allI impI)
    fix u
    assume u: "k' \<le> u \<and> u < length hs \<and> (\<forall>p. ticket_of (P p) \<noteq> Some (of_nat u))"
    with pub k(2) have "cell_at q u = \<lparr>cell_seq = of_nat (Suc u), cell_storage = Some (hs ! u)\<rparr>"
      by (simp add: published_ok_def)
    with same u show "cell_at q' u = \<lparr>cell_seq = of_nat (Suc u), cell_storage = Some (hs ! u)\<rparr>" by simp
  qed
qed

lemma pending_ge: "producer_ok q k hs pc \<Longrightarrow> ticket_of pc = Some t \<Longrightarrow> k \<le> unat t"
  by (cases pc) auto

lemma take_step:
  assumes ok: "mpsc_ok q P (CSpin h a i res) hs tk" and wrap: "length hs + 2 * aq_cap q < 2 ^ 64"
    and seq: "cell_seq (aq_buffer q ! slot q (h + i)) = h + i + 1"
    and q': "q' = set_cell (slot q (h + i)) ((aq_buffer q ! slot q (h + i))\<lparr>cell_storage := None\<rparr>) q"
  shows "mpsc_ok q' P (CFree h a i (res @ [hs ! (unat h + unat i)])) hs tk"
proof -
  let ?k = "unat h + unat i"
  note sp = spin_published [OF ok wrap seq]
  have cell: "aq_buffer q ! slot q (h + i) = cell_at q ?k" by (simp add: cell_at_def slot_unat sp(1))
  have q'': "q' = set_cell (?k mod aq_cap q) \<lparr>cell_seq = of_nat (Suc ?k), cell_storage = None\<rparr> q"
    using q' unfolding cell sp(4) by (simp add: slot_unat sp(1) add.commute)
  have r: "ring_ok q ?k (length hs)" using mpsc_okD(1) [OF ok] by simp
  have pend: "Suc ?k \<le> unat t" if "ticket_of (P p) = Some t" for p t
  proof -
    have "?k \<le> unat t" using pending_ge [OF mpsc_okD(4) [OF ok] that] by simp
    moreover have "unat t \<noteq> ?k" using sp(3) [of p] that sp(1) by (metis word_unat_eq_iff)
    ultimately show ?thesis by simp
  qed
  have prod: "\<And>p. producer_ok q ?k hs (P p)" and pub: "published_ok q ?k hs P"
    using mpsc_okD(4,6) [OF ok] by auto
  note os = other_slots [OF r q'' prod pub lessI le_SucI [OF le_refl] pend]
  have here: "cell_at q' ?k = \<lparr>cell_seq = of_nat (Suc ?k), cell_storage = None\<rparr>"
    using cell_at_set [OF ring_okD(2) [OF r], of ?k ?k ?k] ring_okD(1) [OF r] by (simp add: q'')
  have ring: "ring_ok q' ?k (length hs)"
    using r sp(2) other_cells [OF r] by (auto simp: ring_ok_def q'')
  show ?thesis
    unfolding mpsc_ok_def
    using ring here os(1,2) mpsc_okD(2,3,5) [OF ok] sp(2)
    by (auto simp: take_Suc_conv_app_nth q'' simp flip: append_assoc)
qed

lemma free_step:
  assumes ok: "mpsc_ok q P (CFree h a i res) hs tk" and wrap: "length hs + 2 * aq_cap q < 2 ^ 64"
    and q': "q' = set_cell (slot q (h + i))
        ((aq_buffer q ! slot q (h + i))\<lparr>cell_seq := h + i + aq_capacity q\<rparr>) q"
    and c': "c' = (if i + 1 < a then CSpin h a (i + 1) res else CAdvance h a res)"
  shows "mpsc_ok q' P c' hs tk"
proof -
  let ?k = "unat h + unat i" and ?c = "aq_cap q"
  have con: "h = aq_head q" "unat i < unat a" "unat h + unat a \<le> length hs"
    and here: "cell_at q ?k = \<lparr>cell_seq = of_nat (Suc ?k), cell_storage = None\<rparr>"
    using mpsc_okD(2) [OF ok] by (auto simp: word_less_nat_alt)
  have u: "unat (h + i) = ?k" using con wrap by (intro unat_add_tickets) simp
  have suc: "unat (i + 1) = Suc (unat i)" using con wrap by (intro unat_inc_size) simp
  have cap: "of_nat ?c = aq_capacity q" by (simp add: aq_cap_def)
  have q'': "q' = set_cell (?k mod ?c) \<lparr>cell_seq = of_nat (?k + ?c), cell_storage = None\<rparr> q"
    using q' here by (simp add: cell_at_def slot_unat u cap)
  have r: "ring_ok q ?k (length hs)" using mpsc_okD(1) [OF ok] by simp
  have lt: "?k < length hs" using con by simp
  have prod: "\<And>p. producer_ok q (Suc ?k) hs (P p)" and pub: "published_ok q (Suc ?k) hs P"
    using mpsc_okD(4,6) [OF ok] by auto
  note os = other_slots [OF r q'' prod pub lessI le_refl pending_ge [OF prod]]
  have "cell_at q' ?k = \<lparr>cell_seq = of_nat (?k + ?c), cell_storage = None\<rparr>"
    using cell_at_set [OF ring_okD(2) [OF r], of ?k ?k ?k] ring_okD(1) [OF r] by (simp add: q'')
  then have wrapped: "cell_at q' (?k + ?c) = \<lparr>cell_seq = of_nat (?k + ?c), cell_storage = None\<rparr>"
    by (simp add: cell_at_def q'')
  have ring: "ring_ok q' (Suc ?k) (length hs)"
    unfolding ring_ok_def
  proof (intro conjI allI impI)
    fix v
    assume v: "length hs \<le> v \<and> v < Suc ?k + aq_cap q'"
    show "cell_at q' v = \<lparr>cell_seq = of_nat v, cell_storage = None\<rparr>"
    proof (cases "v = ?k + ?c")
      case True
      then show ?thesis using wrapped by simp
    next
      case False
      with v have w: "?k < v" "v < ?k + ?c" using lt by (auto simp: q'')
      from other_cells [OF r w] ring_okD(8) [OF r, of v] v w show ?thesis by (simp add: q'')
    qed
  qed (use ring_okD(1-6) [OF r] lt in \<open>auto simp: q''\<close>)
  have end_loop: "unat a = Suc (unat i)" if "\<not> i + 1 < a"
    using that con(2) suc by (simp add: word_less_nat_alt)
  show ?thesis
    unfolding mpsc_ok_def
    using ring os(1,2) mpsc_okD(3,5) [OF ok] con suc end_loop
    by (auto simp: c' q'')
qed

lemma consumer_preserves:
  assumes ok: "mpsc_ok q P c hs tk" and act: "consumer_action q c = (q', c', out)"
    and wrap: "length hs + 2 * aq_cap q < 2 ^ 64"
  shows "mpsc_ok q' P c' hs (tk @ out)"
proof (cases c)
  case (CSpin h a i res)
  show ?thesis
  proof (cases "cell_seq (aq_buffer q ! slot q (h + i)) = h + i + 1")
    case True
    note sp = spin_published [OF ok [unfolded CSpin] wrap True]
    have "aq_buffer q ! slot q (h + i) = cell_at q (unat h + unat i)"
      by (simp add: cell_at_def slot_unat sp(1))
    with True act CSpin sp(4) show ?thesis
      using take_step [OF ok [unfolded CSpin] wrap True refl] by (auto simp: Let_def)
  next
    case False
    with act CSpin ok show ?thesis by (auto simp: Let_def)
  qed
next
  case (CFree h a i res)
  with act show ?thesis
    using free_step [OF ok [unfolded CFree] wrap refl refl] by (auto simp: Let_def)
next
  case CIdle
  with act ok show ?thesis by (auto simp: mpsc_ok_def)
next
  case (CLoadTail h)
  note r = ring_okD [OF mpsc_okD(1) [OF ok]]
  have h: "h = aq_head q" using mpsc_okD(2) [OF ok] CLoadTail by simp
  have tail: "unat (aq_tail q) = length hs" using r(3) wrap by (simp add: unat_of_nat_size)
  have le: "h \<le> aq_tail q" using r(4,5) h tail by (simp add: word_le_nat_alt)
  then have "unat (aq_tail q - h) = length hs - unat h"
    using tail by (simp add: unat_diff_size word_le_nat_alt)
  moreover have "unat h < length hs" if "aq_tail q \<noteq> h"
    using that le tail by (metis word_le_nat_alt le_neq_implies_less word_unat_eq_iff)
  ultimately show ?thesis using act ok CLoadTail le tail h
    by (auto simp: Let_def mpsc_ok_def word_less_nat_alt unat_gt_0 word_le_nat_alt split: if_splits)
next
  case (CAdvance h a res)
  have con: "h = aq_head q" "unat h + unat a \<le> length hs" using mpsc_okD(2) [OF ok] CAdvance by auto
  then have u: "unat (h + a) = unat h + unat a" using wrap by (intro unat_add_tickets) simp
  have q': "q' = q\<lparr>aq_head := h + a\<rparr>" "c' = CCount a res" "out = []" using act CAdvance by auto
  have "producer_ok q' k hs pc" if "producer_ok q k hs pc" for k pc
    using that con(1) u q'(1) by (cases pc) auto
  with mpsc_okD [OF ok] CAdvance con u q' show ?thesis
    by (auto simp: mpsc_ok_def ring_ok_def published_ok_def)
next
  case (CCount a res)
  with act have q': "q' = q\<lparr>aq_size := aq_size q - a\<rparr>" "c' = CDone res" "out = []" by auto
  have "producer_ok q' k hs pc = producer_ok q k hs pc" for k pc by (cases pc) (auto simp: q'(1))
  with mpsc_okD [OF ok] CCount q' show ?thesis
    by (auto simp: mpsc_ok_def ring_ok_def published_ok_def)
next
  case (CDone res)
  with act ok show ?thesis by (auto simp: mpsc_ok_def)
qed

section \<open>Runs with one consumer\<close>

lemma producer_action_cap: "producer_action w q pc = (q', pc', new) \<Longrightarrow> aq_cap q' = aq_cap q"
  by (cases pc) (auto simp: Let_def split: if_splits)

lemma producer_action_head: "producer_action w q pc = (q', pc', new) \<Longrightarrow> aq_head q' = aq_head q"
  by (cases pc) (auto simp: Let_def split: if_splits)

lemma consumer_action_cap: "consumer_action q c = (q', c', out) \<Longrightarrow> aq_cap q' = aq_cap q"
  by (cases c) (auto simp: Let_def split: if_splits)

lemma mpsc_inv_step:
  assumes "mpsc_step s t" "mpsc_inv s"
  shows "mpsc_inv t"
  using assms
proof (induction rule: mpsc_step.induct)
  case (call s p e)
  then have ok: "no_wrap s \<Longrightarrow> mpsc_ok (mq s) (prods s) (conss s 0) (hist s) (taken s)"
    by (simp add: mpsc_inv_def)
  show ?case
    using quiet_step [OF ok, of "mq s" "PCall e" p] call(1) by (auto simp: mpsc_inv_def no_wrap_def)
next
  case (prod s p w)
  obtain q pc new where act: "producer_action w (mq s) (prods s p) = (q, pc, new)"
    by (cases "producer_action w (mq s) (prods s p)") auto
  show ?case
    unfolding mpsc_inv_def
  proof
    assume nw: "no_wrap (exec_event (Prod p w) s)"
    then have w: "length (hist s @ new) + 2 * aq_cap (mq s) < 2 ^ 64"
      using producer_action_cap [OF act] by (simp add: no_wrap_def act)
    then have "no_wrap s" by (simp add: no_wrap_def)
    with prod(2) have "mpsc_ok (mq s) (prods s) (conss s 0) (hist s) (taken s)"
      by (simp add: mpsc_inv_def)
    from producer_preserves [OF this act w]
    show "mpsc_ok (mq (exec_event (Prod p w) s)) (prods (exec_event (Prod p w) s))
      (conss (exec_event (Prod p w) s) 0) (hist (exec_event (Prod p w) s)) (taken (exec_event (Prod p w) s))"
      by (simp add: act)
  qed
next
  case (cons s)
  obtain q c out where act: "consumer_action (mq s) (conss s 0) = (q, c, out)"
    by (cases "consumer_action (mq s) (conss s 0)") auto
  with cons show ?case
    using consumer_preserves [OF _ act] consumer_action_cap [OF act]
    by (auto simp: mpsc_inv_def no_wrap_def)
qed

interpretation mp: step_invariant mpsc_step mpsc_inv
  by unfold_locales (rule mpsc_inv_step)

lemma mpsc_inv_init:
  assumes "AsyncQueue_ctor asserts capacity = Some q" "0 < unat capacity"
  shows "mpsc_inv (mpsc_init q)" "aq_cap q = unat capacity"
  using assms
  by (auto simp: AsyncQueue_ctor_def Cell_ctor_def mpsc_inv_def mpsc_init_def mpsc_ok_def ring_ok_def
      tickets_ok_def published_ok_def cell_at_def aq_cap_def split: if_splits)

lemma mpsc_step_cap: "mpsc_step s t \<Longrightarrow> aq_cap (mq t) = aq_cap (mq s)"
  by (induction rule: mpsc_step.induct)
    (auto split: prod.splits dest: producer_action_cap consumer_action_cap)

lemma mpsc_run_cap: "mpsc_step\<^sup>*\<^sup>* s t \<Longrightarrow> aq_cap (mq t) = aq_cap (mq s)"
  by (induction rule: rtranclp_induct) (auto dest: mpsc_step_cap)

text \<open>What every run of one consumer and any producers satisfies before the tickets wrap.\<close>

lemma mpsc_reachable_ok:
  assumes "AsyncQueue_ctor asserts capacity = Some q" "0 < unat capacity"
    and "mpsc_step\<^sup>*\<^sup>* (mpsc_init q) s" "no_wrap s"
  shows "mpsc_ok (mq s) (prods s) (conss s 0) (hist s) (taken s)" "aq_cap (mq s) = unat capacity"
  using mp.inv_run [OF assms(3) mpsc_inv_init(1) [OF assms(1,2)]] assms(4) mpsc_run_cap [OF assms(3)]
    mpsc_inv_init(2) [OF assms(1,2)]
  by (auto simp: mpsc_inv_def mpsc_init_def)

fun single_consumer :: "'e event \<Rightarrow> bool" where
  "single_consumer (Cons c) \<longleftrightarrow> c = 0"
| "single_consumer ev \<longleftrightarrow> True"

lemma run_schedule_mpsc:
  "run_schedule evs s = Some t \<Longrightarrow> list_all single_consumer evs \<Longrightarrow> mpsc_step\<^sup>*\<^sup>* s t"
proof (induction evs arbitrary: s)
  case Nil
  then show ?case by simp
next
  case (Cons ev evs)
  have "mpsc_step s (exec_event ev s)"
    using Cons.prems mpsc_step.intros [of s]
    by (cases ev) (auto split: if_splits simp del: exec_event.simps)
  with Cons show ?case by (auto split: if_splits intro: converse_rtranclp_into_rtranclp)
qed

section \<open>Properties\<close>

text \<open>
  C6: with any number of concurrent producers and one consumer no entry is lost, duplicated
  or reordered: at every moment of every run the entries returned by \<open>popAll\<close>, followed by
  those the running call has in hand, are an initial segment of the entries in the order of
  their reservations, and at most \<open>capacity\<close> reserved entries are still in the queue.
\<close>

theorem mpsc_exactly_once_in_order:
  assumes "AsyncQueue_ctor asserts capacity = Some q" "0 < unat capacity"
    and "mpsc_step\<^sup>*\<^sup>* (mpsc_init q) s" "no_wrap s"
  shows "\<exists>rest. hist s = taken s @ in_hand (conss s 0) @ rest \<and> length rest \<le> unat capacity"
proof -
  note ok = mpsc_reachable_ok [OF assms]
  let ?k = "emptied (mq s) (conss s 0)"
  have "hist s = take ?k (hist s) @ drop ?k (hist s)" by simp
  moreover have "taken s @ in_hand (conss s 0) = take ?k (hist s)" using mpsc_okD(3) [OF ok(1)] .
  moreover have "length (drop ?k (hist s)) \<le> unat capacity"
    using ring_okD(7) [OF mpsc_okD(1) [OF ok(1)]] emptied_freed [of "mq s" "conss s 0"] ok(2) by auto
  ultimately show ?thesis by (metis append.assoc)
qed

definition two_producers :: "char event list" where
  "two_producers = [Call 0 CHR ''a'', Prod 0 False, Prod 0 False, Prod 0 False,
     Call 1 CHR ''b'', Prod 1 False, Prod 1 False, Prod 1 False, Prod 1 False, Prod 1 False, Prod 1 False,
     Cons 0, Cons 0, Prod 0 False, Cons 0, Prod 0 False, Prod 0 False, Cons 0, Cons 0, Cons 0, Cons 0]"

definition queue_of_2 :: "char AsyncQueue" where
  "queue_of_2 = \<lparr>aq_buffer = [\<lparr>cell_seq = 0, cell_storage = None\<rparr>, \<lparr>cell_seq = 1, cell_storage = None\<rparr>],
     aq_capacity = 2, aq_tail = 0, aq_head = 0, aq_size = 0\<rparr>"

lemma queue_of_2: "AsyncQueue_ctor True 2 = Some queue_of_2"
  by (simp add: AsyncQueue_ctor_def queue_of_2_def Cell_ctor_def upt_rec)

lemmas run_eval = producer_action.simps consumer_action.simps looks_full_def slot_def set_cell_def
  Let_def mpsc_init_def word_le_nat_alt word_less_nat_alt

theorem mpsc_exactly_once_in_order_witness:
  "\<exists>s rest. mpsc_step\<^sup>*\<^sup>* (mpsc_init queue_of_2) s \<and> in_hand (conss s 0) = ''ab'' \<and>
     hist s = taken s @ in_hand (conss s 0) @ rest \<and> length rest \<le> 2"
proof -
  obtain s where run: "run_schedule two_producers (mpsc_init queue_of_2) = Some s"
    and s: "in_hand (conss s 0) = ''ab''" "no_wrap s"
    by (simp add: two_producers_def queue_of_2_def run_eval no_wrap_def aq_cap_def)
  from run have reach: "mpsc_step\<^sup>*\<^sup>* (mpsc_init queue_of_2) s"
    by (rule run_schedule_mpsc) (simp add: two_producers_def)
  have "0 < unat (2 :: size_t)" by simp
  from mpsc_exactly_once_in_order [OF queue_of_2 this reach s(2)] reach s(1) show ?thesis by auto
qed

text \<open>
  When no \<open>tryPush\<close> holds a ticket and no \<open>popAll\<close> runs, every entry ever accepted has
  been returned or is in the queue: the returned entries followed by the queue's contents
  are all reserved entries in their order.
\<close>

theorem mpsc_quiescent_complete:
  assumes "AsyncQueue_ctor asserts capacity = Some q" "0 < unat capacity"
    and "mpsc_step\<^sup>*\<^sup>* (mpsc_init q) s" "no_wrap s"
    and "\<forall>p. ticket_of (prods s p) = None" "conss s 0 = CIdle"
  shows "hist s = taken s @ aq_contents (mq s)"
proof -
  note ok = mpsc_reachable_ok [OF assms(1-4)]
  note r = ring_okD [OF mpsc_okD(1) [OF ok(1)]]
  let ?h = "unat (aq_head (mq s))" and ?T = "length (hist s)"
  have idle: "freed (mq s) (conss s 0) = ?h" "emptied (mq s) (conss s 0) = ?h" using assms(6) by auto
  have tail: "unat (aq_tail (mq s)) = ?T" using r(3) assms(4) by (simp add: no_wrap_def unat_of_nat_size)
  have "cell_at (mq s) u = \<lparr>cell_seq = of_nat (Suc u), cell_storage = Some (hist s ! u)\<rparr>"
    if "?h \<le> u" "u < ?T" for u
    using mpsc_okD(6) [OF ok(1)] that assms(5) idle by (simp add: published_ok_def)
  then have "aq_contents (mq s) = map ((!) (hist s)) [?h..<?T]"
    by (simp add: aq_contents_def entries_def tail entry_at_def cell_at_def)
  also have "\<dots> = drop ?h (hist s)" by (rule nth_equalityI) auto
  finally show ?thesis using mpsc_okD(3) [OF ok(1)] assms(6) by simp
qed

definition one_push :: "char event list" where
  "one_push = [Call 3 CHR ''a'', Prod 3 False, Prod 3 False, Prod 3 True, Prod 3 False, Prod 3 False,
     Prod 3 False, Prod 3 False, Prod 3 False, Prod 3 False]"

theorem mpsc_quiescent_complete_witness:
  "\<exists>s. mpsc_step\<^sup>*\<^sup>* (mpsc_init queue_of_2) s \<and> hist s = ''a'' \<and> hist s = taken s @ aq_contents (mq s)"
proof -
  obtain s where run: "run_schedule one_push (mpsc_init queue_of_2) = Some s"
    and s: "hist s = ''a''" "no_wrap s" "\<forall>p. ticket_of (prods s p) = None" "conss s 0 = CIdle"
    by (simp add: one_push_def queue_of_2_def run_eval no_wrap_def aq_cap_def)
  from run have reach: "mpsc_step\<^sup>*\<^sup>* (mpsc_init queue_of_2) s"
    by (rule run_schedule_mpsc) (simp add: one_push_def)
  have "0 < unat (2 :: size_t)" by simp
  from mpsc_quiescent_complete [OF queue_of_2 this reach s(2,3,4)] reach s(1) show ?thesis by auto
qed

text \<open>
  C14: the only waiting in the queue is for a producer in the middle of its push: a producer
  that has its ticket finds its slot free at once and never spins, and where the consumer
  spins on a slot some producer holds exactly that ticket and has yet to publish it.
\<close>

theorem mpsc_waits_only_for_producer:
  assumes "AsyncQueue_ctor asserts capacity = Some q" "0 < unat capacity"
    and "mpsc_step\<^sup>*\<^sup>* (mpsc_init q) s" "no_wrap s"
  shows "(prods s p = PWait e t \<longrightarrow> producer_action w (mq s) (prods s p) = (mq s, PEmplace e t, [])) \<and>
    (conss s 0 = CSpin h a i r \<and> consumer_action (mq s) (conss s 0) = (mq s, conss s 0, []) \<longrightarrow>
       (\<exists>p. ticket_of (prods s p) = Some (h + i)))"
proof (intro conjI impI)
  note ok = mpsc_reachable_ok(1) [OF assms]
  show "producer_action w (mq s) (prods s p) = (mq s, PEmplace e t, [])" if "prods s p = PWait e t"
    using wait_slot_free [OF ok that] that by simp
  assume c: "conss s 0 = CSpin h a i r \<and> consumer_action (mq s) (conss s 0) = (mq s, conss s 0, [])"
  show "\<exists>p. ticket_of (prods s p) = Some (h + i)"
  proof (rule ccontr)
    assume none: "\<nexists>p. ticket_of (prods s p) = Some (h + i)"
    from c have conss: "conss s 0 = CSpin h a i r" by simp
    have lt: "unat h + unat i < length (hist s)"
      using mpsc_okD(2) [OF ok] conss by (auto simp: word_less_nat_alt)
    then have u: "unat (h + i) = unat h + unat i"
      using assms(4) by (intro unat_add_tickets) (simp add: no_wrap_def)
    have "cell_at (mq s) (unat h + unat i) =
        \<lparr>cell_seq = of_nat (Suc (unat h + unat i)), cell_storage = Some (hist s ! (unat h + unat i))\<rparr>"
      using mpsc_okD(6) [OF ok] none lt conss by (auto simp: published_ok_def)
    then have "cell_seq (aq_buffer (mq s) ! slot (mq s) (h + i)) = h + i + 1"
      by (simp add: cell_at_def slot_unat u)
    with c conss show False by (auto simp: Let_def)
  qed
qed

definition late_publish :: "char event list" where
  "late_publish = [Call 0 CHR ''a'', Prod 0 False, Prod 0 False, Prod 0 False, Cons 0, Cons 0]"

theorem mpsc_waits_only_for_producer_witness:
  "\<exists>s. mpsc_step\<^sup>*\<^sup>* (mpsc_init queue_of_2) s \<and> conss s 0 = CSpin 0 1 0 [] \<and>
     (\<exists>p. ticket_of (prods s p) = Some (0 + 0))"
proof -
  obtain s where run: "run_schedule late_publish (mpsc_init queue_of_2) = Some s"
    and s: "no_wrap s" "conss s 0 = CSpin 0 1 0 []" "consumer_action (mq s) (conss s 0) = (mq s, conss s 0, [])"
    by (simp add: late_publish_def queue_of_2_def run_eval no_wrap_def aq_cap_def)
  from run have reach: "mpsc_step\<^sup>*\<^sup>* (mpsc_init queue_of_2) s"
    by (rule run_schedule_mpsc) (simp add: late_publish_def)
  have "0 < unat (2 :: size_t)" by simp
  from mpsc_waits_only_for_producer [OF queue_of_2 this reach s(1)] reach s(2,3) show ?thesis by blast
qed

end
