(* ===== verification/Queue_Linear.thy ===== *)
theory Queue_Linear
  imports Mpsc
begin

text \<open>
  The lock-free queue as its clients see it: each call of any number of producers and of one consumer
  takes effect at one moment between its call and its return. A successful \<open>tryPush\<close> does at its
  compare-and-swap, \<open>popAll\<close> at its load of \<open>tail_\<close>, where it takes all that is in the queue, although
  some of it has not been stored yet.
\<close>

section \<open>The atomic queue\<close>

text \<open>What waits, what a running \<open>popAll\<close> has taken, and what has been returned.\<close>

record 'e atomic_queue =
  at_waiting :: "'e list"
  at_batch :: "'e list option"
  at_returned :: "'e list"

datatype 'e atomic_op = Put 'e | Take | Return "'e list"

fun atomic_exec :: "nat \<Rightarrow> 'e atomic_op \<Rightarrow> 'e atomic_queue \<Rightarrow> 'e atomic_queue option" where
  "atomic_exec cap (Put e) a =
     (if length (at_waiting a) < cap then Some (a\<lparr>at_waiting := at_waiting a @ [e]\<rparr>) else None)"
| "atomic_exec cap Take a =
     (if at_batch a = None then Some (a\<lparr>at_waiting := [], at_batch := Some (at_waiting a)\<rparr>) else None)"
| "atomic_exec cap (Return es) a =
     (if at_batch a = Some es then Some (a\<lparr>at_batch := None, at_returned := at_returned a @ es\<rparr>) else None)"

fun atomic_run :: "nat \<Rightarrow> 'e atomic_op list \<Rightarrow> 'e atomic_queue \<Rightarrow> 'e atomic_queue option" where
  "atomic_run cap [] a = Some a"
| "atomic_run cap (op # ops) a =
     (case atomic_exec cap op a of None \<Rightarrow> None | Some a \<Rightarrow> atomic_run cap ops a)"

lemma atomic_run_append:
  "atomic_run cap (ops @ ops') a = (case atomic_run cap ops a of None \<Rightarrow> None | Some a \<Rightarrow> atomic_run cap ops' a)"
  by (induction ops arbitrary: a) (simp_all split: option.splits)

section \<open>Where the calls take effect\<close>

fun takes_effect :: "'e event \<Rightarrow> 'e mpsc \<Rightarrow> 'e atomic_op list" where
  "takes_effect (Call p e) s = []"
| "takes_effect (Prod p weak_fails) s =
     (case prods s p of
        PCas e current_tail \<Rightarrow> (if aq_tail (mq s) = current_tail \<and> \<not> weak_fails then [Put e] else [])
      | _ \<Rightarrow> [])"
| "takes_effect (Cons c) s =
     (case conss s c of CLoadTail h \<Rightarrow> [Take] | CDone es \<Rightarrow> [Return es] | _ \<Rightarrow> [])"

fun effects :: "'e event list \<Rightarrow> 'e mpsc \<Rightarrow> 'e atomic_op list" where
  "effects [] s = []"
| "effects (ev # evs) s = takes_effect ev s @ effects evs (exec_event ev s)"

section \<open>The abstraction\<close>

text \<open>What the running \<open>popAll\<close> is to return, and the first ticket it leaves behind.\<close>

fun batch_of :: "'e list \<Rightarrow> 'e consumer \<Rightarrow> 'e list option" where
  "batch_of hs (CSpin h a i r) = Some (take (unat a) (drop (unat h) hs))"
| "batch_of hs (CFree h a i r) = Some (take (unat a) (drop (unat h) hs))"
| "batch_of hs (CAdvance h a r) = Some r"
| "batch_of hs (CCount a r) = Some r"
| "batch_of hs (CDone r) = Some r"
| "batch_of hs c = None"

fun left_behind :: "'e AsyncQueue \<Rightarrow> 'e consumer \<Rightarrow> nat" where
  "left_behind q (CSpin h a i r) = unat h + unat a"
| "left_behind q (CFree h a i r) = unat h + unat a"
| "left_behind q (CAdvance h a r) = unat h + unat a"
| "left_behind q c = unat (aq_head q)"

definition atomic_view :: "'e mpsc \<Rightarrow> 'e atomic_queue" where
  "atomic_view s =
     \<lparr>at_waiting = drop (left_behind (mq s) (conss s 0)) (hist s), at_batch = batch_of (hist s) (conss s 0),
      at_returned = taken s\<rparr>"

text \<open>What has been returned ends where the running call began.\<close>

fun returned_ok :: "'e AsyncQueue \<Rightarrow> nat \<Rightarrow> 'e consumer \<Rightarrow> bool" where
  "returned_ok q n (CCount a r) \<longleftrightarrow> n + length r = unat (aq_head q)"
| "returned_ok q n (CDone r) \<longleftrightarrow> n + length r = unat (aq_head q)"
| "returned_ok q n c \<longleftrightarrow> n = unat (aq_head q)"

definition linear_ok :: "'e mpsc \<Rightarrow> bool" where
  "linear_ok s \<longleftrightarrow> mpsc_ok (mq s) (prods s) (conss s 0) (hist s) (taken s) \<and>
     returned_ok (mq s) (length (taken s)) (conss s 0)"

lemma left_behind_le:
  assumes "linear_ok s"
  shows "left_behind (mq s) (conss s 0) \<le> length (hist s)" "unat (aq_head (mq s)) \<le> left_behind (mq s) (conss s 0)"
proof -
  have ok: "mpsc_ok (mq s) (prods s) (conss s 0) (hist s) (taken s)" using assms by (simp add: linear_ok_def)
  note r = ring_okD(4,5) [OF mpsc_okD(1) [OF ok]] and c = mpsc_okD(2) [OF ok]
  show "left_behind (mq s) (conss s 0) \<le> length (hist s)" "unat (aq_head (mq s)) \<le> left_behind (mq s) (conss s 0)"
    using r c by (cases "conss s 0"; auto)+
qed

text \<open>A batch already taken does not change when more entries are reserved.\<close>

lemma batch_of_append:
  assumes "left_behind q c \<le> length hs"
  shows "batch_of (hs @ new) c = batch_of hs c"
  using assms by (cases c) auto

section \<open>The simulation\<close>

lemma takes_effect_prod:
  "producer_action w (mq s) (prods s p) = (q', pc', new) \<Longrightarrow> takes_effect (Prod p w) s = map Put new"
  by (cases "prods s p") (auto simp: Let_def split: if_splits)

text \<open>A push that reserves a ticket finds room.\<close>

lemma reserve_room:
  assumes "linear_ok s" "producer_action w (mq s) (prods s p) = (q', pc', e # new)"
    and "length (hist s) < 2 ^ 64"
  shows "new = []" "length (hist s) - left_behind (mq s) (conss s 0) < aq_cap (mq s)"
proof -
  have ok: "mpsc_ok (mq s) (prods s) (conss s 0) (hist s) (taken s)" using assms(1) by (simp add: linear_ok_def)
  from assms(2) obtain e' where p: "prods s p = PCas e' (aq_tail (mq s))" and new: "new = []"
    by (cases "prods s p") (auto simp: Let_def split: if_splits)
  show "new = []" by (rule new)
  have "unat (aq_tail (mq s)) < unat (aq_head (mq s)) + aq_cap (mq s)"
    using mpsc_okD(4) [OF ok, of p] by (simp add: p)
  moreover have "unat (aq_tail (mq s)) = length (hist s)"
    using ring_okD(3) [OF mpsc_okD(1) [OF ok]] assms(3) by (simp add: unat_of_nat_size)
  ultimately show "length (hist s) - left_behind (mq s) (conss s 0) < aq_cap (mq s)"
    using left_behind_le [OF assms(1)] by simp
qed

definition simulates_atomic :: "'e event \<Rightarrow> 'e mpsc \<Rightarrow> bool" where
  "simulates_atomic ev s \<longleftrightarrow> linear_ok (exec_event ev s) \<and>
     atomic_run (aq_cap (mq s)) (takes_effect ev s) (atomic_view s) = Some (atomic_view (exec_event ev s))"

lemma producer_linear:
  assumes ok: "linear_ok s" and nw: "no_wrap (exec_event (Prod p w) s)"
  shows "simulates_atomic (Prod p w) s"
proof -
  obtain q' pc' new where act: "producer_action w (mq s) (prods s p) = (q', pc', new)"
    by (cases "producer_action w (mq s) (prods s p)") auto
  have wrap: "length (hist s @ new) + 2 * aq_cap (mq s) < 2 ^ 64"
    using nw producer_action_cap [OF act] by (simp add: no_wrap_def act)
  have head: "returned_ok q' n c = returned_ok (mq s) n c" "left_behind q' c = left_behind (mq s) c" for n c
    using producer_action_head [OF act] by (cases c; simp)+
  note lb = left_behind_le(1) [OF ok]
  have "linear_ok (exec_event (Prod p w) s)"
    using ok producer_preserves [of _ "prods s", OF _ act wrap] by (simp add: linear_ok_def act head)
  moreover have view: "atomic_view (exec_event (Prod p w) s) = (atomic_view s)\<lparr>at_waiting := at_waiting (atomic_view s) @ new\<rparr>"
    using lb batch_of_append [OF lb, of new] by (simp add: atomic_view_def act head)
  moreover have "atomic_run (aq_cap (mq s)) (map Put new) (atomic_view s) = Some (atomic_view (exec_event (Prod p w) s))"
  proof (cases new)
    case Nil
    with view show ?thesis by simp
  next
    case (Cons e es)
    from reserve_room [OF ok act [unfolded Cons]] wrap Cons view show ?thesis by (simp add: atomic_view_def)
  qed
  ultimately show ?thesis by (simp only: simulates_atomic_def takes_effect_prod [OF act])
qed

lemma consumer_returned:
  assumes ok: "linear_ok s" and act: "consumer_action (mq s) (conss s 0) = (q', c', out)"
    and wrap: "length (hist s) + 2 * aq_cap (mq s) < 2 ^ 64"
  shows "returned_ok q' (length (taken s @ out)) c'"
proof -
  have ok': "mpsc_ok (mq s) (prods s) (conss s 0) (hist s) (taken s)"
    and ret: "returned_ok (mq s) (length (taken s)) (conss s 0)" using ok by (simp_all add: linear_ok_def)
  show ?thesis
  proof (cases "conss s 0")
    case (CAdvance h a r)
    then have b: "unat h + unat a \<le> length (hist s)" using mpsc_okD(2) [OF ok'] by auto
    have "unat (h + a) = unat h + unat a" using b wrap by (intro unat_add_tickets) simp
    moreover have "length (taken s @ r) = unat h + unat a"
      using mpsc_okD(3) [OF ok'] CAdvance b by simp
    ultimately show ?thesis using act CAdvance by auto
  next
    case (CSpin h a i r)
    show ?thesis using act ret unfolding CSpin by (auto simp: Let_def split: if_splits option.splits)
  qed (use act ret in \<open>auto simp: Let_def set_cell_def split: if_splits option.splits\<close>)
qed

lemma consumer_linear:
  assumes ok: "linear_ok s" and nw: "no_wrap s"
  shows "simulates_atomic (Cons 0) s"
proof -
  obtain q' c' out where act: "consumer_action (mq s) (conss s 0) = (q', c', out)"
    by (cases "consumer_action (mq s) (conss s 0)") auto
  have wrap: "length (hist s) + 2 * aq_cap (mq s) < 2 ^ 64" using nw by (simp add: no_wrap_def)
  have ok': "mpsc_ok (mq s) (prods s) (conss s 0) (hist s) (taken s)"
    and ret: "returned_ok (mq s) (length (taken s)) (conss s 0)" using ok by (simp_all add: linear_ok_def)
  have "linear_ok (exec_event (Cons 0) s)"
    using consumer_preserves [OF ok' act wrap] consumer_returned [OF ok act wrap] by (simp add: linear_ok_def act)
  moreover have "atomic_run (aq_cap (mq s)) (takes_effect (Cons 0) s) (atomic_view s) =
      Some (atomic_view (exec_event (Cons 0) s))"
  proof (cases "conss s 0")
    case (CLoadTail h)
    note r = ring_okD [OF mpsc_okD(1) [OF ok']]
    have h: "h = aq_head (mq s)" using mpsc_okD(2) [OF ok'] CLoadTail by simp
    have tail: "unat (aq_tail (mq s)) = length (hist s)" using r(3) wrap by (simp add: unat_of_nat_size)
    have le: "h \<le> aq_tail (mq s)" using r(4,5) h tail by (simp add: word_le_nat_alt)
    then have d: "unat (aq_tail (mq s) - h) = length (hist s) - unat h" "unat h \<le> length (hist s)"
      using tail by (simp_all add: unat_diff_size word_le_nat_alt)
    have "drop (unat h) (hist s) = []" if "aq_tail (mq s) = h" using that tail by simp
    with act CLoadTail h le d show ?thesis by (auto simp: Let_def atomic_view_def)
  next
    case (CAdvance h a r)
    have b: "h = aq_head (mq s)" "unat h + unat a \<le> length (hist s)" using mpsc_okD(2) [OF ok'] CAdvance by auto
    have "unat (h + a) = unat h + unat a" using b(2) wrap by (intro unat_add_tickets) simp
    with act CAdvance show ?thesis by (auto simp: atomic_view_def)
  next
    case (CFree h a i r)
    note f = mpsc_okD(2,3) [OF ok']
    have i: "i < a" "unat h + unat a \<le> length (hist s)" "h = aq_head (mq s)" using f(1) CFree by auto
    have last: "r = take (unat a) (drop (unat h) (hist s))" if "\<not> i + 1 < a"
    proof -
      have "unat a = Suc (unat i)" using that i(1) unat_Suc_below [OF i(1)] by (simp add: word_less_nat_alt)
      then have tr: "taken s @ r = take (unat h + unat a) (hist s)" using f(2) CFree by simp
      have "length (taken s) = unat h" using ret CFree i(3) by simp
      with arg_cong [OF tr, of "drop (unat h)"] show ?thesis by (simp add: drop_take)
    qed
    with act CFree show ?thesis by (auto simp: Let_def atomic_view_def)
  next
    case (CSpin h a i r)
    show ?thesis using act unfolding CSpin
      by (auto simp: Let_def atomic_view_def set_cell_def CSpin split: if_splits option.splits)
  qed (use act in \<open>auto simp: Let_def atomic_view_def set_cell_def split: if_splits option.splits\<close>)
  ultimately show ?thesis by (simp add: simulates_atomic_def)
qed

section \<open>Whole runs\<close>

lemma call_linear:
  assumes "linear_ok s" "prods s p = PIdle"
  shows "simulates_atomic (Call p e) s"
proof -
  have ok: "mpsc_ok (mq s) (prods s) (conss s 0) (hist s) (taken s)" using assms(1) by (simp add: linear_ok_def)
  from quiet_step [OF ok, of "mq s" "PCall e" p] assms show ?thesis
    by (simp add: simulates_atomic_def linear_ok_def atomic_view_def)
qed

lemma event_linear:
  assumes "linear_ok s" "no_wrap (exec_event ev s)" "enabled ev s" "single_consumer ev"
  shows "simulates_atomic ev s" "no_wrap s" "aq_cap (mq (exec_event ev s)) = aq_cap (mq s)"
proof -
  show nw: "no_wrap s" and "aq_cap (mq (exec_event ev s)) = aq_cap (mq s)"
    using assms(2) by (cases ev; auto simp: no_wrap_def split: prod.splits dest: producer_action_cap consumer_action_cap)+
  show "simulates_atomic ev s"
    using assms call_linear [OF assms(1)] producer_linear [OF assms(1)] consumer_linear [OF assms(1) nw]
    by (cases ev) (simp_all del: exec_event.simps)
qed

lemma no_wrap_run: "run_schedule evs s = Some t \<Longrightarrow> no_wrap t \<Longrightarrow> no_wrap s"
proof (induction evs arbitrary: s)
  case (Cons ev evs)
  then have "no_wrap (exec_event ev s)" by (simp del: exec_event.simps split: if_splits)
  then show ?case by (cases ev; auto simp: no_wrap_def split: prod.splits dest: producer_action_cap consumer_action_cap)
qed simp

lemma run_linear:
  assumes "linear_ok s" "run_schedule evs s = Some t" "list_all single_consumer evs" "no_wrap t"
  shows "linear_ok t \<and> atomic_run (aq_cap (mq s)) (effects evs s) (atomic_view s) = Some (atomic_view t)"
  using assms
proof (induction evs arbitrary: s)
  case (Cons ev evs)
  let ?s = "exec_event ev s"
  from Cons.prems have run: "enabled ev s" "run_schedule evs ?s = Some t"
    by (simp_all del: exec_event.simps split: if_splits)
  have ev: "single_consumer ev" "list_all single_consumer evs" using Cons.prems(3) by simp_all
  note e = event_linear [OF Cons.prems(1) no_wrap_run [OF run(2) Cons.prems(4)] run(1) ev(1)]
  have "linear_ok ?s" using e(1) by (simp add: simulates_atomic_def del: exec_event.simps)
  from Cons.IH [OF this run(2) ev(2) Cons.prems(4)] e show ?case
    by (simp add: atomic_run_append simulates_atomic_def del: exec_event.simps takes_effect.simps)
qed simp

lemma linear_ok_init:
  assumes "AsyncQueue_ctor asserts capacity = Some q" "0 < unat capacity" "no_wrap (mpsc_init q)"
  shows "linear_ok (mpsc_init q)" "atomic_view (mpsc_init q) = \<lparr>at_waiting = [], at_batch = None, at_returned = []\<rparr>"
proof -
  have "aq_head q = 0" using assms(1) by (auto simp: AsyncQueue_ctor_def split: if_splits)
  then show "linear_ok (mpsc_init q)" "atomic_view (mpsc_init q) = \<lparr>at_waiting = [], at_batch = None, at_returned = []\<rparr>"
    using mpsc_inv_init [OF assms(1,2)] assms(3)
    by (simp_all add: linear_ok_def mpsc_inv_def atomic_view_def) (simp_all add: mpsc_init_def)
qed

text \<open>
  C7: the queue is linearizable for one consumer: in every run of any number of concurrent producers, take
  for each successful \<open>tryPush\<close> the moment of its compare-and-swap and for each \<open>popAll\<close> the moment in
  which it loads \<open>tail_\<close>, both between call and return. In the order of these moments the calls are a run of
  an atomic queue, in which a push is only accepted while fewer than \<open>capacity\<close> entries wait, a
  \<open>popAll\<close> takes everything that waits, even what is not stored yet, and returns exactly this; and at the end of
  the run the entries returned are those of the atomic queue.
\<close>

theorem mpsc_linearizable:
  assumes "AsyncQueue_ctor asserts capacity = Some q" "0 < unat capacity"
    and "run_schedule evs (mpsc_init q) = Some s" "list_all single_consumer evs" "no_wrap s"
  shows "\<exists>a. atomic_run (unat capacity) (effects evs (mpsc_init q))
       \<lparr>at_waiting = [], at_batch = None, at_returned = []\<rparr> = Some a \<and>
     at_returned a = taken s \<and> at_waiting a = drop (left_behind (mq s) (conss s 0)) (hist s) \<and>
     at_batch a = batch_of (hist s) (conss s 0)"
proof -
  note init = linear_ok_init [OF assms(1,2) no_wrap_run [OF assms(3,5)]]
  have cap: "aq_cap (mq (mpsc_init q)) = unat capacity" using mpsc_inv_init(2) [OF assms(1,2)] by (simp add: mpsc_init_def)
  from run_linear [OF init(1) assms(3-5)] show ?thesis
    unfolding cap init(2) by (auto simp: atomic_view_def)
qed

text \<open>
  In the run \<open>two_producers\<close> the consumer takes both entries while the first one's producer has only
  reserved its ticket.
\<close>

theorem mpsc_linearizable_witness:
  "\<exists>s. run_schedule two_producers (mpsc_init queue_of_2) = Some s \<and>
     effects two_producers (mpsc_init queue_of_2) = [Put CHR ''a'', Put CHR ''b'', Take] \<and>
     atomic_run 2 [Put CHR ''a'', Put CHR ''b'', Take] \<lparr>at_waiting = [], at_batch = None, at_returned = []\<rparr> =
       Some \<lparr>at_waiting = [], at_batch = Some ''ab'', at_returned = taken s\<rparr>"
proof -
  obtain s where run: "run_schedule two_producers (mpsc_init queue_of_2) = Some s"
    and s: "no_wrap s" "drop (left_behind (mq s) (conss s 0)) (hist s) = []" "batch_of (hist s) (conss s 0) = Some ''ab''"
    by (simp add: two_producers_def queue_of_2_def run_eval no_wrap_def aq_cap_def)
  have eff: "effects two_producers (mpsc_init queue_of_2) = [Put CHR ''a'', Put CHR ''b'', Take]"
    by (simp add: two_producers_def queue_of_2_def run_eval)
  have "0 < unat (2 :: size_t)" "list_all single_consumer two_producers" by (simp_all add: two_producers_def)
  from mpsc_linearizable [OF queue_of_2 this(1) run this(2) s(1)] obtain a where
    a: "atomic_run 2 [Put CHR ''a'', Put CHR ''b'', Take] \<lparr>at_waiting = [], at_batch = None, at_returned = []\<rparr> = Some a"
      "at_returned a = taken s" "at_waiting a = []" "at_batch a = Some ''ab''"
    unfolding eff s by auto
  have "a = \<lparr>at_waiting = [], at_batch = Some ''ab'', at_returned = taken s\<rparr>" using a(2-4) by (cases a) simp
  with run eff a(1) show ?thesis by blast
qed

end
