(* ===== verification/Queue_Solo.thy ===== *)
theory Queue_Solo
  imports Mpsc
begin

text \<open>
  The two models of the queue agree: a producer or consumer that runs alone, one atomic
  action of theory \<open>Mpsc\<close> after the other, computes what the sequential operations of
  theory \<open>Async_Queue\<close> compute.
\<close>

fun solo_producer :: "nat \<Rightarrow> 'e AsyncQueue \<Rightarrow> 'e producer \<Rightarrow> 'e AsyncQueue \<times> 'e producer" where
  "solo_producer 0 q pc = (q, pc)"
| "solo_producer (Suc n) q pc =
     (case producer_action False q pc of (q', pc', _) \<Rightarrow> solo_producer n q' pc')"

fun solo_consumer :: "nat \<Rightarrow> 'e AsyncQueue \<Rightarrow> 'e consumer \<Rightarrow> 'e AsyncQueue \<times> 'e consumer" where
  "solo_consumer 0 q c = (q, c)"
| "solo_consumer (Suc n) q c =
     (case consumer_action q c of (q', c', _) \<Rightarrow> solo_consumer n q' c')"

definition ring_shape :: "'e AsyncQueue \<Rightarrow> bool" where
  "ring_shape q \<longleftrightarrow> 0 < aq_cap q \<and> length (aq_buffer q) = aq_cap q"

lemma ring_shape_slot: "ring_shape q \<Longrightarrow> slot q t < length (aq_buffer q)"
  by (simp add: ring_shape_def slot_unat)

lemma ring_shape_set_cell [simp]: "ring_shape (set_cell i c q) = ring_shape q"
  by (simp add: ring_shape_def)

lemma set_cell_twice [simp]: "set_cell i c (set_cell i d q) = set_cell i c q"
  by (simp add: set_cell_def)

lemma nth_set_cell [simp]: "i < length (aq_buffer q) \<Longrightarrow> aq_buffer (set_cell i c q) ! i = c"
  by (simp add: set_cell_def)

lemma slot_set_cell [simp]: "slot (set_cell i c q) t = slot q t"
  by (simp add: slot_def)

lemma spinning_forever:
  assumes "cell_seq (aq_buffer q ! slot q t) \<noteq> t"
  shows "solo_producer n q (PWait e t) = (q, PWait e t)"
  using assms by (induction n) auto

text \<open>
  Running \<open>tryPush\<close> alone, one atomic access at a time, is the sequential \<open>tryPush\<close>:
  seven actions end in \<open>true\<close> with the same queue, two in \<open>false\<close> with the queue unchanged,
  and where the sequential model says the call never returns the producer spins forever.
\<close>

lemma solo_push:
  assumes "ring_shape q"
  shows "case tryPush e q of
      Some (True, q') \<Rightarrow> solo_producer 7 q (PCall e) = (q', PDone True)
    | Some (False, q') \<Rightarrow> solo_producer 2 q (PCall e) = (q', PDone False) \<and> q' = q
    | None \<Rightarrow> (\<forall>n. \<exists>q'. solo_producer (3 + n) q (PCall e) = (q', PWait e (aq_tail q)))"
proof -
  let ?t = "aq_tail q" and ?q1 = "q\<lparr>aq_tail := aq_tail q + 1\<rparr>"
  have pos: "slot ?q1 ?t < length (aq_buffer ?q1)"
    using ring_shape_slot [OF assms] by (simp add: slot_def)
  consider (full) "looks_full q ?t (aq_head q)"
    | (stuck) "\<not> looks_full q ?t (aq_head q)" "cell_seq (aq_buffer ?q1 ! slot ?q1 ?t) \<noteq> ?t"
    | (room) "\<not> looks_full q ?t (aq_head q)" "cell_seq (aq_buffer ?q1 ! slot ?q1 ?t) = ?t"
    by blast
  then show ?thesis
  proof cases
    case full
    then show ?thesis by (simp add: tryPush_def numeral_2_eq_2)
  next
    case stuck
    have "solo_producer (3 + n) q (PCall e) = solo_producer n ?q1 (PWait e ?t)" for n
      using stuck(1) by (simp add: numeral_3_eq_3)
    then have "solo_producer (3 + n) q (PCall e) = (?q1, PWait e ?t)" for n
      using spinning_forever [OF stuck(2)] by simp
    with stuck show ?thesis by (simp add: tryPush_def Let_def)
  next
    case room
    have "solo_producer 7 q (PCall e) = solo_producer 3 ?q1 (PEmplace e ?t)"
      using room by (simp add: eval_nat_numeral)
    with room pos show ?thesis
      by (simp add: tryPush_def Let_def numeral_3_eq_3 split del: if_split)
  qed
qed

lemma solo_consumer_add:
  "solo_consumer (m + n) q c = (case solo_consumer m q c of (q', c') \<Rightarrow> solo_consumer n q' c')"
  by (induction m arbitrary: q c) (auto split: prod.splits)

text \<open>The loop of \<open>popAll\<close> from its \<open>i\<close>th ticket.\<close>

lemma solo_drain:
  assumes "ring_shape q" "drain h (Suc n) i res q = Some (r, q')" "unat i + Suc n = unat a"
  shows "solo_consumer (2 * Suc n) q (CSpin h a i res) = (q', CAdvance h a r)"
  using assms
proof (induction n arbitrary: i res q)
  case (0 i res q)
  let ?idx = "slot q (h + i)"
  have pos: "?idx < length (aq_buffer q)" using ring_shape_slot [OF 0(1)] .
  have "unat (i + 1) = unat a" using 0(3) unat_lt_size [of a] by (subst unat_inc_size) auto
  then have "\<not> i + 1 < a" by (simp add: word_less_nat_alt)
  with 0(2) pos show ?case by (auto simp: Let_def numeral_2_eq_2 split: if_splits)
next
  case (Suc n i res q)
  let ?idx = "slot q (h + i)"
  let ?cell = "(aq_buffer q ! ?idx)\<lparr>cell_storage := None, cell_seq := h + i + aq_capacity q\<rparr>"
  let ?res = "case cell_storage (aq_buffer q ! ?idx) of Some e \<Rightarrow> res @ [e] | None \<Rightarrow> res"
  have pos: "?idx < length (aq_buffer q)" using ring_shape_slot [OF Suc.prems(1)] .
  have "unat i + 1 < 18446744073709551616" using Suc.prems(3) unat_lt_size [of a] by linarith
  then have inc: "unat (i + 1) = Suc (unat i)" by (simp add: unat_inc_size)
  then have less: "i + 1 < a" using Suc.prems(3) by (simp add: word_less_nat_alt)
  have seq: "cell_seq (aq_buffer q ! ?idx) = h + i + 1"
    and rest: "drain h (Suc n) (i + 1) ?res (set_cell ?idx ?cell q) = Some (r, q')"
    using Suc.prems(2) by (auto simp del: drain.simps(2) simp: drain.simps(2) [of h "Suc n" i res q] Let_def
        split: if_splits)
  have "solo_consumer (2 * Suc (Suc n)) q (CSpin h a i res) =
      solo_consumer (2 * Suc n) (set_cell ?idx ?cell q) (CSpin h a (i + 1) ?res)"
    using seq pos less by (simp add: Let_def)
  also have "\<dots> = (q', CAdvance h a r)"
    using Suc.IH [OF _ rest] Suc.prems(1,3) inc by simp
  finally show ?case .
qed

text \<open>
  Running \<open>popAll\<close> alone, one atomic access at a time, returns what the sequential
  \<open>popAll\<close> returns and leaves the same queue.
\<close>

lemma solo_pop:
  assumes "ring_shape q" "popAll q = Some (r, q')"
  shows "\<exists>n. solo_consumer n q CIdle = (q', CDone r)"
proof -
  let ?h = "aq_head q"
  define a where "a = (if aq_tail q \<ge> ?h then aq_tail q - ?h else 0)"
  have start: "solo_consumer 2 q CIdle = (q, if a = 0 then CDone [] else CSpin ?h a 0 [])"
    by (simp add: numeral_2_eq_2 Let_def a_def)
  have pop: "popAll q = (if a = 0 then Some ([], q) else case drain ?h (unat a) 0 [] q of None \<Rightarrow> None
      | Some (result, q) \<Rightarrow> Some (result, q\<lparr>aq_head := ?h + a, aq_size := aq_size q - a\<rparr>))"
    unfolding popAll_def Let_def a_def by (rule refl)
  show ?thesis
  proof (cases "a = 0")
    case True
    with assms(2) start have "solo_consumer 2 q CIdle = (q', CDone r)" by (simp add: pop)
    then show ?thesis by blast
  next
    case False
    then have "unat a \<noteq> 0" by (simp add: unat_eq_zero)
    then obtain n where n: "unat a = Suc n" by (cases "unat a") auto
    from False assms(2) obtain q1 where d: "drain ?h (Suc n) 0 [] q = Some (r, q1)"
      and q': "q' = q1\<lparr>aq_head := ?h + a, aq_size := aq_size q1 - a\<rparr>"
      unfolding pop n by (auto split: option.splits)
    have "solo_consumer (2 * Suc n) q (CSpin ?h a 0 []) = (q1, CAdvance ?h a r)"
      using solo_drain [OF assms(1) d, of a] n by simp
    then have "solo_consumer (2 + (2 * Suc n + 2)) q CIdle = (q', CDone r)"
      unfolding solo_consumer_add start using False q' by (simp add: numeral_2_eq_2 del: mult_Suc_right)
    then show ?thesis by blast
  qed
qed

text \<open>And where the sequential \<open>popAll\<close> never returns, the consumer spins forever on one cell.\<close>

lemma consumer_spins:
  assumes "cell_seq (aq_buffer q ! slot q (h + i)) \<noteq> h + i + 1"
  shows "solo_consumer n q (CSpin h a i res) = (q, CSpin h a i res)"
  using assms by (induction n) (simp_all add: Let_def)

lemma solo_drain_stuck:
  assumes "ring_shape q" "drain h (Suc n) i res q = None" "unat i + Suc n = unat a"
  shows "\<exists>m q' i' res'. solo_consumer m q (CSpin h a i res) = (q', CSpin h a i' res') \<and>
     cell_seq (aq_buffer q' ! slot q' (h + i')) \<noteq> h + i' + 1"
  using assms
proof (induction n arbitrary: i res q)
  case (0 i res q)
  then have "cell_seq (aq_buffer q ! slot q (h + i)) \<noteq> h + i + 1" by (auto simp: Let_def split: if_splits)
  then show ?case by (intro exI [of _ 0] exI [of _ q] exI [of _ i] exI [of _ res]) simp
next
  case (Suc n i res q)
  let ?idx = "slot q (h + i)"
  let ?cell = "(aq_buffer q ! ?idx)\<lparr>cell_storage := None, cell_seq := h + i + aq_capacity q\<rparr>"
  let ?res = "case cell_storage (aq_buffer q ! ?idx) of Some e \<Rightarrow> res @ [e] | None \<Rightarrow> res"
  show ?case
  proof (cases "cell_seq (aq_buffer q ! ?idx) = h + i + 1")
    case False
    then show ?thesis by (intro exI [of _ 0] exI [of _ q] exI [of _ i] exI [of _ res]) simp
  next
    case seq: True
    have pos: "?idx < length (aq_buffer q)" using ring_shape_slot [OF Suc.prems(1)] .
    have "unat i + 1 < 18446744073709551616" using Suc.prems(3) unat_lt_size [of a] by linarith
    then have inc: "unat (i + 1) = Suc (unat i)" by (simp add: unat_inc_size)
    then have less: "i + 1 < a" using Suc.prems(3) by (simp add: word_less_nat_alt)
    have rest: "drain h (Suc n) (i + 1) ?res (set_cell ?idx ?cell q) = None"
      using Suc.prems(2) seq by (simp del: drain.simps(2) add: drain.simps(2) [of h "Suc n" i res q] Let_def)
    have two: "solo_consumer 2 q (CSpin h a i res) = (set_cell ?idx ?cell q, CSpin h a (i + 1) ?res)"
      using seq pos less by (simp add: Let_def numeral_2_eq_2)
    from Suc.IH [OF _ rest] Suc.prems(1,3) inc obtain m q' i' res' where
      "solo_consumer m (set_cell ?idx ?cell q) (CSpin h a (i + 1) ?res) = (q', CSpin h a i' res')"
      "cell_seq (aq_buffer q' ! slot q' (h + i')) \<noteq> h + i' + 1" by auto
    then show ?thesis
      by (intro exI [of _ "2 + m"] exI [of _ q'] exI [of _ i'] exI [of _ res']) (simp only: solo_consumer_add two prod.case simp_thms)
  qed
qed

lemma solo_pop_stuck:
  assumes "ring_shape q" "popAll q = None"
  shows "\<exists>m q' h a i res. \<forall>k. solo_consumer (m + k) q CIdle = (q', CSpin h a i res)"
proof -
  let ?h = "aq_head q"
  define a where "a = (if aq_tail q \<ge> ?h then aq_tail q - ?h else 0)"
  have some: "a \<noteq> 0" and d: "drain ?h (unat a) 0 [] q = None"
    using assms(2) by (auto simp: popAll_def Let_def a_def split: if_splits option.splits)
  from some obtain n where n: "unat a = Suc n" by (cases "unat a") (simp_all add: unat_eq_zero)
  have start: "solo_consumer 2 q CIdle = (q, CSpin ?h a 0 [])"
    using some by (simp add: numeral_2_eq_2 Let_def a_def)
  from solo_drain_stuck [OF assms(1) d [unfolded n], of a] n obtain m q' i res where
    "solo_consumer m q (CSpin ?h a 0 []) = (q', CSpin ?h a i res)"
    "cell_seq (aq_buffer q' ! slot q' (?h + i)) \<noteq> ?h + i + 1" by auto
  then have "solo_consumer (2 + m + k) q CIdle = (q', CSpin ?h a i res)" for k
    by (simp only: solo_consumer_add start prod.case consumer_spins not_False_eq_True)
  then show ?thesis by blast
qed

text \<open>
  C21: the atomic actions of a thread that runs alone are the sequential operations: seven actions of
  \<open>tryPush\<close> end in \<open>true\<close> with the same queue, two in \<open>false\<close> with the queue unchanged; the actions of
  \<open>popAll\<close> return the same entries and leave the same queue; and exactly where the sequential operation
  never returns, the thread spins forever.
\<close>

theorem queue_actions_alone:
  assumes "ring_shape q"
  shows "(case tryPush e q of
      Some (True, q') \<Rightarrow> solo_producer 7 q (PCall e) = (q', PDone True)
    | Some (False, q') \<Rightarrow> solo_producer 2 q (PCall e) = (q', PDone False) \<and> q' = q
    | None \<Rightarrow> (\<forall>n. \<exists>q'. solo_producer (3 + n) q (PCall e) = (q', PWait e (aq_tail q)))) \<and>
    (case popAll q of
      Some (r, q') \<Rightarrow> (\<exists>n. solo_consumer n q CIdle = (q', CDone r))
    | None \<Rightarrow> (\<exists>m q' h a i res. \<forall>k. solo_consumer (m + k) q CIdle = (q', CSpin h a i res)))"
proof (rule conjI)
  show "case popAll q of Some (r, q') \<Rightarrow> (\<exists>n. solo_consumer n q CIdle = (q', CDone r))
      | None \<Rightarrow> (\<exists>m q' h a i res. \<forall>k. solo_consumer (m + k) q CIdle = (q', CSpin h a i res))"
    using solo_pop [OF assms] solo_pop_stuck [OF assms] by (auto split: option.split)
qed (rule solo_push [OF assms])

theorem queue_actions_alone_witness:
  "(\<exists>q'. tryPush CHR ''a'' queue_of_2 = Some (True, q') \<and>
      solo_producer 7 queue_of_2 (PCall CHR ''a'') = (q', PDone True)) \<and>
   (\<exists>n q'. popAll sample_queue = Some ([7], q') \<and> solo_consumer n sample_queue CIdle = (q', CDone [7]))"
proof
  have shape: "ring_shape queue_of_2" by (simp add: ring_shape_def queue_of_2_def aq_cap_def)
  have "\<exists>q'. tryPush CHR ''a'' queue_of_2 = Some (True, q')"
    by (simp add: tryPush_def queue_of_2_def looks_full_def slot_def word_le_nat_alt)
  with conjunct1 [OF queue_actions_alone [OF shape, of "CHR ''a''"]]
  show "\<exists>q'. tryPush CHR ''a'' queue_of_2 = Some (True, q') \<and>
      solo_producer 7 queue_of_2 (PCall CHR ''a'') = (q', PDone True)" by auto
next
  have shape: "ring_shape sample_queue" by (simp add: ring_shape_def sample_queue_def aq_cap_def)
  obtain q' where "popAll sample_queue = Some ([7], q')"
    using aq.pop_all_drains [OF sample_queue_inv]
    by (auto simp: aq_contents_def entries_def sample_queue_def aq_cap_def entry_at_def)
  with conjunct2 [OF queue_actions_alone [OF shape, of 0]]
  show "\<exists>n q'. popAll sample_queue = Some ([7], q') \<and> solo_consumer n sample_queue CIdle = (q', CDone [7])" by auto
qed

end
