(* ===== verification/Queue_Faults.thy ===== *)
theory Queue_Faults
  imports Mpsc
begin

text \<open>
  Behaviours of the queue that its documentation does not mention, as reachable states of
  theory \<open>Mpsc\<close>: a push answers \<open>full\<close> on an empty queue, \<open>size\<close> wraps below zero, and a
  second consumer (\<open>AsyncLogger::flush\<close> runs on the writer thread and on a logging thread)
  waits forever.
\<close>

section \<open>One consumer\<close>

lemma unat_minus_1_size: "unat (- 1 :: size_t) = 18446744073709551615"
  by (simp add: unsigned_minus_1_eq_mask mask_eq_exp_minus_1)

lemma replicate_eval:
  "replicate 5 x = [x, x, x, x, x]" "replicate 6 x = [x, x, x, x, x, x]"
  "replicate 7 x = [x, x, x, x, x, x, x]" "replicate 8 x = [x, x, x, x, x, x, x, x]"
  by (simp_all add: eval_nat_numeral)

text \<open>
  Producer 0 loads \<open>tail_\<close>, producer 1 pushes, the consumer drains the queue, and producer 0
  loads a \<open>head_\<close> that is ahead of its stale tail.
\<close>

definition stale_tail :: "char event list" where
  "stale_tail = [Call 0 CHR ''a'', Prod 0 False, Call 1 CHR ''b''] @ replicate 8 (Prod 1 False) @
     replicate 7 (Cons 0) @ [Prod 0 False]"

text \<open>
  \<open>tryPush\<close> may answer \<open>false\<close> although the queue is empty: in a reachable state of a
  queue with room for two entries, every cell is free, head and tail agree, nobody else is in
  the middle of an operation, and a producer that never reserved a ticket is about to return
  \<open>false\<close>.
\<close>

theorem spurious_full:
  "\<exists>s. mpsc_step\<^sup>*\<^sup>* (mpsc_init queue_of_2) s \<and> prods s 0 = PDone False \<and>
     (\<forall>p. p \<noteq> 0 \<longrightarrow> prods s p = PIdle) \<and> conss s 0 = CIdle \<and>
     aq_size (mq s) = 0 \<and> aq_contents (mq s) = [] \<and> hist s = ''b'' \<and> taken s = ''b''"
proof -
  obtain s where run: "run_schedule stale_tail (mpsc_init queue_of_2) = Some s"
    and s: "prods s 0 = PDone False" "\<forall>p. p \<noteq> 0 \<longrightarrow> prods s p = PIdle" "conss s 0 = CIdle"
      "aq_size (mq s) = 0" "aq_contents (mq s) = []" "hist s = ''b''" "taken s = ''b''"
    by (simp add: stale_tail_def queue_of_2_def run_eval replicate_eval unat_minus_1_size aq_contents_def entries_def)
  from run have "mpsc_step\<^sup>*\<^sup>* (mpsc_init queue_of_2) s"
    by (rule run_schedule_mpsc) (simp add: stale_tail_def replicate_eval)
  with s show ?thesis by blast
qed

theorem spurious_full_witness:
  "\<exists>s. mpsc_step\<^sup>*\<^sup>* (mpsc_init queue_of_2) s \<and> prods s 0 = PDone False \<and> aq_contents (mq s) = []"
  using spurious_full by blast

definition count_late :: "char event list" where
  "count_late = [Call 0 CHR ''a''] @ replicate 6 (Prod 0 False) @ replicate 6 (Cons 0)"

text \<open>
  \<open>size()\<close> is not bounded by the capacity while operations overlap: the consumer may
  subtract an entry before its producer has counted it, and then the size of the empty queue
  is \<open>2\<^sup>6\<^sup>4 - 1\<close> and \<open>isEmpty()\<close> is false.
\<close>

theorem size_underflow:
  "\<exists>s. mpsc_step\<^sup>*\<^sup>* (mpsc_init queue_of_2) s \<and> unat (aq_size (mq s)) = 2 ^ 64 - 1 \<and>
     \<not> aq_isEmpty (mq s) \<and> aq_contents (mq s) = [] \<and> in_hand (conss s 0) = ''a''"
proof -
  obtain s where run: "run_schedule count_late (mpsc_init queue_of_2) = Some s"
    and s: "unat (aq_size (mq s)) = 2 ^ 64 - 1" "\<not> aq_isEmpty (mq s)" "aq_contents (mq s) = []"
      "in_hand (conss s 0) = ''a''"
    by (simp add: count_late_def queue_of_2_def run_eval replicate_eval unat_minus_1_size aq_contents_def entries_def
        aq_isEmpty_def)
  from run have "mpsc_step\<^sup>*\<^sup>* (mpsc_init queue_of_2) s"
    by (rule run_schedule_mpsc) (simp add: count_late_def replicate_eval)
  with s show ?thesis by blast
qed

section \<open>Two consumers\<close>

text \<open>Each slot holds the sequence number of the ticket it serves now, or the next one.\<close>

lemma cell_seq_range:
  assumes ok: "mpsc_ok q P c hs tk" and u: "freed q c \<le> u" "u < freed q c + aq_cap q"
    and wrap: "length hs + 2 * aq_cap q < 2 ^ 64"
  shows "cell_seq (cell_at q u) = of_nat u \<or> cell_seq (cell_at q u) = of_nat (Suc u)"
proof -
  note r = ring_okD [OF mpsc_okD(1) [OF ok]]
  consider (free) "length hs \<le> u" | (taken) "u < length hs" "u < emptied q c"
    | (live) "u < length hs" "emptied q c \<le> u" by linarith
  then show ?thesis
  proof cases
    case free
    then show ?thesis using r(8) u(2) by simp
  next
    case taken
    then obtain h a i res where "c = CFree h a i res" using u(1) by (cases c) auto
    with taken u(1) mpsc_okD(2) [OF ok] show ?thesis by (auto simp: less_Suc_eq)
  next
    case live
    show ?thesis
    proof (cases "\<exists>p. ticket_of (P p) = Some (of_nat u)")
      case True
      then obtain p where p: "ticket_of (P p) = Some (of_nat u)" by blast
      have "unat (of_nat u :: size_t) = u" using live wrap by (simp add: unat_of_nat_size)
      with p mpsc_okD(4) [OF ok, of p] show ?thesis by (cases "P p") auto
    next
      case False
      with live mpsc_okD(6) [OF ok] show ?thesis by (auto simp: published_ok_def)
    qed
  qed
qed

text \<open>What stays true once consumer 0 has passed ticket 0 while consumer 1 waits for it.\<close>

definition stuck_inv :: "'e mpsc \<Rightarrow> bool" where
  "stuck_inv s \<longleftrightarrow> mpsc_inv s \<and> aq_cap (mq s) = 2 \<and> conss s 1 = CSpin 0 1 0 [] \<and>
     (no_wrap s \<longrightarrow> 1 \<le> unat (aq_head (mq s)))"

lemma consumer_action_head:
  assumes "consumer_action q c = (q', c', out)" "consumer_ok q T c" "T < 2 ^ 64"
  shows "unat (aq_head q) \<le> unat (aq_head q')"
proof (cases c)
  case (CAdvance h a res)
  with assms(2,3) have "unat h + unat a < 2 ^ 64" by auto
  then have "unat (h + a) = unat h + unat a" by (rule unat_add_tickets)
  with assms CAdvance show ?thesis by auto
qed (use assms in \<open>auto simp: Let_def split: if_splits\<close>)

lemma stuck_inv_step: "mpsc_step s t \<Longrightarrow> stuck_inv s \<Longrightarrow> stuck_inv t"
proof -
  assume step: "mpsc_step s t" and inv: "stuck_inv s"
  have keep: "mpsc_inv t" "aq_cap (mq t) = 2"
    using mpsc_inv_step [OF step] mpsc_step_cap [OF step] inv by (auto simp: stuck_inv_def)
  have one: "conss t 1 = CSpin 0 1 0 []"
    using step inv by (induction rule: mpsc_step.induct) (auto simp: stuck_inv_def split: prod.splits)
  have "1 \<le> unat (aq_head (mq t))" if "no_wrap t"
    using step inv that
  proof (induction rule: mpsc_step.induct)
    case (call s p e)
    then show ?case by (simp add: stuck_inv_def no_wrap_def)
  next
    case (prod s p w)
    obtain q pc new where act: "producer_action w (mq s) (prods s p) = (q, pc, new)"
      by (cases "producer_action w (mq s) (prods s p)") auto
    from prod show ?case
      using producer_action_head [OF act] producer_action_cap [OF act]
      by (auto simp: act stuck_inv_def no_wrap_def)
  next
    case (cons s)
    obtain q c out where act: "consumer_action (mq s) (conss s 0) = (q, c, out)"
      by (cases "consumer_action (mq s) (conss s 0)") auto
    with cons have nw: "no_wrap s" using consumer_action_cap [OF act] by (simp add: no_wrap_def)
    with cons have "consumer_ok (mq s) (length (hist s)) (conss s 0)" "1 \<le> unat (aq_head (mq s))"
      by (auto simp: stuck_inv_def mpsc_inv_def dest: mpsc_okD(2))
    with consumer_action_head [OF act] nw show ?case by (force simp: act no_wrap_def)
  qed
  with keep one show "stuck_inv t" by (simp add: stuck_inv_def)
qed

interpretation stuck: step_invariant mpsc_step stuck_inv
  by unfold_locales (rule stuck_inv_step)

lemma stuck_inv_waits:
  assumes inv: "stuck_inv s" and nw: "no_wrap s"
  shows "consumer_action (mq s) (conss s 1) = (mq s, conss s 1, [])"
proof -
  have ok: "mpsc_ok (mq s) (prods s) (conss s 0) (hist s) (taken s)" and cap: "aq_cap (mq s) = 2"
    and one: "conss s 1 = CSpin 0 1 0 []" and head: "1 \<le> unat (aq_head (mq s))"
    using inv nw by (auto simp: stuck_inv_def mpsc_inv_def)
  note r = ring_okD [OF mpsc_okD(1) [OF ok]]
  obtain u where u: "freed (mq s) (conss s 0) \<le> u" "u < freed (mq s) (conss s 0) + 2" "0 = u mod 2"
    using ex_residue_in_window [of 0 2 "freed (mq s) (conss s 0)"] by auto
  have "u \<noteq> 1" "1 \<le> u" using u(1,3) r(4) head by auto
  then have "2 \<le> u" by simp
  have "u + 2 < 2 ^ 64" using u(2) r(5) nw cap by (simp add: no_wrap_def)
  then have "(of_nat u :: size_t) \<noteq> of_nat 1" "(of_nat (Suc u) :: size_t) \<noteq> of_nat 1"
    using \<open>2 \<le> u\<close> by (subst of_nat_eq_size; simp)+
  moreover have "cell_seq (cell_at (mq s) u) = of_nat u \<or> cell_seq (cell_at (mq s) u) = of_nat (Suc u)"
    using cell_seq_range [OF ok u(1)] u(2) nw cap by (simp add: no_wrap_def)
  ultimately have "cell_seq (cell_at (mq s) u) \<noteq> 1" by auto
  moreover have "cell_at (mq s) u = aq_buffer (mq s) ! slot (mq s) (0 + 0)"
    using u(3) by (simp add: cell_at_def slot_unat cap)
  ultimately show ?thesis by (simp add: one [simplified] Let_def)
qed

definition two_consumers :: "char event list" where
  "two_consumers = [Call 0 CHR ''a''] @ replicate 8 (Prod 0 False) @
     [Cons 0, Cons 1, Cons 0, Cons 1] @ replicate 5 (Cons 0)"

text \<open>
  C35: \<open>popAll\<close> must not be called by two threads: there is a reachable state of two
  overlapping calls, with the queue empty and no push in progress, from which the second call
  never returns: whatever the producers and the first consumer do from then on (short of the
  tickets wrapping), its next action is to spin again.
\<close>

theorem second_consumer_never_returns:
  "\<exists>s. queue_step\<^sup>*\<^sup>* (mpsc_init queue_of_2) s \<and> aq_contents (mq s) = [] \<and>
     (\<forall>p. prods s p = PIdle) \<and> conss s 0 = CIdle \<and> conss s 1 \<noteq> CIdle \<and> no_wrap s \<and>
     (\<forall>t. mpsc_step\<^sup>*\<^sup>* s t \<longrightarrow> no_wrap t \<longrightarrow>
        consumer_action (mq t) (conss t 1) = (mq t, conss t 1, []))"
proof -
  obtain s where run: "run_schedule two_consumers (mpsc_init queue_of_2) = Some s"
    and s: "aq_contents (mq s) = []" "\<forall>p. prods s p = PIdle" "conss s 0 = CIdle" "conss s 1 = CSpin 0 1 0 []"
    and q: "mq s = \<lparr>aq_buffer = [\<lparr>cell_seq = 2, cell_storage = None\<rparr>, \<lparr>cell_seq = 1, cell_storage = None\<rparr>],
      aq_capacity = 2, aq_tail = 1, aq_head = 1, aq_size = 0\<rparr>"
    and h: "hist s = ''a''" "taken s = ''a''"
    by (simp add: two_consumers_def queue_of_2_def run_eval replicate_eval unat_minus_1_size aq_contents_def entries_def)
  have cap: "aq_cap (mq s) = 2" and head: "unat (aq_head (mq s)) = 1" by (simp_all add: q aq_cap_def)
  have two: "(Suc 0 \<le> u \<and> u < 3) = (u = 1 \<or> u = (2 :: nat))" for u by auto
  have "\<forall>u. Suc 0 \<le> u \<and> u < 3 \<longrightarrow> cell_at (mq s) u = \<lparr>cell_seq = of_nat u, cell_storage = None\<rparr>"
    unfolding two by (auto simp: cell_at_def cap) (simp_all add: q)
  then have "ring_ok (mq s) 1 1" by (simp add: ring_ok_def cap head numeral_3_eq_3) (simp add: q)
  note ok = this h
  have "mpsc_ok (mq s) (prods s) (conss s 0) (hist s) (taken s)"
    using s ok head by (auto simp: mpsc_ok_def tickets_ok_def published_ok_def)
  then have "stuck_inv s" using s cap head by (simp add: stuck_inv_def mpsc_inv_def)
  then have "\<forall>t. mpsc_step\<^sup>*\<^sup>* s t \<longrightarrow> no_wrap t \<longrightarrow>
      consumer_action (mq t) (conss t 1) = (mq t, conss t 1, [])"
    using stuck.inv_run stuck_inv_waits by blast
  moreover have "no_wrap s" using h cap by (simp add: no_wrap_def)
  ultimately show ?thesis using run_schedule_reach [OF run] s(1-3) s(4) by fastforce
qed

theorem second_consumer_never_returns_witness:
  "\<exists>s. queue_step\<^sup>*\<^sup>* (mpsc_init queue_of_2) s \<and> conss s 1 \<noteq> CIdle \<and>
     consumer_action (mq s) (conss s 1) = (mq s, conss s 1, [])"
  using second_consumer_never_returns by blast

end
