(* ===== verification/Ring_Buffer.thy ===== *)
theory Ring_Buffer
  imports Fifo Log_Entry
begin

text \<open>
  \<open>log_buffer.h\<close> and \<open>log_buffer.cpp\<close>: the pre-allocated ring buffer the logger falls back
  to, called by one thread at a time. Theory \<open>Ring_Race\<close> interleaves its operations.
\<close>

section \<open>State and operations\<close>

record 'e RingBuffer =
  rb_buffer :: "'e list"
  rb_head :: size_t
  rb_tail :: size_t
  rb_size :: size_t
  rb_capacity :: size_t

text \<open>The buffer is filled with value-initialised elements.\<close>

definition RingBuffer_ctor :: "'e \<Rightarrow> size_t \<Rightarrow> 'e RingBuffer" where
  "RingBuffer_ctor value_init capacity =
     \<lparr>rb_buffer = replicate (unat capacity) value_init, rb_head = 0, rb_tail = 0, rb_size = 0,
      rb_capacity = capacity\<rparr>"

definition LogRing_ctor :: "size_t \<Rightarrow> LogEntry RingBuffer" where
  "LogRing_ctor = RingBuffer_ctor LogEntry_default"

definition rb_tryPush :: "'e \<Rightarrow> 'e RingBuffer \<Rightarrow> bool \<times> 'e RingBuffer" where
  "rb_tryPush entry b =
     (let current_size = rb_size b
      in if current_size \<ge> rb_capacity b then (False, b)
         else let old_size = rb_size b; b = b\<lparr>rb_size := rb_size b + 1\<rparr>
              in if old_size \<ge> rb_capacity b then (False, b\<lparr>rb_size := rb_size b - 1\<rparr>)
                 else let current_head = rb_head b; b = b\<lparr>rb_head := rb_head b + 1\<rparr>;
                          index = unat (current_head mod rb_capacity b)
                      in (True, b\<lparr>rb_buffer := (rb_buffer b)[index := entry]\<rparr>))"

text \<open>The copying loop of \<open>popAll\<close>; moving an entry out leaves the slot as it was.\<close>

fun rb_collect :: "'e RingBuffer \<Rightarrow> size_t \<Rightarrow> nat \<Rightarrow> size_t \<Rightarrow> 'e list" where
  "rb_collect b current_tail 0 i = []"
| "rb_collect b current_tail (Suc n) i =
     rb_buffer b ! unat ((current_tail + i) mod rb_capacity b) # rb_collect b current_tail n (i + 1)"

definition rb_popAll :: "'e RingBuffer \<Rightarrow> 'e list \<times> 'e RingBuffer" where
  "rb_popAll b =
     (let old_size = rb_size b; b = b\<lparr>rb_size := 0\<rparr>
      in if old_size = 0 then ([], b)
         else let current_tail = rb_tail b;
                  new_tail = (current_tail + old_size) mod rb_capacity b;
                  entries = rb_collect b current_tail (unat old_size) 0
              in (entries, b\<lparr>rb_tail := new_tail\<rparr>))"

definition rb_isEmpty :: "'e RingBuffer \<Rightarrow> bool" where
  "rb_isEmpty b \<longleftrightarrow> rb_size b = 0"

definition RingBuffer_size :: "'e RingBuffer \<Rightarrow> size_t" where
  "RingBuffer_size b = rb_size b"

definition RingBuffer_capacity :: "'e RingBuffer \<Rightarrow> size_t" where
  "RingBuffer_capacity b = rb_capacity b"

section \<open>Invariant and contents\<close>

definition rb_cap :: "'e RingBuffer \<Rightarrow> nat" where
  "rb_cap b = unat (rb_capacity b)"

definition rb_contents :: "'e RingBuffer \<Rightarrow> 'e list" where
  "rb_contents b = map (\<lambda>i. rb_buffer b ! ((unat (rb_tail b) + i) mod rb_cap b)) [0..<unat (rb_size b)]"

text \<open>
  The write index is monotonic and reduced on use, the read index is stored reduced: they
  agree modulo the capacity.
\<close>

definition rb_inv :: "'e RingBuffer \<Rightarrow> bool" where
  "rb_inv b \<longleftrightarrow> length (rb_buffer b) = rb_cap b \<and> 0 < rb_cap b \<and> 2 * rb_cap b < 2 ^ 64 \<and>
     unat (rb_size b) \<le> rb_cap b \<and> unat (rb_tail b) < rb_cap b \<and>
     unat (rb_head b) mod rb_cap b = (unat (rb_tail b) + unat (rb_size b)) mod rb_cap b"

definition rb_budget :: "'e RingBuffer \<Rightarrow> nat" where
  "rb_budget b = 2 ^ 64 - 1 - unat (rb_head b)"

lemma rb_invD:
  assumes "rb_inv b"
  shows "length (rb_buffer b) = rb_cap b" "0 < rb_cap b" "2 * rb_cap b < 2 ^ 64"
    "unat (rb_size b) \<le> rb_cap b" "unat (rb_tail b) < rb_cap b"
    "unat (rb_head b) mod rb_cap b = (unat (rb_tail b) + unat (rb_size b)) mod rb_cap b"
  using assms by (auto simp: rb_inv_def)

lemma rb_ctor_ok:
  assumes "0 < unat capacity" "unat capacity < 2 ^ 63"
  shows "rb_inv (RingBuffer_ctor d capacity)" "rb_contents (RingBuffer_ctor d capacity) = []"
    "rb_cap (RingBuffer_ctor d capacity) = unat capacity"
    "rb_budget (RingBuffer_ctor d capacity) = 2 ^ 64 - 1"
  using assms by (simp_all add: RingBuffer_ctor_def rb_inv_def rb_contents_def rb_cap_def rb_budget_def)

lemma length_rb_contents [simp]: "length (rb_contents b) = unat (rb_size b)"
  by (simp add: rb_contents_def)

text \<open>Called by one thread, the accessors tell the truth.\<close>

lemma rb_accessors_exact:
  "unat (RingBuffer_size b) = length (rb_contents b)" "unat (RingBuffer_capacity b) = rb_cap b"
  "rb_isEmpty b \<longleftrightarrow> rb_contents b = []"
  by (simp_all add: RingBuffer_size_def RingBuffer_capacity_def rb_isEmpty_def rb_cap_def
      length_0_conv [symmetric] unat_eq_zero del: length_0_conv)

lemma rb_full_iff: "rb_size b \<ge> rb_capacity b \<longleftrightarrow> \<not> length (rb_contents b) < rb_cap b"
  by (auto simp: word_le_nat_alt rb_cap_def)

lemma rb_push_full: "\<not> length (rb_contents b) < rb_cap b \<Longrightarrow> rb_tryPush e b = (False, b)"
  using rb_full_iff [of b] by (simp add: rb_tryPush_def)

lemma mod_Suc_cong: "a mod c = b mod c \<Longrightarrow> Suc a mod c = Suc b mod (c :: nat)"
  by (rule mod_Suc_eq [THEN subst]) (simp add: mod_Suc_eq)

lemma rb_push_room:
  assumes inv: "rb_inv b" and budget: "0 < rb_budget b" and room: "length (rb_contents b) < rb_cap b"
  shows "\<exists>b'. rb_tryPush e b = (True, b') \<and> rb_inv b' \<and> rb_contents b' = rb_contents b @ [e] \<and>
     rb_cap b' = rb_cap b \<and> rb_budget b \<le> Suc (rb_budget b')"
proof -
  let ?c = "rb_cap b" and ?t = "unat (rb_tail b)" and ?n = "unat (rb_size b)"
  note I = rb_invD [OF inv]
  let ?i = "unat (rb_head b) mod ?c"
  let ?b' = "b\<lparr>rb_size := rb_size b + 1, rb_head := rb_head b + 1, rb_buffer := (rb_buffer b)[?i := e]\<rparr>"
  have n: "?n < ?c" using room by simp
  have sz: "unat (rb_size b + 1) = Suc ?n" using n I(3) by (simp add: unat_inc_size)
  have hd: "unat (rb_head b + 1) = Suc (unat (rb_head b))" using budget by (simp add: rb_budget_def unat_inc_size)
  have cap: "rb_cap ?b' = ?c" by (simp add: rb_cap_def)
  have "rb_tryPush e b = (True, ?b')"
    using room rb_full_iff [of b] by (simp add: rb_tryPush_def Let_def rb_cap_def unat_mod_size)
  moreover have "Suc (unat (rb_head b)) mod ?c = Suc (?t + ?n) mod ?c"
    by (rule mod_Suc_cong) (rule I(6))
  then have "rb_inv ?b'"
    using I(1-5) n by (simp add: rb_inv_def cap sz hd)
  moreover have "rb_contents ?b' = rb_contents b @ [e]"
  proof -
    have upd: "(rb_buffer b)[(?t + ?n) mod ?c := e] ! ((?t + j) mod ?c) =
        (if j = ?n then e else rb_buffer b ! ((?t + j) mod ?c))" if "j \<le> ?n" for j
      using nth_update_window [OF I(1), of ?t "?t + ?n" "?t + j" e] that n by simp
    show ?thesis
      unfolding rb_contents_def cap by (simp add: sz I(6) upd)
  qed
  moreover have "rb_budget b \<le> Suc (rb_budget ?b')" by (simp add: rb_budget_def hd)
  ultimately show ?thesis using cap by blast
qed

lemma rb_collect_eq:
  assumes "t + i + n < 2 ^ 64"
  shows "rb_collect b (of_nat t) n (of_nat i) = map (\<lambda>j. rb_buffer b ! ((t + j) mod rb_cap b)) [i..<i + n]"
  using assms
proof (induction n arbitrary: i)
  case 0
  then show ?case by simp
next
  case (Suc n)
  have "unat ((of_nat t + of_nat i) mod rb_capacity b) = (t + i) mod rb_cap b"
    using Suc.prems unat_of_nat_size [of "t + i"] by (simp add: unat_mod_size rb_cap_def)
  moreover have "rb_collect b (of_nat t) n (of_nat i + 1) =
      map (\<lambda>j. rb_buffer b ! ((t + j) mod rb_cap b)) [Suc i..<Suc i + n]"
    using Suc.IH [of "Suc i"] Suc.prems by (simp add: add.commute)
  ultimately show ?case by (simp add: upt_conv_Cons del: upt_Suc)
qed

lemma rb_pop_drains:
  assumes inv: "rb_inv b"
  shows "\<exists>b'. rb_popAll b = (rb_contents b, b') \<and> rb_inv b' \<and> rb_contents b' = [] \<and>
     rb_cap b' = rb_cap b \<and> rb_budget b' = rb_budget b"
proof -
  let ?c = "rb_cap b" and ?t = "unat (rb_tail b)" and ?n = "unat (rb_size b)"
  note I = rb_invD [OF inv]
  have sum: "unat (rb_tail b + rb_size b) = ?t + ?n" using I(3-5) by (intro unat_add_size) simp
  let ?b' = "b\<lparr>rb_size := 0, rb_tail := (if rb_size b = 0 then rb_tail b
      else (rb_tail b + rb_size b) mod rb_capacity b)\<rparr>"
  have cap: "rb_cap ?b' = ?c" by (simp add: rb_cap_def)
  have "rb_collect (b\<lparr>rb_size := 0\<rparr>) (of_nat ?t) ?n (of_nat 0) = rb_contents b"
    using rb_collect_eq [of ?t 0 ?n "b\<lparr>rb_size := 0\<rparr>"] I(3-5)
    by (simp add: rb_contents_def rb_cap_def)
  then have "rb_popAll b = (rb_contents b, ?b')"
    by (auto simp: rb_popAll_def Let_def rb_contents_def)
  moreover have "rb_inv ?b'"
    using I by (simp add: rb_inv_def cap unat_mod_size sum rb_cap_def [symmetric])
  ultimately show ?thesis using cap by (simp add: rb_contents_def rb_budget_def)
qed

interpretation rb: bounded_fifo "\<lambda>e b. Some (rb_tryPush e b)" "\<lambda>b. Some (rb_popAll b)"
  rb_contents rb_cap rb_inv rb_budget
  by unfold_locales
    (use rb_push_room rb_push_full rb_pop_drains rb_invD(4) in \<open>auto simp: not_less\<close>)

text \<open>A buffer of capacity 0 takes nothing and never divides by its capacity.\<close>

lemma rb_capacity_0:
  "rb_capacity b = 0 \<Longrightarrow> rb_size b = 0 \<Longrightarrow>
     rb_tryPush e b = (False, b) \<and> rb_popAll b = ([], b)"
  by (simp add: rb_tryPush_def rb_popAll_def)

text \<open>
  C19: the fallback buffer is a bounded first-in first-out store that drops the newest: of any
  sequence of pushes into a fresh buffer exactly the first \<open>capacity\<close> are accepted, and
  draining returns them, each once and in order, after which the buffer is empty and usable,
  although its two indices are kept in different forms.
\<close>

theorem ring_buffer_fifo:
  assumes "0 < unat capacity" "unat capacity < 2 ^ 63" "length es < 2 ^ 64"
  shows "\<exists>b' b''. push_list (\<lambda>e b. Some (rb_tryPush e b)) es (RingBuffer_ctor d capacity) =
       Some (map (\<lambda>i. i < unat capacity) [0..<length es], b') \<and>
     rb_popAll b' = (take (unat capacity) es, b'') \<and> rb_contents b'' = [] \<and> rb_inv b''"
proof -
  note c = rb_ctor_ok [OF assms(1,2), of d]
  have "length es \<le> rb_budget (RingBuffer_ctor d capacity)" using assms(3) c(4) by simp
  from rb.push_list_fifo [OF c(1) this] obtain b' where
    "push_list (\<lambda>e b. Some (rb_tryPush e b)) es (RingBuffer_ctor d capacity) =
       Some (map (\<lambda>i. i < unat capacity) [0..<length es], b')" "rb_inv b'"
    "rb_contents b' = take (unat capacity) es"
    using c(2,3) by auto
  with rb_pop_drains [of b'] show ?thesis by fastforce
qed

theorem ring_buffer_fifo_witness:
  "\<exists>b' b''. push_list (\<lambda>e b. Some (rb_tryPush e b)) ''abc'' (RingBuffer_ctor CHR ''-'' 2) =
       Some ([True, True, False], b') \<and> rb_popAll b' = (''ab'', b'') \<and> rb_contents b'' = [] \<and> rb_inv b''"
proof -
  have eval: "map (\<lambda>i. i < unat (2 :: size_t)) [0..<length ''abc''] = [True, True, False]"
    "take (unat (2 :: size_t)) ''abc'' = ''ab''"
    by (simp_all add: upt_rec)
  have "0 < unat (2 :: size_t)" "unat (2 :: size_t) < 2 ^ 63" "length ''abc'' < 2 ^ 64" by simp_all
  from ring_buffer_fifo [OF this, of "CHR ''-''"] show ?thesis unfolding eval .
qed

end
