(* ===== verification/Ring_Race.thy ===== *)
theory Ring_Race
  imports Ring_Buffer
begin

text \<open>
  \<open>log_buffer.cpp\<close> under concurrency: \<open>tryPush\<close> and \<open>popAll\<close> of the fallback buffer broken into
  their accesses to shared memory, interleaved in any order (sequentially consistent, one access
  to an entry is one action). A thread running alone computes the operations of theory
  \<open>Ring_Buffer\<close>; interleaved, the buffer loses entries, returns entries nobody stored and can
  get stuck, because \<open>size_\<close> is counted up before the slot is written.
\<close>

section \<open>Program counters and actions\<close>

datatype 'e ring_producer =
    RIdle
  | RCall 'e               \<comment> \<open>about to load \<open>size_\<close>\<close>
  | RCount 'e              \<comment> \<open>not full, about to count up\<close>
  | RUndo                  \<comment> \<open>one too many, about to count down\<close>
  | RHead 'e               \<comment> \<open>about to advance \<open>head_\<close>\<close>
  | RStore 'e nat          \<comment> \<open>about to store the entry at the index\<close>
  | RDone bool

datatype 'e ring_consumer =
    KIdle
  | KTail size_t                            \<comment> \<open>\<open>old_size\<close> taken, about to load \<open>tail_\<close>\<close>
  | KCopy size_t size_t size_t "'e list"    \<comment> \<open>tail, \<open>old_size\<close>, i, entries\<close>
  | KStore size_t "'e list"                 \<comment> \<open>about to store the new tail\<close>
  | KDone "'e list"
  | KThrown                                 \<comment> \<open>\<open>reserve\<close> threw \<open>length_error\<close>\<close>

fun push_action :: "'e RingBuffer \<Rightarrow> 'e ring_producer \<Rightarrow> 'e RingBuffer \<times> 'e ring_producer" where
  "push_action b RIdle = (b, RIdle)"
| "push_action b (RCall e) = (b, if rb_size b \<ge> rb_capacity b then RDone False else RCount e)"
| "push_action b (RCount e) =
     (let old_size = rb_size b
      in (b\<lparr>rb_size := rb_size b + 1\<rparr>, if old_size \<ge> rb_capacity b then RUndo else RHead e))"
| "push_action b RUndo = (b\<lparr>rb_size := rb_size b - 1\<rparr>, RDone False)"
| "push_action b (RHead e) =
     (let current_head = rb_head b
      in (b\<lparr>rb_head := rb_head b + 1\<rparr>, RStore e (unat (current_head mod rb_capacity b))))"
| "push_action b (RStore e index) = (b\<lparr>rb_buffer := (rb_buffer b)[index := e]\<rparr>, RDone True)"
| "push_action b (RDone r) = (b, RIdle)"

text \<open>
  No vector can hold \<open>2 ^ 63\<close> or more entries. The last component is what the call returns.
\<close>

fun pop_action :: "'e RingBuffer \<Rightarrow> 'e ring_consumer \<Rightarrow> 'e RingBuffer \<times> 'e ring_consumer \<times> 'e list" where
  "pop_action b KIdle =
     (let old_size = rb_size b in (b\<lparr>rb_size := 0\<rparr>, if old_size = 0 then KDone [] else KTail old_size, []))"
| "pop_action b (KTail old_size) =
     (b, if unat old_size \<ge> 2 ^ 63 then KThrown else KCopy (rb_tail b) old_size 0 [], [])"
| "pop_action b (KCopy current_tail old_size i entries) =
     (let entries = entries @ [rb_buffer b ! unat ((current_tail + i) mod rb_capacity b)]
      in (b, if i + 1 < old_size then KCopy current_tail old_size (i + 1) entries
             else KStore ((current_tail + old_size) mod rb_capacity b) entries, []))"
| "pop_action b (KStore new_tail entries) = (b\<lparr>rb_tail := new_tail\<rparr>, KDone entries, [])"
| "pop_action b (KDone entries) = (b, KIdle, entries)"
| "pop_action b KThrown = (b, KIdle, [])"

section \<open>Interleavings\<close>

record 'e ring_race =
  rr_ring :: "'e RingBuffer"
  rr_prods :: "nat \<Rightarrow> 'e ring_producer"
  rr_cons :: "'e ring_consumer"
  rr_pushed :: "'e list"     \<comment> \<open>entries of the calls that were made\<close>
  rr_hist :: "'e list"       \<comment> \<open>in the order in which \<open>head_\<close> was advanced for them\<close>
  rr_taken :: "'e list"      \<comment> \<open>what \<open>popAll\<close> has returned\<close>

definition race_init :: "'e RingBuffer \<Rightarrow> 'e ring_race" where
  "race_init b = \<lparr>rr_ring = b, rr_prods = (\<lambda>_. RIdle), rr_cons = KIdle, rr_pushed = [], rr_hist = [], rr_taken = []\<rparr>"

fun advanced_for :: "'e ring_producer \<Rightarrow> 'e list" where
  "advanced_for (RHead e) = [e]"
| "advanced_for pc = []"

datatype 'e race_event = Push_call nat 'e | Push_step nat | Pop_step

fun race_enabled :: "'e race_event \<Rightarrow> 'e ring_race \<Rightarrow> bool" where
  "race_enabled (Push_call p e) s \<longleftrightarrow> rr_prods s p = RIdle"
| "race_enabled (Push_step p) s \<longleftrightarrow> rr_prods s p \<noteq> RIdle"
| "race_enabled Pop_step s \<longleftrightarrow> True"

fun race_exec :: "'e race_event \<Rightarrow> 'e ring_race \<Rightarrow> 'e ring_race" where
  "race_exec (Push_call p e) s = s\<lparr>rr_prods := (rr_prods s)(p := RCall e), rr_pushed := rr_pushed s @ [e]\<rparr>"
| "race_exec (Push_step p) s =
     (case push_action (rr_ring s) (rr_prods s p) of (b, pc) \<Rightarrow>
        s\<lparr>rr_ring := b, rr_prods := (rr_prods s)(p := pc), rr_hist := rr_hist s @ advanced_for (rr_prods s p)\<rparr>)"
| "race_exec Pop_step s =
     (case pop_action (rr_ring s) (rr_cons s) of (b, pc, out) \<Rightarrow>
        s\<lparr>rr_ring := b, rr_cons := pc, rr_taken := rr_taken s @ out\<rparr>)"

inductive ring_step :: "'e ring_race \<Rightarrow> 'e ring_race \<Rightarrow> bool" where
  "race_enabled ev s \<Longrightarrow> ring_step s (race_exec ev s)"

fun race_schedule :: "'e race_event list \<Rightarrow> 'e ring_race \<Rightarrow> 'e ring_race option" where
  "race_schedule [] s = Some s"
| "race_schedule (ev # evs) s = (if race_enabled ev s then race_schedule evs (race_exec ev s) else None)"

lemma race_schedule_reach: "race_schedule evs s = Some t \<Longrightarrow> ring_step\<^sup>*\<^sup>* s t"
proof (induction evs arbitrary: s)
  case (Cons ev evs)
  then have "ring_step s (race_exec ev s)" "ring_step\<^sup>*\<^sup>* (race_exec ev s) t"
    by (auto split: if_splits intro: ring_step.intros)
  then show ?case by (rule converse_rtranclp_into_rtranclp)
qed simp

section \<open>One thread at a time\<close>

fun push_alone :: "nat \<Rightarrow> 'e RingBuffer \<Rightarrow> 'e ring_producer \<Rightarrow> (bool \<times> 'e RingBuffer) option" where
  "push_alone n b (RDone r) = Some (r, b)"
| "push_alone 0 b pc = None"
| "push_alone (Suc n) b pc = (case push_action b pc of (b, pc) \<Rightarrow> push_alone n b pc)"

fun pop_alone :: "nat \<Rightarrow> 'e RingBuffer \<Rightarrow> 'e ring_consumer \<Rightarrow> ('e list \<times> 'e RingBuffer) option" where
  "pop_alone n b (KDone es) = Some (es, b)"
| "pop_alone 0 b pc = None"
| "pop_alone (Suc n) b pc = (case pop_action b pc of (b, pc, out) \<Rightarrow> pop_alone n b pc)"

lemma push_alone_total: "push_alone 4 b (RCall e) = Some (rb_tryPush e b)"
  by (simp add: rb_tryPush_def Let_def numeral_eq_Suc)

lemma pop_alone_copy:
  assumes "unat i + Suc n = unat old"
  shows "pop_alone (Suc (Suc n)) b (KCopy t old i es) =
     Some (es @ rb_collect b t (Suc n) i, b\<lparr>rb_tail := (t + old) mod rb_capacity b\<rparr>)"
  using assms
proof (induction n arbitrary: i es)
  case 0
  then have "i < old" by (simp add: word_less_nat_alt)
  from unat_Suc_below [OF this] 0 have "\<not> i + 1 < old" by (simp add: word_less_nat_alt)
  then show ?case by simp
next
  case (Suc n)
  then have "i < old" by (simp add: word_less_nat_alt)
  from unat_Suc_below [OF this] Suc.prems have s: "i + 1 < old" "unat (i + 1) + Suc n = unat old"
    by (simp_all add: word_less_nat_alt)
  have "pop_alone (Suc m) b (KCopy t old i es) =
      pop_alone m b (KCopy t old (i + 1) (es @ [rb_buffer b ! unat ((t + i) mod rb_capacity b)]))" for m
    using s(1) by (simp add: Let_def)
  then show ?case using Suc.IH [OF s(2), of "es @ [rb_buffer b ! unat ((t + i) mod rb_capacity b)]"] by simp
qed

text \<open>
  Interleaving aside the atomic actions are the operations: a thread that runs alone from
  its call to its return computes exactly the sequential \<open>tryPush\<close> or \<open>popAll\<close>, result and
  buffer, in at most 4 and \<open>size + 3\<close> actions.
\<close>

theorem ring_actions_alone:
  assumes "unat (rb_size b) < 2 ^ 63"
  shows "push_alone 4 b (RCall e) = Some (rb_tryPush e b) \<and>
     pop_alone (unat (rb_size b) + 3) b KIdle = Some (rb_popAll b)"
proof
  show "push_alone 4 b (RCall e) = Some (rb_tryPush e b)" by (rule push_alone_total)
  show "pop_alone (unat (rb_size b) + 3) b KIdle = Some (rb_popAll b)"
  proof (cases "rb_size b = 0")
    case True
    then show ?thesis by (simp add: rb_popAll_def numeral_3_eq_3)
  next
    case False
    then obtain n where n: "unat (rb_size b) = Suc n" using not0_implies_Suc unat_eq_0 by blast
    have small: "\<not> 2 ^ 63 \<le> unat (rb_size b)" using assms by simp
    have "pop_alone (unat (rb_size b) + 3) b KIdle =
        pop_alone (Suc (Suc n)) (b\<lparr>rb_size := 0\<rparr>) (KCopy (rb_tail b) (rb_size b) 0 [])"
      using False small n by (simp add: numeral_3_eq_3)
    also have "\<dots> = Some (rb_popAll b)"
      using pop_alone_copy [of 0 n "rb_size b" "b\<lparr>rb_size := 0\<rparr>" "rb_tail b" "[]"] n False
      by (simp add: rb_popAll_def Let_def)
    finally show ?thesis .
  qed
qed

theorem ring_actions_alone_witness:
  "push_alone 4 (RingBuffer_ctor CHR ''x'' 2) (RCall CHR ''a'') = Some (rb_tryPush CHR ''a'' (RingBuffer_ctor CHR ''x'' 2)) \<and>
   fst (rb_tryPush CHR ''a'' (RingBuffer_ctor CHR ''x'' 2))"
proof -
  have "unat (rb_size (RingBuffer_ctor CHR ''x'' 2)) < 2 ^ 63" by (simp add: RingBuffer_ctor_def)
  from ring_actions_alone [OF this, of "CHR ''a''"] show ?thesis by (simp add: rb_tryPush_def RingBuffer_ctor_def Let_def)
qed

section \<open>What interleaving breaks\<close>

text \<open>
  \<open>popAll\<close> runs between the counting and the storing of a push: it returns the slot's old value,
  and the entry is left behind the new tail.
\<close>

definition pop_before_store :: "'e \<Rightarrow> 'e race_event list" where
  "pop_before_store e = [Push_call 0 e, Push_step 0, Push_step 0, Pop_step, Pop_step, Pop_step, Pop_step, Pop_step,
     Push_step 0, Push_step 0]"

text \<open>
  C34: the fallback buffer can lose an accepted entry and return one that nobody pushed: in a
  reachable state of a fresh buffer with room for two, the only push has answered true and the
  buffer holds nothing, but \<open>popAll\<close> has returned the value-initialised record, whose string
  pointers are null, so that formatting it, which is what the logger does next, is undefined.
\<close>

theorem ring_returns_unwritten:
  "\<exists>s. ring_step\<^sup>*\<^sup>* (race_init (LogRing_ctor 2)) s \<and> rr_pushed s = [e] \<and> rr_prods s 0 = RDone True \<and>
     (\<forall>p. p \<noteq> 0 \<longrightarrow> rr_prods s p = RIdle) \<and> rr_cons s = KIdle \<and> rb_contents (rr_ring s) = [] \<and>
     rr_taken s = [LogEntry_default] \<and> formatLogEntry fe m LogEntry_default = None"
proof -
  have two: "replicate 2 x = [x, x]" for x :: LogEntry by (simp add: numeral_2_eq_2)
  obtain s where run: "race_schedule (pop_before_store e) (race_init (LogRing_ctor 2)) = Some s"
    and s: "rr_pushed s = [e]" "rr_prods s 0 = RDone True" "\<forall>p. p \<noteq> 0 \<longrightarrow> rr_prods s p = RIdle" "rr_cons s = KIdle"
      "rb_contents (rr_ring s) = []" "rr_taken s = [LogEntry_default]"
    by (simp add: pop_before_store_def race_init_def LogRing_ctor_def RingBuffer_ctor_def Let_def rb_contents_def two)
  have "formatLogEntry fe m LogEntry_default = None"
    by (simp add: formatLogEntry_def LogEntry_default_def LogEntry_ctor_def c_string_def)
  with race_schedule_reach [OF run] s show ?thesis by blast
qed

theorem ring_returns_unwritten_witness:
  "\<exists>s. ring_step\<^sup>*\<^sup>* (race_init (LogRing_ctor 2)) s \<and> rr_pushed s = [sample_entry] \<and> rr_taken s = [LogEntry_default]"
  using ring_returns_unwritten [of sample_entry sample_env sample_memory] by blast

text \<open>A push that counts beyond the capacity counts down again after \<open>popAll\<close> has reset the size.\<close>

definition undo_after_pop :: "char race_event list" where
  "undo_after_pop = [Push_call 0 CHR ''a'', Push_call 1 CHR ''b'', Push_step 0, Push_step 1, Push_step 0, Push_step 1,
     Push_step 0, Push_step 0, Pop_step, Pop_step, Pop_step, Pop_step, Pop_step, Pop_step, Push_step 1]"

text \<open>
  The size can wrap below zero and stay there: in a reachable state of a buffer with room
  for one entry nobody is in the middle of a call, the one accepted entry has been returned
  twice, the size is \<open>2 ^ 64 - 1\<close>, so every further push is refused although the buffer is
  empty, and the next \<open>popAll\<close> ends in an exception.
\<close>

theorem ring_size_wraps:
  "\<exists>s. ring_step\<^sup>*\<^sup>* (race_init (RingBuffer_ctor CHR ''x'' 1)) s \<and> rr_prods s 0 = RDone True \<and> rr_prods s 1 = RDone False \<and>
     (\<forall>p. p \<noteq> 0 \<and> p \<noteq> 1 \<longrightarrow> rr_prods s p = RIdle) \<and> rr_cons s = KIdle \<and> rr_taken s = ''aa'' \<and>
     rb_size (rr_ring s) = - 1 \<and> (\<forall>e. rb_tryPush e (rr_ring s) = (False, rr_ring s)) \<and>
     rr_cons (race_exec Pop_step (race_exec Pop_step s)) = KThrown"
proof -
  have big: "unat (- 1 :: size_t) = 18446744073709551615"
    by (simp add: unsigned_minus_1_eq_mask mask_eq_exp_minus_1)
  obtain s where run: "race_schedule undo_after_pop (race_init (RingBuffer_ctor CHR ''x'' 1)) = Some s"
    and s: "rr_prods s 0 = RDone True" "rr_prods s 1 = RDone False" "\<forall>p. p \<noteq> 0 \<and> p \<noteq> 1 \<longrightarrow> rr_prods s p = RIdle"
      "rr_cons s = KIdle" "rr_taken s = ''aa''" "rb_size (rr_ring s) = - 1" "rb_capacity (rr_ring s) = 1"
    by (simp add: undo_after_pop_def race_init_def RingBuffer_ctor_def Let_def)
  have "rb_tryPush e (rr_ring s) = (False, rr_ring s)" for e using s(6,7) by (simp add: rb_tryPush_def)
  moreover have "rr_cons (race_exec Pop_step (race_exec Pop_step s)) = KThrown"
    using s(4,6) by (simp add: Let_def big)
  ultimately show ?thesis using race_schedule_reach [OF run] s by blast
qed

theorem ring_size_wraps_witness:
  "\<exists>s. ring_step\<^sup>*\<^sup>* (race_init (RingBuffer_ctor CHR ''x'' 1)) s \<and> rr_cons s = KIdle \<and> rb_size (rr_ring s) = - 1"
  using ring_size_wraps by blast

end
