(* ===== verification/Ring_Pushes.thy ===== *)
theory Ring_Pushes
  imports Ring_Race
begin

text \<open>
  When the fallback buffer is safe: any number of threads may push at the same time, as long as
  \<open>popAll\<close> runs while no push is under way. (The logger does not see to that; theory \<open>Ring_Race\<close> shows
  what comes of it.)
\<close>

section \<open>Pushes together, \<open>popAll\<close> alone\<close>

fun push_under_way :: "'e ring_producer \<Rightarrow> bool" where
  "push_under_way RIdle = False"
| "push_under_way (RDone r) = False"
| "push_under_way pc = True"

text \<open>The producers are numbered below \<open>n\<close>.\<close>

inductive exclusive_step :: "nat \<Rightarrow> 'e ring_race \<Rightarrow> 'e ring_race \<Rightarrow> bool" for n where
  call: "rr_cons s = KIdle \<Longrightarrow> p < n \<Longrightarrow> rr_prods s p = RIdle \<Longrightarrow> exclusive_step n s (race_exec (Push_call p e) s)"
| push: "rr_cons s = KIdle \<Longrightarrow> p < n \<Longrightarrow> rr_prods s p \<noteq> RIdle \<Longrightarrow> exclusive_step n s (race_exec (Push_step p) s)"
| pop: "\<forall>p. \<not> push_under_way (rr_prods s p) \<Longrightarrow> exclusive_step n s (race_exec Pop_step s)"

lemma exclusive_step_ring_step: "exclusive_step n s t \<Longrightarrow> ring_step s t"
  by (induction rule: exclusive_step.induct) (metis race_enabled.simps ring_step.intros)+

section \<open>Counting the producers at a place\<close>

definition at_place :: "nat \<Rightarrow> ('e ring_producer \<Rightarrow> bool) \<Rightarrow> (nat \<Rightarrow> 'e ring_producer) \<Rightarrow> nat" where
  "at_place n f P = card {p. p < n \<and> f (P p)}"

lemma at_place_le: "at_place n f P \<le> n"
proof -
  have "card {p. p < n \<and> f (P p)} \<le> card {..<n}" by (intro card_mono) auto
  then show ?thesis by (simp add: at_place_def)
qed

lemma at_place_update:
  assumes "p < n"
  shows "at_place n f (P(p := pc)) + (if f (P p) then 1 else 0) = at_place n f P + (if f pc then 1 else 0)"
proof -
  let ?A = "{q. q < n \<and> q \<noteq> p \<and> f (P q)}"
  have "{q. q < n \<and> f (P q)} = (if f (P p) then insert p ?A else ?A)"
    "{q. q < n \<and> f ((P(p := pc)) q)} = (if f pc then insert p ?A else ?A)" using assms by auto
  moreover have "finite ?A" "p \<notin> ?A" by auto
  ultimately show ?thesis by (simp add: at_place_def)
qed

lemma at_place_pos: "p < n \<Longrightarrow> f (P p) \<Longrightarrow> 0 < at_place n f P"
  by (auto simp: at_place_def card_gt_0_iff)

lemma at_place_none: "(\<And>p. \<not> f (P p)) \<Longrightarrow> at_place n f P = 0"
  by (simp add: at_place_def)

section \<open>The invariant\<close>

fun counted :: "'e ring_producer \<Rightarrow> bool" where
  "counted (RHead e) = True"
| "counted pc = False"

fun overcounted :: "'e ring_producer \<Rightarrow> bool" where
  "overcounted RUndo = True"
| "overcounted pc = False"

text \<open>
  \<open>k\<close> entries have been taken out. The size counts those in the buffer, the pushes that have counted and
  not yet advanced the head, and those that are about to take their count back.
\<close>

definition ring_filled :: "nat \<Rightarrow> 'e RingBuffer \<Rightarrow> 'e list \<Rightarrow> nat \<Rightarrow> bool" where
  "ring_filled n b hs k \<longleftrightarrow> 0 < rb_cap b \<and> rb_cap b + n < 2 ^ 63 \<and> length (rb_buffer b) = rb_cap b \<and>
     rb_head b = of_nat (length hs) \<and> length hs < 2 ^ 64 \<and> k \<le> length hs \<and> length hs \<le> k + rb_cap b"

text \<open>The entry with ticket \<open>u\<close> is in its slot, or some thread is about to store it.\<close>

definition stored :: "'e RingBuffer \<Rightarrow> (nat \<Rightarrow> 'e ring_producer) \<Rightarrow> 'e list \<Rightarrow> nat \<Rightarrow> bool" where
  "stored b P hs u \<longleftrightarrow> rb_buffer b ! (u mod rb_cap b) = hs ! u \<or> (\<exists>p. P p = RStore (hs ! u) (u mod rb_cap b))"

fun store_ok :: "'e RingBuffer \<Rightarrow> 'e list \<Rightarrow> nat \<Rightarrow> 'e ring_producer \<Rightarrow> bool" where
  "store_ok b hs k (RStore e j) \<longleftrightarrow> (\<exists>u. k \<le> u \<and> u < length hs \<and> e = hs ! u \<and> j = u mod rb_cap b)"
| "store_ok b hs k pc \<longleftrightarrow> True"

definition pushes_ok :: "nat \<Rightarrow> 'e RingBuffer \<Rightarrow> (nat \<Rightarrow> 'e ring_producer) \<Rightarrow> 'e list \<Rightarrow> nat \<Rightarrow> bool" where
  "pushes_ok n b P hs k \<longleftrightarrow> ring_filled n b hs k \<and> rb_tail b = of_nat (k mod rb_cap b) \<and>
     unat (rb_size b) = length hs - k + at_place n counted P + at_place n overcounted P \<and>
     length hs - k + at_place n counted P \<le> rb_cap b \<and>
     (\<forall>u. k \<le> u \<and> u < length hs \<longrightarrow> stored b P hs u) \<and> (\<forall>p. store_ok b hs k (P p))"

text \<open>While \<open>popAll\<close> runs, everything is stored.\<close>

definition all_stored :: "'e RingBuffer \<Rightarrow> 'e list \<Rightarrow> nat \<Rightarrow> bool" where
  "all_stored b hs k \<longleftrightarrow> rb_tail b = of_nat (k mod rb_cap b) \<and>
     (\<forall>u. k \<le> u \<and> u < length hs \<longrightarrow> rb_buffer b ! (u mod rb_cap b) = hs ! u)"

fun pops_ok :: "'e RingBuffer \<Rightarrow> 'e list \<Rightarrow> nat \<Rightarrow> 'e ring_consumer \<Rightarrow> bool" where
  "pops_ok b hs k KIdle = False"
| "pops_ok b hs k (KTail old) \<longleftrightarrow> unat old = length hs - k \<and> 0 < unat old \<and> all_stored b hs k"
| "pops_ok b hs k (KCopy t old i es) \<longleftrightarrow> t = rb_tail b \<and> unat old = length hs - k \<and> i < old \<and>
     es = take (unat i) (drop k hs) \<and> all_stored b hs k"
| "pops_ok b hs k (KStore new_tail es) \<longleftrightarrow> new_tail = of_nat (length hs mod rb_cap b) \<and> es = drop k hs"
| "pops_ok b hs k (KDone es) \<longleftrightarrow> rb_tail b = of_nat (length hs mod rb_cap b) \<and> es = drop k hs"
| "pops_ok b hs k KThrown = False"

definition exclusive_ok :: "nat \<Rightarrow> 'e ring_race \<Rightarrow> bool" where
  "exclusive_ok n s \<longleftrightarrow>
     (let b = rr_ring s; hs = rr_hist s; k = length (rr_taken s)
      in rr_taken s = take k hs \<and>
         (if rr_cons s = KIdle then pushes_ok n b (rr_prods s) hs k
          else ring_filled n b hs k \<and> rb_size b = 0 \<and> (\<forall>p. \<not> push_under_way (rr_prods s p)) \<and> pops_ok b hs k (rr_cons s)))"

definition heads_fit :: "'e ring_race \<Rightarrow> bool" where
  "heads_fit s \<longleftrightarrow> length (rr_hist s) < 2 ^ 64"

section \<open>Pushing\<close>

lemma pushes_okD:
  assumes "pushes_ok n b P hs k"
  shows "ring_filled n b hs k" "rb_tail b = of_nat (k mod rb_cap b)"
    "unat (rb_size b) = length hs - k + at_place n counted P + at_place n overcounted P"
    "length hs - k + at_place n counted P \<le> rb_cap b"
    "\<And>u. k \<le> u \<Longrightarrow> u < length hs \<Longrightarrow> stored b P hs u" "\<And>p. store_ok b hs k (P p)"
  using assms by (auto simp: pushes_ok_def)

lemma ring_filledD:
  assumes "ring_filled n b hs k"
  shows "0 < rb_cap b" "rb_cap b + n < 2 ^ 63" "length (rb_buffer b) = rb_cap b" "rb_head b = of_nat (length hs)"
    "length hs < 2 ^ 64" "k \<le> length hs" "length hs \<le> k + rb_cap b"
  using assms by (auto simp: ring_filled_def)

lemma rb_cap_simps [simp]:
  "rb_cap (b\<lparr>rb_size := x\<rparr>) = rb_cap b" "rb_cap (b\<lparr>rb_head := x\<rparr>) = rb_cap b"
  "rb_cap (b\<lparr>rb_tail := x\<rparr>) = rb_cap b" "rb_cap (b\<lparr>rb_buffer := xs\<rparr>) = rb_cap b"
  by (simp_all add: rb_cap_def)

lemma store_ok_size: "store_ok (b\<lparr>rb_size := x\<rparr>) hs k pc = store_ok b hs k pc"
  by (cases pc) simp_all

text \<open>A step that only counts.\<close>

lemma count_step:
  assumes ok: "pushes_ok n b P hs k" and p: "\<forall>e j. P p \<noteq> RStore e j" "\<forall>e j. pc \<noteq> RStore e j"
    and size: "unat sz = length hs - k + at_place n counted (P(p := pc)) + at_place n overcounted (P(p := pc))"
      "length hs - k + at_place n counted (P(p := pc)) \<le> rb_cap b"
  shows "pushes_ok n (b\<lparr>rb_size := sz\<rparr>) (P(p := pc)) hs k"
proof -
  note o = pushes_okD [OF ok]
  have "stored (b\<lparr>rb_size := sz\<rparr>) (P(p := pc)) hs u" if "k \<le> u" "u < length hs" for u
  proof -
    have "\<exists>q. (P(p := pc)) q = RStore (hs ! u) (u mod rb_cap b)" if "P q = RStore (hs ! u) (u mod rb_cap b)" for q
      using that p(1) by (intro exI [of _ q]) auto
    moreover from o(5) [OF that] have "rb_buffer b ! (u mod rb_cap b) = hs ! u \<or> (\<exists>q. P q = RStore (hs ! u) (u mod rb_cap b))"
      by (simp add: stored_def)
    ultimately show ?thesis unfolding stored_def by (simp del: fun_upd_apply) blast
  qed
  moreover have "store_ok b hs k ((P(p := pc)) q)" for q using o(6) [of q] p(2) by (cases pc) auto
  ultimately show ?thesis using o(1,2) size by (simp add: pushes_ok_def ring_filled_def store_ok_size)
qed

text \<open>Advancing the head gives the next ticket, whose slot is free.\<close>

lemma advance_step:
  assumes ok: "pushes_ok n b P hs k" and p: "p < n" "P p = RHead e" and fit: "length (hs @ [e]) < 2 ^ 64"
  shows "pushes_ok n (b\<lparr>rb_head := rb_head b + 1\<rparr>) (P(p := RStore e (unat (rb_head b mod rb_capacity b)))) (hs @ [e]) k"
    (is "pushes_ok n ?b ?P ?hs k")
proof -
  note o = pushes_okD [OF ok] and f = ring_filledD [OF pushes_okD(1) [OF ok]]
  have index: "unat (rb_head b mod rb_capacity b) = length hs mod rb_cap b"
    using f(4,5) by (simp add: unat_mod_size unat_of_nat_size rb_cap_def)
  have counts: "at_place n counted ?P + 1 = at_place n counted P" "at_place n overcounted ?P = at_place n overcounted P"
    using at_place_update [OF p(1), of counted P] at_place_update [OF p(1), of overcounted P] p(2) by (simp_all del: fun_upd_apply)
  have "0 < at_place n counted P" using at_place_pos [OF p(1), of counted P] p(2) by simp
  then have "length hs < k + rb_cap b" using o(4) f(6) by linarith
  then have "ring_filled n ?b ?hs k"
    using f fit by (simp add: ring_filled_def add.commute)
  moreover have "stored ?b ?P ?hs u" if "k \<le> u" "u < length ?hs" for u
  proof (cases "u = length hs")
    case True
    then show ?thesis unfolding stored_def by (intro disjI2 exI [of _ p]) (simp add: index)
  next
    case False
    then have u: "u < length hs" "?hs ! u = hs ! u" using that(2) by (simp_all add: nth_append)
    have "?P q = RStore (hs ! u) (u mod rb_cap b)" if "P q = RStore (hs ! u) (u mod rb_cap b)" for q
      using that p(2) by auto
    with o(5) [OF that(1) u(1)] show ?thesis unfolding stored_def u(2) by (simp del: fun_upd_apply) blast
  qed
  moreover have "store_ok ?b ?hs k (?P q)" for q
  proof (cases "q = p")
    case True
    then show ?thesis using f(6) by (auto simp: index intro!: exI [of _ "length hs"])
  next
    case False
    with o(6) [of q] show ?thesis by (cases "P q") (auto simp: nth_append)
  qed
  moreover have "length ?hs - k + at_place n counted ?P = length hs - k + at_place n counted P"
    unfolding counts(1) [symmetric] using f(6) by simp
  ultimately show ?thesis using o(2,3,4) counts(2) by (simp add: pushes_ok_def del: fun_upd_apply length_append)
qed

lemma store_step:
  assumes ok: "pushes_ok n b P hs k" and p: "p < n" "P p = RStore e j"
  shows "pushes_ok n (b\<lparr>rb_buffer := (rb_buffer b)[j := e]\<rparr>) (P(p := RDone True)) hs k" (is "pushes_ok n ?b ?P hs k")
proof -
  note o = pushes_okD [OF ok] and f = ring_filledD [OF pushes_okD(1) [OF ok]]
  from o(6) [of p] p(2) obtain t where t: "k \<le> t" "t < length hs" "e = hs ! t" "j = t mod rb_cap b" by auto
  have counts: "at_place n counted ?P = at_place n counted P" "at_place n overcounted ?P = at_place n overcounted P"
    using at_place_update [OF p(1), of counted P] at_place_update [OF p(1), of overcounted P] p(2) by (simp_all del: fun_upd_apply)
  have cell: "rb_buffer ?b ! (u mod rb_cap b) = (if u = t then hs ! t else rb_buffer b ! (u mod rb_cap b))"
    if "k \<le> u" "u < length hs" for u
    using nth_update_window [OF f(3) t(1) _ that(1), of "hs ! t"] t that f(7) by simp
  have "stored ?b ?P hs u" if u: "k \<le> u" "u < length hs" for u
  proof (cases "u = t")
    case True
    with cell [OF u] show ?thesis by (simp add: stored_def)
  next
    case False
    have "?P q = RStore (hs ! u) (u mod rb_cap b)" if "P q = RStore (hs ! u) (u mod rb_cap b)" for q
    proof -
      have "u mod rb_cap b \<noteq> t mod rb_cap b" using mod_window_inj [OF u(1) _ t(1), of "rb_cap b"] False u(2) t(2) f(7) by auto
      then show ?thesis using that p(2) t(4) by auto
    qed
    with o(5) [OF u] cell [OF u] False show ?thesis unfolding stored_def by (simp del: fun_upd_apply) blast
  qed
  moreover have "store_ok ?b hs k (?P q)" for q using o(6) [of q] by (cases "P q") auto
  ultimately show ?thesis using o(1-4) counts by (simp add: pushes_ok_def ring_filled_def)
qed

lemma push_preserves:
  assumes ok: "pushes_ok n b P hs k" and p: "p < n" and act: "push_action b (P p) = (b', pc)"
    and fit: "length (hs @ advanced_for (P p)) < 2 ^ 64"
  shows "pushes_ok n b' (P(p := pc)) (hs @ advanced_for (P p)) k"
proof -
  note o = pushes_okD [OF ok] and f = ring_filledD [OF pushes_okD(1) [OF ok]]
  note counts = at_place_update [OF p, of counted P pc] at_place_update [OF p, of overcounted P pc]
  have cap: "rb_capacity b \<le> rb_size b \<longleftrightarrow> rb_cap b \<le> unat (rb_size b)" by (simp add: word_le_nat_alt rb_cap_def)
  have "unat (rb_size b) < 2 ^ 63" using o(3,4) f(2) at_place_le [of n overcounted P] by linarith
  then have inc: "unat (rb_size b + 1) = Suc (unat (rb_size b))" by (intro unat_inc_size) simp
  have same: "b\<lparr>rb_size := rb_size b\<rparr> = b" by simp
  show ?thesis
  proof (cases "P p")
    case (RCount e)
    have b': "b' = b\<lparr>rb_size := rb_size b + 1\<rparr>" "pc = (if rb_cap b \<le> unat (rb_size b) then RUndo else RHead e)"
      using act by (auto simp: RCount Let_def cap)
    have "pushes_ok n (b\<lparr>rb_size := rb_size b + 1\<rparr>) (P(p := pc)) hs k"
      using counts o(3,4) by (intro count_step [OF ok]) (simp_all add: RCount b'(2) inc del: fun_upd_apply split: if_splits)
    then show ?thesis by (simp add: RCount b'(1))
  next
    case RUndo
    have b': "b' = b\<lparr>rb_size := rb_size b - 1\<rparr>" "pc = RDone False" using act by (auto simp: RUndo)
    have "0 < at_place n overcounted P" using at_place_pos [OF p, of overcounted P] RUndo by simp
    then have "unat (rb_size b - 1) = unat (rb_size b) - 1" using o(3) by (simp add: unat_diff_size)
    then have "pushes_ok n (b\<lparr>rb_size := rb_size b - 1\<rparr>) (P(p := pc)) hs k"
      using counts o(3,4) by (intro count_step [OF ok]) (simp_all add: RUndo b'(2) del: fun_upd_apply)
    then show ?thesis by (simp add: RUndo b'(1))
  next
    case (RHead e)
    with advance_step [OF ok p RHead] act fit show ?thesis by (auto simp: Let_def)
  next
    case (RStore e j)
    with store_step [OF ok p RStore] act show ?thesis by auto
  next
    case RIdle
    have "pushes_ok n (b\<lparr>rb_size := rb_size b\<rparr>) (P(p := pc)) hs k"
      using counts o(3,4) act by (intro count_step [OF ok]) (auto simp: RIdle simp del: fun_upd_apply)
    then show ?thesis using act by (auto simp: RIdle)
  next
    case (RDone r)
    have "pushes_ok n (b\<lparr>rb_size := rb_size b\<rparr>) (P(p := pc)) hs k"
      using counts o(3,4) act by (intro count_step [OF ok]) (auto simp: RDone simp del: fun_upd_apply)
    then show ?thesis using act by (auto simp: RDone)
  next
    case (RCall e)
    have "pushes_ok n (b\<lparr>rb_size := rb_size b\<rparr>) (P(p := pc)) hs k"
      using counts o(3,4) act by (intro count_step [OF ok]) (auto simp: RCall simp del: fun_upd_apply split: if_splits)
    then show ?thesis using act by (auto simp: RCall)
  qed
qed

section \<open>Popping\<close>

lemma none_under_way:
  assumes "\<forall>p. \<not> push_under_way (P p)"
  shows "at_place n counted P = 0" "at_place n overcounted P = 0" "P p \<noteq> RStore e j" "store_ok b hs k (P p)"
proof -
  have "\<not> counted (P p) \<and> \<not> overcounted (P p) \<and> P p \<noteq> RStore e j \<and> store_ok b hs k (P p)" for p e j
    using assms [rule_format, of p] by (cases "P p") simp_all
  then show "at_place n counted P = 0" "at_place n overcounted P = 0" "P p \<noteq> RStore e j" "store_ok b hs k (P p)"
    by (simp_all add: at_place_none)
qed

text \<open>With no push under way the state between two calls of \<open>popAll\<close> is that of the lists.\<close>

lemma quiet_pushes:
  assumes "\<forall>p. \<not> push_under_way (P p)"
  shows "pushes_ok n b P hs k \<longleftrightarrow> ring_filled n b hs k \<and> unat (rb_size b) = length hs - k \<and> all_stored b hs k"
  using none_under_way [OF assms]
  by (auto simp: pushes_ok_def all_stored_def stored_def ring_filled_def)

lemma pop_starts:
  assumes ok: "pushes_ok n b P hs k" and quiet: "\<forall>p. \<not> push_under_way (P p)" and act: "pop_action b KIdle = (b', c', out)"
  shows "out = [] \<and> ring_filled n b' hs k \<and> rb_size b' = 0 \<and> c' \<noteq> KIdle \<and> pops_ok b' hs k c'"
proof -
  from ok have q: "ring_filled n b hs k" "unat (rb_size b) = length hs - k" "all_stored b hs k"
    by (simp_all add: quiet_pushes [OF quiet])
  have a: "b' = b\<lparr>rb_size := 0\<rparr>" "c' = (if rb_size b = 0 then KDone [] else KTail (rb_size b))" "out = []"
    using act by (auto simp: Let_def)
  have "length hs = k" if "rb_size b = 0" using that q(2) ring_filledD(6) [OF q(1)] by simp
  moreover have "k < length hs" if "rb_size b \<noteq> 0"
    using that q(2) by (metis unat_gt_0 zero_less_diff)
  ultimately show ?thesis using q a by (auto simp: ring_filled_def all_stored_def)
qed

text \<open>The read index, reduced modulo the capacity, points to the slot of the next ticket.\<close>

lemma read_slot:
  assumes f: "ring_filled n b hs k" and tail: "rb_tail b = of_nat (k mod rb_cap b)" and i: "unat i \<le> rb_cap b"
  shows "unat ((rb_tail b + i) mod rb_capacity b) = (k + unat i) mod rb_cap b"
proof -
  note r = ring_filledD [OF f]
  have less: "k mod rb_cap b < rb_cap b" using r(1) by simp
  then have t: "unat (rb_tail b) = k mod rb_cap b" using tail r(2) by (simp add: unat_of_nat_size)
  then have "unat (rb_tail b) + unat i < 2 ^ 64" using less i r(2) by simp
  then have "unat (rb_tail b + i) = k mod rb_cap b + unat i" by (simp only: unat_add_size t)
  then show ?thesis by (simp add: unat_mod_size rb_cap_def [symmetric] mod_add_left_eq)
qed

definition pop_kept :: "nat \<Rightarrow> 'e list \<Rightarrow> nat \<Rightarrow> 'e RingBuffer \<Rightarrow> 'e ring_consumer \<Rightarrow> 'e list \<Rightarrow> bool" where
  "pop_kept n hs k b c out \<longleftrightarrow> out = [] \<and> c \<noteq> KIdle \<and> ring_filled n b hs k \<and> rb_size b = 0 \<and> pops_ok b hs k c"

lemma pop_copies:
  assumes f: "ring_filled n b hs k" and size: "rb_size b = 0" and c: "pops_ok b hs k (KCopy t old i es)"
    and act: "pop_action b (KCopy t old i es) = (b', c', out)"
  shows "pop_kept n hs k b' c' out"
proof -
  note r = ring_filledD [OF f]
  have p: "t = rb_tail b" "unat old = length hs - k" "i < old" "es = take (unat i) (drop k hs)"
    "rb_tail b = of_nat (k mod rb_cap b)" "\<And>u. k \<le> u \<Longrightarrow> u < length hs \<Longrightarrow> rb_buffer b ! (u mod rb_cap b) = hs ! u"
    using c by (auto simp: all_stored_def)
  have i: "unat i < unat old" "k + unat i < length hs" using p(2,3) by (simp_all add: word_less_nat_alt)
  have le: "unat i \<le> rb_cap b" "unat old \<le> rb_cap b" using i p(2) r(7) by simp_all
  have "rb_buffer b ! unat ((t + i) mod rb_capacity b) = hs ! (k + unat i)"
    unfolding p(1) read_slot [OF f p(5) le(1)] using p(6) [of "k + unat i"] i(2) by simp
  then have es: "es @ [rb_buffer b ! unat ((t + i) mod rb_capacity b)] = take (Suc (unat i)) (drop k hs)"
    using i p(4) by (simp add: take_Suc_conv_app_nth)
  have "unat ((t + old) mod rb_capacity b) = length hs mod rb_cap b"
    using read_slot [OF f p(5) le(2)] p(1,2) r(6) by simp
  then have tail: "(t + old) mod rb_capacity b = of_nat (length hs mod rb_cap b)" by (metis size_eq_of_nat)
  have more: "unat (i + 1) = Suc (unat i)" by (rule unat_Suc_below [OF p(3)])
  have "take (Suc (unat i)) (drop k hs) = drop k hs" if "\<not> i + 1 < old"
    using that more i p(2) by (simp add: word_less_nat_alt)
  then have last: "take (Suc (unat i)) (drop k hs) = drop k hs" if "\<not> i + 1 < old" using that .
  show ?thesis
  proof (cases "i + 1 < old")
    case True
    then have "b' = b" "c' = KCopy t old (i + 1) (take (Suc (unat i)) (drop k hs))" "out = []"
      using act es by (auto simp: Let_def)
    then show ?thesis using True more f size c by (simp add: pop_kept_def)
  next
    case False
    then have "b' = b" "c' = KStore (of_nat (length hs mod rb_cap b)) (drop k hs)" "out = []"
      using act es tail last by (auto simp: Let_def)
    then show ?thesis using f size by (simp add: pop_kept_def)
  qed
qed

lemma pop_continues:
  assumes f: "ring_filled n b hs k" and size: "rb_size b = 0" and c: "pops_ok b hs k c"
    and act: "pop_action b c = (b', c', out)" and running: "\<forall>es. c \<noteq> KDone es"
  shows "pop_kept n hs k b' c' out"
proof (cases c)
  case (KTail old)
  have "unat old < 2 ^ 63" using KTail c ring_filledD(2,7) [OF f] by simp
  then show ?thesis using KTail f size c act by (auto simp: pop_kept_def word_less_nat_alt)
next
  case (KCopy t old i es)
  from pop_copies [OF f size c [unfolded KCopy] act [unfolded KCopy]] show ?thesis .
qed (use f size c act running in \<open>auto simp: pop_kept_def ring_filled_def\<close>)

section \<open>Runs\<close>

lemma exclusive_call:
  assumes ok: "exclusive_ok n s" and s: "rr_cons s = KIdle" "p < n" "rr_prods s p = RIdle"
  shows "exclusive_ok n (race_exec (Push_call p e) s)"
proof -
  let ?b = "rr_ring s" and ?P = "rr_prods s"
  have o: "pushes_ok n ?b ?P (rr_hist s) (length (rr_taken s))" using ok s(1) by (simp add: exclusive_ok_def Let_def)
  have "pushes_ok n (?b\<lparr>rb_size := rb_size ?b\<rparr>) (?P(p := RCall e)) (rr_hist s) (length (rr_taken s))"
    using at_place_update [OF s(2), of counted ?P "RCall e"] at_place_update [OF s(2), of overcounted ?P "RCall e"]
      pushes_okD(3,4) [OF o] s(3)
    by (intro count_step [OF o]) (simp_all del: fun_upd_apply)
  then show ?thesis using ok s(1) by (simp add: exclusive_ok_def Let_def)
qed

lemma exclusive_push:
  assumes ok: "exclusive_ok n s" and s: "rr_cons s = KIdle" "p < n" and fit: "heads_fit (race_exec (Push_step p) s)"
  shows "exclusive_ok n (race_exec (Push_step p) s)"
proof -
  obtain b pc where act: "push_action (rr_ring s) (rr_prods s p) = (b, pc)" by (cases "push_action (rr_ring s) (rr_prods s p)") auto
  have o: "pushes_ok n (rr_ring s) (rr_prods s) (rr_hist s) (length (rr_taken s))"
    and t: "rr_taken s = take (length (rr_taken s)) (rr_hist s)"
    using ok s(1) by (simp_all add: exclusive_ok_def Let_def)
  have "length (rr_hist s @ advanced_for (rr_prods s p)) < 2 ^ 64" using fit by (simp add: heads_fit_def act)
  from push_preserves [OF o s(2) act this] show ?thesis
    using t ring_filledD(6) [OF pushes_okD(1) [OF o]] s(1) by (simp add: exclusive_ok_def Let_def act)
qed

lemma exclusive_pop:
  assumes ok: "exclusive_ok n s" and quiet: "\<forall>p. \<not> push_under_way (rr_prods s p)"
  shows "exclusive_ok n (race_exec Pop_step s)"
proof -
  let ?hs = "rr_hist s" and ?k = "length (rr_taken s)"
  obtain b c out where act: "pop_action (rr_ring s) (rr_cons s) = (b, c, out)" by (cases "pop_action (rr_ring s) (rr_cons s)") auto
  have t: "rr_taken s = take ?k ?hs" using ok by (simp add: exclusive_ok_def Let_def)
  have kept: ?thesis if "pop_kept n ?hs ?k b c out"
    using that t quiet by (simp add: exclusive_ok_def Let_def act pop_kept_def)
  show ?thesis
  proof (cases "rr_cons s = KIdle")
    case True
    with ok have "pushes_ok n (rr_ring s) (rr_prods s) ?hs ?k" by (simp add: exclusive_ok_def Let_def)
    from pop_starts [OF this quiet act [unfolded True]] kept show ?thesis by (simp add: pop_kept_def)
  next
    case False
    with ok have o: "ring_filled n (rr_ring s) ?hs ?k" "rb_size (rr_ring s) = 0" "pops_ok (rr_ring s) ?hs ?k (rr_cons s)"
      by (simp_all add: exclusive_ok_def Let_def)
    show ?thesis
    proof (cases "\<exists>es. rr_cons s = KDone es")
      case True
      then obtain es where c: "rr_cons s = KDone es" by blast
      with act o(3) have d: "b = rr_ring s" "c = KIdle" "out = drop ?k ?hs" "rb_tail b = of_nat (length ?hs mod rb_cap b)" by auto
      have all: "rr_taken s @ out = ?hs" using t d(3) by (metis append_take_drop_id)
      have "ring_filled n b ?hs (length ?hs)" using o(1) d(1) by (simp add: ring_filled_def)
      moreover have "all_stored b ?hs (length ?hs)" using d(4) by (auto simp: all_stored_def)
      ultimately have "pushes_ok n b (rr_prods s) ?hs (length ?hs)"
        using d(1) o(2) by (simp add: quiet_pushes [OF quiet])
      then show ?thesis using all by (simp add: exclusive_ok_def Let_def act d(2))
    next
      case running: False
      from pop_continues [OF o act] running kept show ?thesis by blast
    qed
  qed
qed

definition exclusive_inv :: "nat \<Rightarrow> 'e ring_race \<Rightarrow> bool" where
  "exclusive_inv n s \<longleftrightarrow> (heads_fit s \<longrightarrow> exclusive_ok n s)"

lemma heads_fit_back: "heads_fit (race_exec ev s) \<Longrightarrow> heads_fit s"
  by (cases ev) (auto simp: heads_fit_def split: prod.splits)

lemma exclusive_inv_step:
  assumes "exclusive_step n s t" "exclusive_inv n s"
  shows "exclusive_inv n t"
  unfolding exclusive_inv_def
proof
  assume fit: "heads_fit t"
  have ok: "exclusive_ok n s" if "heads_fit s" using that assms(2) by (simp add: exclusive_inv_def)
  from assms(1) fit ok show "exclusive_ok n t"
  proof (cases rule: exclusive_step.cases)
    case (call p e)
    with ok fit heads_fit_back show ?thesis by (metis exclusive_call)
  next
    case (push p)
    with ok fit heads_fit_back show ?thesis by (metis exclusive_push)
  next
    case pop
    with ok fit heads_fit_back show ?thesis by (metis exclusive_pop)
  qed
qed

interpretation exclusive: step_invariant "exclusive_step n" "exclusive_inv n" for n
  by unfold_locales (rule exclusive_inv_step)

lemma push_action_cap: "push_action b pc = (b', pc') \<Longrightarrow> rb_cap b' = rb_cap b"
  by (cases pc) (auto simp: Let_def)

lemma pop_action_cap: "pop_action b c = (b', c', out) \<Longrightarrow> rb_cap b' = rb_cap b"
  by (cases c) (auto simp: Let_def)

lemma exclusive_run_cap:
  "(exclusive_step n)\<^sup>*\<^sup>* (race_init (RingBuffer_ctor d capacity)) s \<Longrightarrow> rb_cap (rr_ring s) = unat capacity"
proof (induction rule: rtranclp_induct)
  case base
  then show ?case by (simp add: race_init_def RingBuffer_ctor_def rb_cap_def)
next
  case (step s t)
  from step(2,3) show ?case
    by (induction rule: exclusive_step.induct) (auto split: prod.splits dest: push_action_cap pop_action_cap)
qed

lemma exclusive_init:
  assumes "0 < unat capacity" "unat capacity + n < 2 ^ 63"
  shows "exclusive_inv n (race_init (RingBuffer_ctor d capacity))"
  using assms
  by (simp add: exclusive_inv_def exclusive_ok_def race_init_def RingBuffer_ctor_def pushes_ok_def ring_filled_def
      rb_cap_def at_place_none)

section \<open>Exactly once, in order\<close>

lemma quiet_contents:
  assumes "ring_filled n b hs k" "unat (rb_size b) = length hs - k" "all_stored b hs k"
  shows "rb_contents b = drop k hs"
proof (rule nth_equalityI)
  show "length (rb_contents b) = length (drop k hs)" using assms(2) by simp
  fix i
  assume i: "i < length (rb_contents b)"
  note r = ring_filledD [OF assms(1)]
  have "k mod rb_cap b < rb_cap b" using r(1) by simp
  then have "unat (rb_tail b) = k mod rb_cap b" using assms(3) r(2) by (simp add: all_stored_def unat_of_nat_size)
  then have "rb_contents b ! i = rb_buffer b ! ((k + i) mod rb_cap b)"
    using i by (simp add: rb_contents_def mod_add_left_eq)
  also have "\<dots> = hs ! (k + i)" using assms(2,3) i by (simp add: all_stored_def)
  finally show "rb_contents b ! i = drop k hs ! i" using i assms(2) r(6) by simp
qed

text \<open>
  C20: the fallback buffer is safe for any number of threads that push at the same time, if \<open>popAll\<close> runs
  while no push is under way: at every moment of every such run what \<open>popAll\<close> has returned is a first part
  of the accepted entries in the order in which \<open>head_\<close> was advanced for them, and at most \<open>capacity\<close> are
  missing; \<open>popAll\<close> never throws; and whenever no call is under way, the buffer holds exactly the entries
  that are missing, in order, and \<open>size\<close> is their number.
\<close>

theorem ring_pushes_safe:
  assumes "0 < unat capacity" "unat capacity + n < 2 ^ 63"
    and "(exclusive_step n)\<^sup>*\<^sup>* (race_init (RingBuffer_ctor d capacity)) s" "length (rr_hist s) < 2 ^ 64"
  shows "(\<exists>rest. rr_hist s = rr_taken s @ rest \<and> length rest \<le> unat capacity) \<and> rr_cons s \<noteq> KThrown \<and>
     (rr_cons s = KIdle \<and> (\<forall>p. \<not> push_under_way (rr_prods s p)) \<longrightarrow>
        rr_hist s = rr_taken s @ rb_contents (rr_ring s) \<and>
        unat (RingBuffer_size (rr_ring s)) = length (rb_contents (rr_ring s)))"
proof (intro conjI impI)
  let ?hs = "rr_hist s" and ?k = "length (rr_taken s)"
  have ok: "exclusive_ok n s"
    using exclusive.inv_run [OF assms(3) exclusive_init [OF assms(1,2)]] assms(4)
    by (simp add: exclusive_inv_def heads_fit_def)
  have cap: "rb_cap (rr_ring s) = unat capacity" by (rule exclusive_run_cap [OF assms(3)])
  have f: "ring_filled n (rr_ring s) ?hs ?k" and t: "rr_taken s = take ?k ?hs"
    using ok by (auto simp: exclusive_ok_def Let_def pushes_ok_def split: if_splits)
  have split: "?hs = rr_taken s @ drop ?k ?hs" using t by (metis append_take_drop_id)
  then show "\<exists>rest. ?hs = rr_taken s @ rest \<and> length rest \<le> unat capacity"
    using ring_filledD(7) [OF f] cap by (intro exI [of _ "drop ?k ?hs"]) simp
  show "rr_cons s \<noteq> KThrown" using ok by (auto simp: exclusive_ok_def Let_def)
  assume quiet: "rr_cons s = KIdle \<and> (\<forall>p. \<not> push_under_way (rr_prods s p))"
  with ok have "pushes_ok n (rr_ring s) (rr_prods s) ?hs ?k" by (simp add: exclusive_ok_def Let_def)
  with quiet have "ring_filled n (rr_ring s) ?hs ?k" "unat (rb_size (rr_ring s)) = length ?hs - ?k" "all_stored (rr_ring s) ?hs ?k"
    using quiet_pushes by blast+
  from quiet_contents [OF this] split show "?hs = rr_taken s @ rb_contents (rr_ring s)" by simp
  show "unat (RingBuffer_size (rr_ring s)) = length (rb_contents (rr_ring s))" by (simp add: RingBuffer_size_def)
qed

text \<open>
  Two threads push at the same time, the second one overtakes the first between the counting and the
  advance of the head, a third push is refused, and \<open>popAll\<close> returns both entries.
\<close>

fun may_run :: "nat \<Rightarrow> 'e race_event \<Rightarrow> 'e ring_race \<Rightarrow> bool" where
  "may_run n (Push_call p e) s \<longleftrightarrow> rr_cons s = KIdle \<and> p < n \<and> rr_prods s p = RIdle"
| "may_run n (Push_step p) s \<longleftrightarrow> rr_cons s = KIdle \<and> p < n \<and> rr_prods s p \<noteq> RIdle"
| "may_run n Pop_step s \<longleftrightarrow> (\<forall>p. \<not> push_under_way (rr_prods s p))"

fun exclusive_schedule :: "nat \<Rightarrow> 'e race_event list \<Rightarrow> 'e ring_race \<Rightarrow> 'e ring_race option" where
  "exclusive_schedule n [] s = Some s"
| "exclusive_schedule n (ev # evs) s = (if may_run n ev s then exclusive_schedule n evs (race_exec ev s) else None)"

lemma exclusive_schedule_reach: "exclusive_schedule n evs s = Some t \<Longrightarrow> (exclusive_step n)\<^sup>*\<^sup>* s t"
proof (induction evs arbitrary: s)
  case (Cons ev evs)
  then have run: "may_run n ev s" "exclusive_schedule n evs (race_exec ev s) = Some t"
    by (simp_all del: race_exec.simps split: if_splits)
  from run(1) have "exclusive_step n s (race_exec ev s)"
    by (cases ev) (auto simp del: race_exec.simps intro: exclusive_step.intros)
  from this Cons.IH [OF run(2)] show ?case by (rule converse_rtranclp_into_rtranclp)
qed simp

definition pushes_together :: "char race_event list" where
  "pushes_together = [Push_call 0 CHR ''a'', Push_call 1 CHR ''b'', Push_step 0, Push_step 0, Push_step 1, Push_step 1,
     Push_step 1, Push_step 0, Push_step 0, Push_step 0, Push_call 0 CHR ''c'', Push_step 0, Push_step 1,
     Pop_step, Pop_step, Pop_step, Pop_step, Pop_step, Pop_step]"

theorem ring_pushes_safe_witness:
  "\<exists>s. (exclusive_step 2)\<^sup>*\<^sup>* (race_init (RingBuffer_ctor CHR ''x'' 2)) s \<and> rr_prods s 0 = RDone False \<and>
     rr_prods s 1 = RDone True \<and> rr_taken s = ''ba'' \<and> rr_hist s = rr_taken s @ rb_contents (rr_ring s)"
proof -
  obtain s where run: "exclusive_schedule 2 pushes_together (race_init (RingBuffer_ctor CHR ''x'' 2)) = Some s"
    and s: "length (rr_hist s) < 2 ^ 64" "rr_cons s = KIdle" "\<forall>p. \<not> push_under_way (rr_prods s p)"
      "rr_taken s = ''ba''" "rr_prods s 0 = RDone False" "rr_prods s 1 = RDone True"
    by (simp add: pushes_together_def race_init_def RingBuffer_ctor_def Let_def word_le_nat_alt word_less_nat_alt)
  have "0 < unat (2 :: size_t)" "unat (2 :: size_t) + 2 < 2 ^ 63" by simp_all
  from ring_pushes_safe [OF this exclusive_schedule_reach [OF run] s(1)] s exclusive_schedule_reach [OF run]
  show ?thesis by blast
qed

end
