(* ===== verification/Paths.thy ===== *)
theory Paths
  imports Cxx_String Platform
begin

text \<open>
  The lexical part of \<open>std::filesystem::path\<close> that the program uses, on both platforms:
  root, \<open>filename\<close>, \<open>parent_path\<close>, \<open>is_absolute\<close>, \<open>operator/\<close>. A path is the
  string it was built from; no normalisation takes place.
\<close>

section \<open>Definitions\<close>

definition is_sep :: "platform option \<Rightarrow> char \<Rightarrow> bool" where
  "is_sep pl c \<longleftrightarrow> c = CHR ''/'' \<or> pl = Some Windows \<and> c = CHR 0x5C"

definition preferred_sep :: "platform option \<Rightarrow> char" where
  "preferred_sep pl = (if pl = Some Windows then CHR 0x5C else CHR ''/'')"

definition is_letter :: "char \<Rightarrow> bool" where
  "is_letter c \<longleftrightarrow> 65 \<le> (of_char c :: nat) \<and> (of_char c :: nat) \<le> 90 \<or>
     97 \<le> (of_char c :: nat) \<and> (of_char c :: nat) \<le> 122"

text \<open>Windows root names: a drive or a server; there are none elsewhere.\<close>

definition root_name_length :: "platform option \<Rightarrow> string \<Rightarrow> nat" where
  "root_name_length pl s =
     (if pl \<noteq> Some Windows then 0
      else case s of
        a # b # t \<Rightarrow>
          if is_letter a \<and> b = CHR '':'' then 2
          else if is_sep pl a \<and> is_sep pl b \<and> t \<noteq> [] \<and> \<not> is_sep pl (hd t)
            then 2 + length (takeWhile (\<lambda>c. \<not> is_sep pl c) t)
          else 0
      | _ \<Rightarrow> 0)"

definition root_length :: "platform option \<Rightarrow> string \<Rightarrow> nat" where
  "root_length pl s =
     (let n = root_name_length pl s in n + length (takeWhile (is_sep pl) (drop n s)))"

text \<open>A drive is absolute only with a root directory, a server always.\<close>

definition is_absolute :: "platform option \<Rightarrow> string \<Rightarrow> bool" where
  "is_absolute pl s =
     (let n = root_name_length pl s
      in if pl = Some Windows then n > 0 \<and> (n > 2 \<or> n < length s \<and> is_sep pl (s ! n))
         else s \<noteq> [] \<and> is_sep pl (hd s))"

definition last_part :: "platform option \<Rightarrow> string \<Rightarrow> string" where
  "last_part pl r = rev (takeWhile (\<lambda>c. \<not> is_sep pl c) (rev r))"

definition strip_seps :: "platform option \<Rightarrow> string \<Rightarrow> string" where
  "strip_seps pl r = rev (dropWhile (is_sep pl) (rev r))"

definition filename_of :: "platform option \<Rightarrow> string \<Rightarrow> string" where
  "filename_of pl s = last_part pl (drop (root_length pl s) s)"

definition parent_path :: "platform option \<Rightarrow> string \<Rightarrow> string" where
  "parent_path pl s =
     (let n = root_length pl s; r = drop n s
      in if r = [] then s
         else take n s @ strip_seps pl (take (length r - length (last_part pl r)) r))"

definition path_append :: "platform option \<Rightarrow> string \<Rightarrow> string \<Rightarrow> string" where
  "path_append pl p q =
     (if is_absolute pl q then q
      else if filename_of pl p \<noteq> [] then p @ preferred_sep pl # q else p @ q)"

section \<open>Separators and file names\<close>

lemma last_part_no_sep: "c \<in> set (last_part pl r) \<Longrightarrow> \<not> is_sep pl c"
  by (auto simp: last_part_def dest: set_takeWhileD)

lemma filename_no_sep: "c \<in> set (filename_of pl s) \<Longrightarrow> \<not> is_sep pl c"
  by (auto simp: filename_of_def dest: last_part_no_sep)

lemma absolute_has_sep:
  assumes "is_absolute pl s"
  obtains c where "c \<in> set s" "is_sep pl c"
proof (cases "pl = Some Windows")
  case False
  then show ?thesis using assms that [of "hd s"] by (auto simp: is_absolute_def Let_def)
next
  case True
  let ?n = "root_name_length pl s"
  have pos: "?n > 0" and or: "?n > 2 \<or> ?n < length s \<and> is_sep pl (s ! ?n)"
    using assms True by (auto simp: is_absolute_def Let_def)
  show ?thesis
  proof (cases "?n > 2")
    case False
    then show ?thesis using or that [of "s ! ?n"] by auto
  next
    case big: True
    then obtain a b t where s: "s = a # b # t"
      by (auto simp: root_name_length_def split: list.splits if_splits)
    then have "is_sep pl a" using big True by (auto simp: root_name_length_def split: if_splits)
    then show ?thesis using that [of a] s by simp
  qed
qed

section \<open>Parents\<close>

lemma length_strip_seps: "length (strip_seps pl r) \<le> length r"
  using length_dropWhile_le [of "is_sep pl" "rev r"] by (simp add: strip_seps_def)

lemma strip_seps_shorter:
  assumes "r \<noteq> []" "is_sep pl (last r)"
  shows "length (strip_seps pl r) < length r"
proof -
  have r: "rev r = last r # rev (butlast r)"
    using arg_cong [OF append_butlast_last_id [OF assms(1)], of rev] by simp
  have "dropWhile (is_sep pl) (rev r) = dropWhile (is_sep pl) (rev (butlast r))"
    unfolding r using assms(2) by simp
  then have "length (strip_seps pl r) \<le> length (butlast r)"
    using length_dropWhile_le [of "is_sep pl" "rev (butlast r)"] by (simp add: strip_seps_def)
  moreover have "length (butlast r) < length r" using assms(1) by simp
  ultimately show ?thesis by linarith
qed

lemma length_last_part: "length (last_part pl r) \<le> length r"
  by (simp add: last_part_def) (metis length_rev length_takeWhile_le)

lemma last_part_empty: "r \<noteq> [] \<Longrightarrow> last_part pl r = [] \<Longrightarrow> is_sep pl (last r)"
  by (auto simp: last_part_def takeWhile_eq_Nil_iff hd_rev)

lemma parent_path_shorter: "parent_path pl s \<noteq> s \<Longrightarrow> length (parent_path pl s) < length s"
proof -
  assume ne: "parent_path pl s \<noteq> s"
  let ?n = "root_length pl s" let ?r = "drop ?n s" let ?l = "last_part pl ?r"
  let ?p = "take (length ?r - length ?l) ?r"
  have r: "?r \<noteq> []" using ne by (auto simp: parent_path_def Let_def)
  then have n: "?n < length s" by simp
  have eq: "parent_path pl s = take ?n s @ strip_seps pl ?p" using r by (simp add: parent_path_def Let_def)
  have "length (strip_seps pl ?p) < length ?r"
  proof (cases "?l = []")
    case True
    then have "?p = ?r" by simp
    with strip_seps_shorter [OF r last_part_empty [OF r True]] show ?thesis by simp
  next
    case False
    then have "0 < length ?l" by simp
    then have "length ?p < length ?r" using n by (simp add: diff_less_mono2 del: length_greater_0_conv)
    with length_strip_seps [of pl ?p] show ?thesis by linarith
  qed
  with n show ?thesis unfolding eq by simp
qed

text \<open>The path and all its parents, the innermost first.\<close>

function ancestors :: "platform option \<Rightarrow> string \<Rightarrow> string list" where
  "ancestors pl s = (if parent_path pl s = s \<or> s = [] then [s] else s # ancestors pl (parent_path pl s))"
  by pat_completeness auto
termination
  by (relation "measure (length \<circ> snd)") (auto dest: parent_path_shorter)

declare ancestors.simps [simp del]

lemma self_in_ancestors: "s \<in> set (ancestors pl s)"
  by (subst ancestors.simps) simp

section \<open>Extending a file name\<close>

lemma last_part_append:
  assumes "\<forall>c \<in> set x. \<not> is_sep pl c"
  shows "last_part pl (r @ x) = last_part pl r @ x"
proof -
  have "takeWhile (\<lambda>c. \<not> is_sep pl c) (rev x @ rev r) =
      rev x @ takeWhile (\<lambda>c. \<not> is_sep pl c) (rev r)"
    by (rule takeWhile_append2) (use assms in auto)
  then show ?thesis by (simp add: last_part_def)
qed

lemma posix_root_length:
  assumes "pl \<noteq> Some Windows" "x \<noteq> []" "\<not> is_sep pl (hd x)"
  shows "root_length pl (s @ x) = root_length pl s"
proof -
  have "takeWhile (is_sep pl) x = []" using assms(2,3) by (cases x) auto
  then have "length (takeWhile (is_sep pl) (s @ x)) = length (takeWhile (is_sep pl) s)"
    by (induction s) auto
  then show ?thesis using assms(1) by (simp add: root_length_def root_name_length_def Let_def)
qed

lemma root_length_le: "root_length pl s \<le> length s"
proof -
  have "root_name_length pl s \<le> length s"
    by (auto simp: root_name_length_def length_takeWhile_le le_SucI split: list.splits)
  moreover have "length (takeWhile (is_sep pl) (drop (root_name_length pl s) s)) \<le>
      length s - root_name_length pl s"
    by (metis length_drop length_takeWhile_le)
  ultimately show ?thesis by (simp add: root_length_def Let_def)
qed

text \<open>A suffix without separators leaves the parent directory as it is.\<close>

lemma parent_path_suffix:
  assumes x: "x \<noteq> []" "\<forall>c \<in> set x. \<not> is_sep pl c"
    and root: "root_length pl (s @ x) = root_length pl s"
  shows "parent_path pl (s @ x) = parent_path pl s"
proof -
  let ?n = "root_length pl s" let ?r = "drop ?n s"
  have n: "?n \<le> length s" by (rule root_length_le)
  have l: "length (?r @ x) - length (last_part pl (?r @ x)) = length ?r - length (last_part pl ?r)"
    using length_last_part [of pl ?r] by (simp add: last_part_append [OF x(2)])
  have "parent_path pl (s @ x) =
      take ?n s @ strip_seps pl (take (length ?r - length (last_part pl ?r)) ?r)"
    using x(1) n l by (simp add: parent_path_def root Let_def)
  also have "\<dots> = parent_path pl s"
    using n by (auto simp: parent_path_def Let_def strip_seps_def)
  finally show ?thesis .
qed

lemma posix_parent_suffix:
  "pl \<noteq> Some Windows \<Longrightarrow> x \<noteq> [] \<Longrightarrow> \<forall>c \<in> set x. \<not> is_sep pl c \<Longrightarrow>
     parent_path pl (s @ x) = parent_path pl s"
  by (intro parent_path_suffix posix_root_length) (cases x, auto)

text \<open>
  The same on either platform for an absolute name; on Windows it must have a file name, because the
  name of a server alone would grow with the suffix.
\<close>

definition usable_base :: "platform option \<Rightarrow> string \<Rightarrow> bool" where
  "usable_base pl s \<longleftrightarrow> is_absolute pl s \<and> (pl = Some Windows \<longrightarrow> filename_of pl s \<noteq> [])"

lemma takeWhile_no_new:
  "x \<noteq> [] \<Longrightarrow> \<not> P (hd x) \<Longrightarrow> takeWhile P (s @ x) = takeWhile P s"
  by (induction s) (auto simp: takeWhile_eq_Nil_iff)

lemma root_name_suffix:
  assumes "usable_base (Some Windows) s" "\<forall>c \<in> set x. \<not> is_sep (Some Windows) c"
  shows "root_name_length (Some Windows) (s @ x) = root_name_length (Some Windows) s"
proof -
  let ?sep = "is_sep (Some Windows)"
  from assms(1) have n: "0 < root_name_length (Some Windows) s" and f: "filename_of (Some Windows) s \<noteq> []"
    by (auto simp: usable_base_def is_absolute_def Let_def)
  from n obtain a b t where s: "s = a # b # t" by (auto simp: root_name_length_def split: list.splits)
  show ?thesis
  proof (cases "is_letter a \<and> b = CHR '':''")
    case True
    with s show ?thesis by (auto simp: root_name_length_def)
  next
    case False
    with n s have t: "t \<noteq> []" "\<not> ?sep (hd t)" and n': "root_name_length (Some Windows) s = 2 + length (takeWhile (\<lambda>c. \<not> ?sep c) t)"
      by (auto simp: root_name_length_def split: if_splits)
    have "\<exists>c \<in> set t. ?sep c"
    proof (rule ccontr)
      assume "\<not> ?thesis"
      then have "takeWhile (\<lambda>c. \<not> ?sep c) t = t" by (simp add: takeWhile_eq_all_conv)
      with n' have "root_name_length (Some Windows) s = 2 + length t" by (simp only:)
      then have "root_name_length (Some Windows) s = length s" using s by simp
      then have "filename_of (Some Windows) s = []"
        by (simp add: filename_of_def root_length_def Let_def last_part_def)
      with f show False by simp
    qed
    then have "takeWhile (\<lambda>c. \<not> ?sep c) (t @ x) = takeWhile (\<lambda>c. \<not> ?sep c) t"
      using takeWhile_append1 by metis
    with t s False n n' show ?thesis by (auto simp: root_name_length_def split: if_splits)
  qed
qed

lemma usable_root_length:
  assumes "usable_base pl s" "x \<noteq> []" "\<forall>c \<in> set x. \<not> is_sep pl c"
  shows "root_length pl (s @ x) = root_length pl s"
proof (cases "pl = Some Windows")
  case False
  with assms show ?thesis by (intro posix_root_length) (cases x, auto)
next
  case True
  let ?n = "root_name_length pl s"
  have le: "?n \<le> length s" using root_length_le [of pl s] by (simp add: root_length_def Let_def)
  have "\<not> is_sep pl (hd x)" using assms(2,3) by (cases x) auto
  then have "takeWhile (is_sep pl) (drop ?n s @ x) = takeWhile (is_sep pl) (drop ?n s)"
    using takeWhile_no_new [OF assms(2)] by blast
  with root_name_suffix [of s x] assms True le show ?thesis by (simp add: root_length_def Let_def)
qed

lemma usable_parent_suffix:
  "usable_base pl s \<Longrightarrow> x \<noteq> [] \<Longrightarrow> \<forall>c \<in> set x. \<not> is_sep pl c \<Longrightarrow>
     parent_path pl (s @ x) = parent_path pl s"
  by (intro parent_path_suffix usable_root_length)

lemma usable_parent:
  assumes "usable_base pl s"
  shows "parent_path pl s \<noteq> []"
proof -
  have abs: "is_absolute pl s" using assms by (simp add: usable_base_def)
  then have ne: "s \<noteq> []" by (auto elim: absolute_has_sep)
  have "0 < root_length pl s"
  proof (cases "pl = Some Windows")
    case True
    with abs show ?thesis by (auto simp: is_absolute_def root_length_def Let_def)
  next
    case False
    with abs ne show ?thesis
      by (cases s) (auto simp: is_absolute_def root_length_def root_name_length_def Let_def)
  qed
  with ne show ?thesis by (auto simp: parent_path_def Let_def)
qed

end
