(* ===== verification/Os_Model.thy ===== *)
theory Os_Model
  imports Paths
begin

text \<open>
  What the file manager uses of the C and C++ standard libraries and of the system: files
  and directories, \<open>FILE\<close> streams with their buffer, and the interprocess objects of the
  two platforms. The standard library is modelled; the Windows and POSIX interprocess calls
  and the Windows conversions of names are functions of the \<open>host\<close>, about which nothing
  is assumed here.

  Any call may fail: \<open>os_fails k\<close> says whether call number \<open>k\<close> does, \<open>os_spill k\<close> how many
  buffered bytes a stream hands to the system during call \<open>k\<close>. Abstractions: files are
  named by the text of their path (no links, no normalisation, no case folding), a stream
  names its file by path, and directories are listed in the order of the state, which
  stands for any order.
\<close>

section \<open>The host and the state of the system\<close>

datatype sem_result = Sem_created nat | Sem_exists | Sem_error

record 'k host =
  host_platform :: "platform option"
  MultiByteToWideChar :: "string \<Rightarrow> 16 word list option" \<comment> \<open>with the terminating 0\<close>
  wide_path :: "16 word list \<Rightarrow> string"  \<comment> \<open>the file a wide name names\<close>
  GetFullPathName :: "string \<Rightarrow> string \<Rightarrow> string"
  CreateMutexW :: "16 word list \<Rightarrow> 'k \<Rightarrow> (nat \<times> bool) option \<times> 'k" \<comment> \<open>handle, already existed\<close>
  ReleaseMutex :: "nat \<Rightarrow> 'k \<Rightarrow> 'k"
  CloseHandle :: "nat \<Rightarrow> 'k \<Rightarrow> 'k"
  sem_open_excl :: "string \<Rightarrow> 'k \<Rightarrow> sem_result \<times> 'k"
  sem_open_existing :: "string \<Rightarrow> 'k \<Rightarrow> nat option \<times> 'k"
  sem_trywait :: "nat \<Rightarrow> 'k \<Rightarrow> bool \<times> 'k"
  sem_post :: "nat \<Rightarrow> 'k \<Rightarrow> 'k"
  sem_close :: "nat \<Rightarrow> 'k \<Rightarrow> 'k"
  string_hash :: "string \<Rightarrow> size_t"

abbreviation on_windows :: "'k host \<Rightarrow> bool" where
  "on_windows h \<equiv> host_platform h = Some Windows"

record 'k os =
  os_files :: "(string \<times> string) list"
  os_dirs :: "string list"
  os_cwd :: "string option"
  os_ipc :: 'k
  os_clock :: nat
  os_fails :: "nat \<Rightarrow> bool"
  os_spill :: "nat \<Rightarrow> nat"
  os_durable :: "string \<Rightarrow> nat"   \<comment> \<open>bytes known to be on the device\<close>

text \<open>\<open>signed_overflow\<close> is not an exception but the undefined behaviour of \<open>int\<close> arithmetic.\<close>

datatype exn = filesystem_error | runtime_error | signed_overflow

definition syscall :: "'k os \<Rightarrow> bool \<times> 'k os" where
  "syscall os = (\<not> os_fails os (os_clock os), os\<lparr>os_clock := os_clock os + 1\<rparr>)"

definition spilled :: "'k os \<Rightarrow> nat" where
  "spilled os = os_spill os (os_clock os)"

definition reliable :: "'k os \<Rightarrow> bool" where
  "reliable os \<longleftrightarrow> (\<forall>k. \<not> os_fails os k)"

section \<open>Files and directories\<close>

definition file_content :: "string \<Rightarrow> 'k os \<Rightarrow> string option" where
  "file_content p os = map_of (os_files os) p"

definition is_file :: "string \<Rightarrow> 'k os \<Rightarrow> bool" where
  "is_file p os \<longleftrightarrow> p \<in> fst ` set (os_files os)"

definition is_directory :: "string \<Rightarrow> 'k os \<Rightarrow> bool" where
  "is_directory p os \<longleftrightarrow> p \<in> set (os_dirs os)"

definition append_bytes :: "string \<Rightarrow> string \<Rightarrow> 'k os \<Rightarrow> 'k os" where
  "append_bytes p bytes os =
     os\<lparr>os_files := map (\<lambda>(q, c). if q = p then (q, c @ bytes) else (q, c)) (os_files os)\<rparr>"

text \<open>\<open>fs::exists\<close>, \<open>fs::file_size\<close>, \<open>fs::current_path\<close> and \<open>fs::absolute\<close> throw on errors.\<close>

definition fs_exists :: "string \<Rightarrow> 'k os \<Rightarrow> (exn + bool) \<times> 'k os" where
  "fs_exists p os =
     (let (ok, os) = syscall os
      in (if ok then Inr (is_file p os \<or> is_directory p os) else Inl filesystem_error, os))"

definition fs_file_size :: "string \<Rightarrow> 'k os \<Rightarrow> (exn + nat) \<times> 'k os" where
  "fs_file_size p os =
     (let (ok, os) = syscall os
      in (case file_content p os of
            Some c \<Rightarrow> if ok then Inr (length c) else Inl filesystem_error
          | None \<Rightarrow> Inl filesystem_error, os))"

definition fs_current_path :: "'k os \<Rightarrow> exn + string" where
  "fs_current_path os = (case os_cwd os of Some d \<Rightarrow> Inr d | None \<Rightarrow> Inl filesystem_error)"

definition fs_absolute :: "'k host \<Rightarrow> string \<Rightarrow> 'k os \<Rightarrow> exn + string" where
  "fs_absolute h p os =
     (case fs_current_path os of Inl e \<Rightarrow> Inl e
      | Inr d \<Rightarrow> Inr (if on_windows h then GetFullPathName h d p
                      else path_append (host_platform h) d p))"

text \<open>\<open>fs::create_directories\<close> with an error code: \<open>True\<close> is success.\<close>

definition fs_create_directories :: "'k host \<Rightarrow> string \<Rightarrow> 'k os \<Rightarrow> bool \<times> 'k os" where
  "fs_create_directories h p os =
     (let (ok, os) = syscall os; ds = ancestors (host_platform h) p
      in if \<not> ok \<or> (\<exists>d \<in> set ds. is_file d os) then (False, os)
         else (True, os\<lparr>os_dirs := os_dirs os @ filter (\<lambda>d. d \<notin> set (os_dirs os)) (rev ds)\<rparr>))"

text \<open>\<open>fs::rename\<close> of a file replaces an existing target.\<close>

definition fs_rename :: "'k host \<Rightarrow> string \<Rightarrow> string \<Rightarrow> 'k os \<Rightarrow> bool \<times> 'k os" where
  "fs_rename h p q os =
     (let (ok, os) = syscall os
      in if \<not> ok \<or> \<not> is_file p os \<or> is_directory q os \<or>
            \<not> is_directory (parent_path (host_platform h) q) os then (False, os)
         else if p = q then (True, os)
         else (True, os\<lparr>os_files := map (\<lambda>(r, c). if r = p then (q, c) else (r, c))
                            (filter (\<lambda>(r, c). r \<noteq> q) (os_files os)),
                        os_durable := (os_durable os)(q := os_durable os p, p := 0)\<rparr>))"

definition fs_remove :: "string \<Rightarrow> 'k os \<Rightarrow> 'k os" where
  "fs_remove p os =
     (let (ok, os) = syscall os
      in if ok then os\<lparr>os_files := filter (\<lambda>(q, c). q \<noteq> p) (os_files os)\<rparr> else os)"

definition fs_directory_iterator :: "'k host \<Rightarrow> string \<Rightarrow> 'k os \<Rightarrow> (exn + string list) \<times> 'k os" where
  "fs_directory_iterator h d os =
     (let (ok, os) = syscall os
      in (if ok \<and> is_directory d os
          then Inr (filter (\<lambda>p. parent_path (host_platform h) p = d \<and> p \<noteq> d)
                      (map fst (os_files os) @ os_dirs os))
          else Inl filesystem_error, os))"

section \<open>Streams\<close>

record FILE =
  f_path :: string
  f_pending :: string   \<comment> \<open>written by the program, not yet handed to the system\<close>
  f_fd :: int

text \<open>A Windows stream opened with mode \<open>"a"\<close> is a text stream: a line feed becomes two bytes.\<close>

definition text_bytes :: "'k host \<Rightarrow> string \<Rightarrow> string" where
  "text_bytes h s =
     (if on_windows h then concat (map (\<lambda>c. if c = CHR 0x0A then [CHR 0x0D, CHR 0x0A] else [c]) s) else s)"

definition fopen_append :: "'k host \<Rightarrow> string \<Rightarrow> 'k os \<Rightarrow> FILE option \<times> 'k os" where
  "fopen_append h p os =
     (let (ok, os) = syscall os
      in if \<not> ok \<or> is_directory p os \<or> \<not> is_directory (parent_path (host_platform h) p) os
         then (None, os)
         else (Some \<lparr>f_path = p, f_pending = [], f_fd = 3\<rparr>,
               if is_file p os then os
               else os\<lparr>os_files := os_files os @ [(p, [])], os_durable := (os_durable os)(p := 0)\<rparr>))"

text \<open>
  \<open>fwrite\<close> returns the number of bytes it took, which is short only on an error; part of
  what is buffered may go to the file at once.
\<close>

definition fwrite :: "'k host \<Rightarrow> string \<Rightarrow> FILE \<Rightarrow> 'k os \<Rightarrow> nat \<times> FILE \<times> 'k os" where
  "fwrite h data f os =
     (let m = spilled os; (ok, os) = syscall os;
          n = (if ok then length data else min m (length data - 1));
          buf = f_pending f @ text_bytes h (take n data)
      in (n, f\<lparr>f_pending := drop m buf\<rparr>, append_bytes (f_path f) (take m buf) os))"

definition fflush :: "FILE \<Rightarrow> 'k os \<Rightarrow> bool \<times> FILE \<times> 'k os" where
  "fflush f os =
     (let m = spilled os; (ok, os) = syscall os;
          n = (if ok then length (f_pending f) else m)
      in (ok, f\<lparr>f_pending := drop n (f_pending f)\<rparr>, append_bytes (f_path f) (take n (f_pending f)) os))"

text \<open>\<open>fclose\<close> writes the buffer out; what it cannot write is lost. Its result is not used.\<close>

definition fclose :: "FILE \<Rightarrow> 'k os \<Rightarrow> 'k os" where
  "fclose f os = (case fflush f os of (ok, f, os) \<Rightarrow> os)"

definition fsync :: "FILE \<Rightarrow> 'k os \<Rightarrow> bool \<times> 'k os" where
  "fsync f os =
     (let (ok, os) = syscall os
      in (ok, if ok then os\<lparr>os_durable := (os_durable os)(f_path f :=
                  (case file_content (f_path f) os of Some c \<Rightarrow> length c | None \<Rightarrow> 0))\<rparr>
              else os))"

section \<open>Facts\<close>

named_theorems os_simps \<open>reading the state of the system after an operation\<close>

lemma syscall_simps [os_simps]:
  "fst (syscall os) = (\<not> os_fails os (os_clock os))"
  "snd (syscall os) = os\<lparr>os_clock := os_clock os + 1\<rparr>"
  by (simp_all add: syscall_def)

lemma reliable_ok: "reliable os \<Longrightarrow> \<not> os_fails os k"
  by (simp add: reliable_def)

lemma is_file_content: "is_file p os \<longleftrightarrow> (\<exists>c. file_content p os = Some c)"
  by (auto simp: is_file_def file_content_def dom_map_of_conv_image_fst [symmetric])

lemma map_of_append_at:
  "map_of (map (\<lambda>(q, c). if q = p then (q, c @ b) else (q, c)) xs) r =
     map_option (\<lambda>c. if r = p then c @ b else c) (map_of xs r)"
  by (induction xs) auto

lemma content_append_bytes [os_simps]:
  "file_content r (append_bytes p b os) =
     map_option (\<lambda>c. if r = p then c @ b else c) (file_content r os)"
  by (simp add: file_content_def append_bytes_def map_of_append_at)

lemma append_bytes_nil [simp]: "append_bytes p [] os = os"
proof -
  have "(\<lambda>(q, c). if q = p then (q, c @ []) else (q, c)) = (\<lambda>x. x :: string \<times> string)" by auto
  then show ?thesis by (simp add: append_bytes_def)
qed

lemma append_bytes_fields [os_simps]:
  "os_dirs (append_bytes p b os) = os_dirs os" "os_cwd (append_bytes p b os) = os_cwd os"
  "os_ipc (append_bytes p b os) = os_ipc os" "os_clock (append_bytes p b os) = os_clock os"
  "os_fails (append_bytes p b os) = os_fails os" "os_spill (append_bytes p b os) = os_spill os"
  "os_durable (append_bytes p b os) = os_durable os"
  by (simp_all add: append_bytes_def)

lemma file_content_update [os_simps]:
  "file_content p (os\<lparr>os_clock := k\<rparr>) = file_content p os"
  "file_content p (os\<lparr>os_dirs := ds\<rparr>) = file_content p os"
  "file_content p (os\<lparr>os_durable := du\<rparr>) = file_content p os"
  "file_content p (os\<lparr>os_ipc := i\<rparr>) = file_content p os"
  by (simp_all add: file_content_def)

lemma text_bytes_append: "text_bytes h (a @ b) = text_bytes h a @ text_bytes h b"
  by (simp add: text_bytes_def)

lemma text_bytes_nil: "text_bytes h [] = []"
  by (simp add: text_bytes_def)

lemma text_bytes_posix: "\<not> on_windows h \<Longrightarrow> text_bytes h s = s"
  by (simp add: text_bytes_def)

lemma text_bytes_concat: "text_bytes h (concat ss) = concat (map (text_bytes h) ss)"
  by (induction ss) (auto simp: text_bytes_append text_bytes_def)

text \<open>What a stream has been given: the content of its file followed by its buffer.\<close>

definition stream_content :: "FILE \<Rightarrow> 'k os \<Rightarrow> string option" where
  "stream_content f os = map_option (\<lambda>c. c @ f_pending f) (file_content (f_path f) os)"

lemma fwrite_total:
  assumes "stream_content f os = Some c" "fwrite h data f os = (n, f', os')"
  shows "stream_content f' os' = Some (c @ text_bytes h (take n data)) \<and> f_path f' = f_path f \<and>
     f_fd f' = f_fd f \<and> n \<le> length data \<and> (reliable os \<longrightarrow> n = length data) \<and>
     os_fails os' = os_fails os"
  using assms
  by (auto simp: fwrite_def stream_content_def Let_def reliable_def syscall_def os_simps
      simp del: take_append drop_append)

lemma fflush_total:
  assumes "stream_content f os = Some c" "fflush f os = (ok, f', os')"
  shows "stream_content f' os' = Some c \<and> f_path f' = f_path f \<and> f_fd f' = f_fd f \<and>
     (ok \<longrightarrow> f_pending f' = [] \<and> file_content (f_path f) os' = Some c) \<and>
     (reliable os \<longrightarrow> ok) \<and> os_fails os' = os_fails os"
  using assms
  by (auto simp: fflush_def stream_content_def Let_def reliable_def syscall_def os_simps)

lemma map_of_relabel:
  assumes "p \<noteq> q"
  shows "map_of (map (\<lambda>(r, c). if r = p then (q, c) else (r, c)) (filter (\<lambda>(r, c). r \<noteq> q) xs)) r =
      (if r = p then None else if r = q then map_of xs p else map_of xs r)"
proof (induction xs)
  case Nil
  then show ?case by simp
next
  case (Cons x xs)
  obtain a b where x: "x = (a, b)" by fastforce
  consider "a = q" | "a = p" | "a \<noteq> q" "a \<noteq> p" by blast
  then show ?case using Cons assms unfolding x by cases (simp_all split: if_splits)
qed

lemma rename_content:
  assumes "fs_rename h p q os = (True, os')" "p \<noteq> q"
  shows "file_content q os' = file_content p os" "file_content p os' = None"
    "r \<noteq> p \<Longrightarrow> r \<noteq> q \<Longrightarrow> file_content r os' = file_content r os"
proof -
  have "os' = snd (syscall os)\<lparr>os_files := map (\<lambda>(r, c). if r = p then (q, c) else (r, c))
      (filter (\<lambda>(r, c). r \<noteq> q) (os_files os)), os_durable := (os_durable os)(q := os_durable os p, p := 0)\<rparr>"
    using assms by (auto simp: fs_rename_def syscall_def split: if_splits)
  then have "file_content r os' =
      (if r = p then None else if r = q then file_content p os else file_content r os)" for r
    using assms(2) by (simp add: file_content_def map_of_relabel)
  then show "file_content q os' = file_content p os" "file_content p os' = None"
    "r \<noteq> p \<Longrightarrow> r \<noteq> q \<Longrightarrow> file_content r os' = file_content r os"
    using assms(2) by auto
qed

end
