(* ===== verification/Os_Reliable.thy ===== *)
theory Os_Reliable
  imports Os_Model
begin

text \<open>
  The operations of theory \<open>Os_Model\<close> on a system on which no call fails: each succeeds and
  its effect on the files, the directories and the current directory is one equation.
\<close>

text \<open>What an operation may not change.\<close>

definition same_system :: "'k os \<Rightarrow> 'k os \<Rightarrow> bool" where
  "same_system os os' \<longleftrightarrow> os_dirs os' = os_dirs os \<and> os_cwd os' = os_cwd os \<and>
     os_fails os' = os_fails os \<and> os_spill os' = os_spill os"

lemma same_system_refl [simp]: "same_system os os"
  by (simp add: same_system_def)

lemma same_system_trans: "same_system a b \<Longrightarrow> same_system b c \<Longrightarrow> same_system a c"
  by (simp add: same_system_def)

lemma same_system_keeps:
  assumes "same_system os os'"
  shows "reliable os' = reliable os" "is_directory d os' = is_directory d os" "os_cwd os' = os_cwd os"
  using assms by (simp_all add: same_system_def reliable_def is_directory_def)

lemma syscall_reliable: "reliable os \<Longrightarrow> syscall os = (True, os\<lparr>os_clock := os_clock os + 1\<rparr>)"
  by (simp add: syscall_def reliable_def)

lemma tick_simps:
  "same_system os (os\<lparr>os_clock := k\<rparr>)" "is_file p (os\<lparr>os_clock := k\<rparr>) = is_file p os"
  "is_directory p (os\<lparr>os_clock := k\<rparr>) = is_directory p os"
  by (simp_all add: same_system_def is_file_def is_directory_def)

text \<open>The text of a file, empty when there is none.\<close>

definition text_at :: "string \<Rightarrow> 'k os \<Rightarrow> string" where
  "text_at p os = (case file_content p os of None \<Rightarrow> [] | Some c \<Rightarrow> c)"

lemma exists_reliable:
  assumes "reliable os"
  shows "\<exists>os'. fs_exists p os = (Inr (is_file p os \<or> is_directory p os), os') \<and> same_system os os' \<and>
     (\<forall>q. file_content q os' = file_content q os)"
  using assms by (simp add: fs_exists_def syscall_reliable tick_simps os_simps)

lemma file_size_reliable:
  assumes "reliable os" "file_content p os = Some c"
  shows "\<exists>os'. fs_file_size p os = (Inr (length c), os') \<and> same_system os os' \<and>
     (\<forall>q. file_content q os' = file_content q os)"
  using assms by (simp add: fs_file_size_def syscall_reliable tick_simps os_simps)

lemma create_directories_reliable:
  assumes "reliable os" "\<forall>d \<in> set (ancestors (host_platform h) p). \<not> is_file d os"
  shows "\<exists>os'. fs_create_directories h p os = (True, os') \<and> reliable os' \<and> os_cwd os' = os_cwd os \<and>
     is_directory p os' \<and> (\<forall>d. is_directory d os' = (is_directory d os \<or> d \<in> set (ancestors (host_platform h) p))) \<and>
     (\<forall>q. file_content q os' = file_content q os)"
  using assms self_in_ancestors [of p "host_platform h"]
  by (auto simp: fs_create_directories_def syscall_reliable reliable_def is_directory_def is_file_def os_simps Let_def)

lemma fopen_reliable:
  assumes "reliable os" "\<not> is_directory p os" "is_directory (parent_path (host_platform h) p) os"
  shows "\<exists>os'. fopen_append h p os = (Some \<lparr>f_path = p, f_pending = [], f_fd = 3\<rparr>, os') \<and> same_system os os' \<and>
     file_content p os' = Some (case file_content p os of None \<Rightarrow> [] | Some c \<Rightarrow> c) \<and>
     (\<forall>q. q \<noteq> p \<longrightarrow> file_content q os' = file_content q os)"
proof (cases "is_file p os")
  case True
  then obtain c where "file_content p os = Some c" by (auto simp: is_file_content)
  with True assms show ?thesis by (simp add: fopen_append_def syscall_reliable tick_simps os_simps)
next
  case False
  then have "map_of (os_files os) p = None" by (simp add: is_file_content file_content_def)
  with False assms show ?thesis
    by (auto simp: fopen_append_def syscall_reliable tick_simps same_system_def file_content_def map_add_def
        split: option.splits)
qed

lemma rename_reliable:
  assumes "reliable os" "file_content p os = Some c" "\<not> is_directory q os"
    "is_directory (parent_path (host_platform h) q) os" "p \<noteq> q"
  shows "\<exists>os'. fs_rename h p q os = (True, os') \<and> same_system os os' \<and>
     file_content q os' = Some c \<and> file_content p os' = None \<and>
     (\<forall>r. r \<noteq> p \<and> r \<noteq> q \<longrightarrow> file_content r os' = file_content r os)"
proof -
  have f: "is_file p os" using assms(2) by (simp add: is_file_content)
  obtain os' where r: "fs_rename h p q os = (True, os')" "same_system os os'"
    using assms f by (simp add: fs_rename_def syscall_reliable tick_simps same_system_def)
  from rename_content [OF r(1) assms(5)] r assms(2) show ?thesis by auto
qed

lemma fclose_reliable:
  assumes "reliable os" "stream_content f os = Some c"
  shows "same_system os (fclose f os)" "file_content (f_path f) (fclose f os) = Some c"
    "p \<noteq> f_path f \<Longrightarrow> file_content p (fclose f os) = file_content p os"
proof -
  obtain ok f' os' where fl: "fflush f os = (ok, f', os')" by (metis prod_cases3)
  from fflush_total [OF assms(2) fl] assms(1) have "file_content (f_path f) os' = Some c" by blast
  then show "file_content (f_path f) (fclose f os) = Some c" by (simp add: fclose_def fl)
  show "same_system os (fclose f os)"
    "p \<noteq> f_path f \<Longrightarrow> file_content p (fclose f os) = file_content p os"
    by (auto simp: fclose_def fflush_def syscall_def same_system_def os_simps Let_def option.map_ident)
qed

lemma directory_iterator_reliable:
  assumes "reliable os" "is_directory d os"
  shows "\<exists>ps os'. fs_directory_iterator h d os = (Inr ps, os') \<and> same_system os os' \<and>
     (\<forall>q. file_content q os' = file_content q os)"
  using assms by (simp add: fs_directory_iterator_def syscall_reliable tick_simps os_simps)

end
