(* ===== verification/Process_Lock.thy ===== *)
theory Process_Lock
  imports Os_Model
begin

text \<open>
  The part of \<open>file_manager.cpp\<close> that decides whether another process logs under the same
  name: a named mutex on Windows, a named semaphore on macOS. The handle it keeps is the
  member \<open>mutex_handle_\<close> of the file manager (\<open>None\<close> for a null pointer).
\<close>

section \<open>Wide strings\<close>

definition Utf8ToWideString :: "'k host \<Rightarrow> string \<Rightarrow> exn + 16 word list" where
  "Utf8ToWideString h utf8_string =
     (if utf8_string = [] then Inr []
      else case MultiByteToWideChar h utf8_string of
             None \<Rightarrow> Inl runtime_error
           | Some wide_string \<Rightarrow> Inr wide_string)"

definition wide_c_str :: "16 word list \<Rightarrow> 16 word list" where
  "wide_c_str w = takeWhile (\<lambda>c. c \<noteq> 0) w"

section \<open>The lock\<close>

definition semaphore_name :: "'k host \<Rightarrow> string \<Rightarrow> string" where
  "semaphore_name h filename =
     (let name = ''/SLM_'' @ filename
      in if length name > 30 then
           let truncated_name = substr filename 0 15;
               hash_part = show_nat (unat (string_hash h filename mod 100000))
           in ''/SLM_'' @ truncated_name @ ''_'' @ hash_part
         else name)"

definition IsAnotherProcessLoggingPOSIX ::
  "'k host \<Rightarrow> string \<Rightarrow> nat option \<Rightarrow> 'k os \<Rightarrow> bool \<times> nat option \<times> 'k os" where
  "IsAnotherProcessLoggingPOSIX h filename mutex_handle os =
     (if host_platform h \<noteq> Some MacOS then (False, mutex_handle, os)
      else
        let name = semaphore_name h filename;
            (sem, k) = sem_open_excl h name (os_ipc os)
        in case sem of
             Sem_created s \<Rightarrow> (False, Some s, os\<lparr>os_ipc := k\<rparr>)
           | Sem_error \<Rightarrow> (True, mutex_handle, os\<lparr>os_ipc := k\<rparr>)
           | Sem_exists \<Rightarrow>
               (case sem_open_existing h name k of
                  (None, k) \<Rightarrow> (True, mutex_handle, os\<lparr>os_ipc := k\<rparr>)
                | (Some existing_sem, k) \<Rightarrow>
                    (case sem_trywait h existing_sem k of
                       (True, k) \<Rightarrow>
                         let k = sem_close h existing_sem (sem_post h existing_sem k)
                         in (case sem_open_excl h name k of
                               (Sem_created new_sem, k) \<Rightarrow> (False, Some new_sem, os\<lparr>os_ipc := k\<rparr>)
                             | (_, k) \<Rightarrow> (True, mutex_handle, os\<lparr>os_ipc := k\<rparr>))
                     | (False, k) \<Rightarrow>
                         (True, mutex_handle, os\<lparr>os_ipc := sem_close h existing_sem k\<rparr>))))"

definition mutex_name :: "string \<Rightarrow> string" where
  "mutex_name filename = ''Global'' @ [CHR 0x5C] @ ''SpeckitLogMutex_'' @ filename"

definition IsAnotherProcessLogging ::
  "'k host \<Rightarrow> string \<Rightarrow> nat option \<Rightarrow> 'k os \<Rightarrow> (exn + bool) \<times> nat option \<times> 'k os" where
  "IsAnotherProcessLogging h base_name mutex_handle os =
     (let filename = filename_of (host_platform h) base_name
      in case host_platform h of
           Some Windows \<Rightarrow>
             (case Utf8ToWideString h (mutex_name filename) of
                Inl e \<Rightarrow> (Inr True, mutex_handle, os)
              | Inr wide_mutex_name \<Rightarrow>
                  (case CreateMutexW h (wide_c_str wide_mutex_name) (os_ipc os) of
                     (None, k) \<Rightarrow> (Inr True, mutex_handle, os\<lparr>os_ipc := k\<rparr>)
                   | (Some (hMutex, already_exists), k) \<Rightarrow>
                       if already_exists
                       then (Inr True, mutex_handle, os\<lparr>os_ipc := CloseHandle h hMutex k\<rparr>)
                       else (Inr False, Some hMutex, os\<lparr>os_ipc := k\<rparr>)))
         | Some MacOS \<Rightarrow>
             (case IsAnotherProcessLoggingPOSIX h filename mutex_handle os of
                (b, mutex_handle, os) \<Rightarrow> (Inr b, mutex_handle, os))
         | None \<Rightarrow>
             (case fs_exists (base_name @ ''.log'') os of (r, os) \<Rightarrow> (r, mutex_handle, os)))"

definition CleanupMutex :: "'k host \<Rightarrow> nat option \<Rightarrow> 'k os \<Rightarrow> nat option \<times> 'k os" where
  "CleanupMutex h mutex_handle os =
     (case mutex_handle of None \<Rightarrow> (None, os)
      | Some m \<Rightarrow>
          (case host_platform h of
             Some Windows \<Rightarrow> (None, os\<lparr>os_ipc := CloseHandle h m (ReleaseMutex h m (os_ipc os))\<rparr>)
           | Some MacOS \<Rightarrow> (None, os\<lparr>os_ipc := sem_close h m (os_ipc os)\<rparr>)
           | None \<Rightarrow> (Some m, os)))"

lemma lock_keeps_files:
  "IsAnotherProcessLogging h base m os = (r, m', os') \<Longrightarrow>
     os_files os' = os_files os \<and> os_dirs os' = os_dirs os \<and> os_cwd os' = os_cwd os \<and>
     os_fails os' = os_fails os \<and> os_durable os' = os_durable os \<and> os_spill os' = os_spill os"
  by (auto simp: IsAnotherProcessLogging_def IsAnotherProcessLoggingPOSIX_def fs_exists_def syscall_def Let_def
      split: option.splits platform.splits sum.splits sem_result.splits prod.splits if_splits bool.splits)

lemma lock_no_exception:
  assumes "host_platform h \<noteq> None \<or> reliable os" "IsAnotherProcessLogging h base m os = (r, m', os')"
  shows "\<exists>b. r = Inr b"
  using assms
  by (auto simp: IsAnotherProcessLogging_def IsAnotherProcessLoggingPOSIX_def fs_exists_def syscall_def Let_def reliable_def
      split: option.splits platform.splits sum.splits sem_result.splits prod.splits if_splits bool.splits)

section \<open>The semaphore of macOS\<close>

text \<open>
  What POSIX documents of named semaphores: an exclusive open succeeds only if the name does
  not exist, then the name exists, and nothing but \<open>sem_unlink\<close>, which the code never calls,
  takes a name away.
\<close>

definition sem_laws :: "'k host \<Rightarrow> ('k \<Rightarrow> string set) \<Rightarrow> bool" where
  "sem_laws h names \<longleftrightarrow>
     (\<forall>n k. case sem_open_excl h n k of
        (Sem_created s, k') \<Rightarrow> n \<notin> names k \<and> names k' = insert n (names k)
      | (Sem_exists, k') \<Rightarrow> n \<in> names k \<and> names k' = names k
      | (Sem_error, k') \<Rightarrow> names k' = names k) \<and>
     (\<forall>n k. names (snd (sem_open_existing h n k)) = names k) \<and>
     (\<forall>s k. names (snd (sem_trywait h s k)) = names k) \<and>
     (\<forall>s k. names (sem_post h s k) = names k) \<and> (\<forall>s k. names (sem_close h s k) = names k)"

lemma sem_lawsD:
  assumes "sem_laws h names"
  shows "sem_open_excl h n k = (Sem_created s, k') \<Longrightarrow> n \<notin> names k \<and> names k' = insert n (names k)"
    "sem_open_excl h n k = (Sem_exists, k') \<Longrightarrow> n \<in> names k \<and> names k' = names k"
    "sem_open_excl h n k = (Sem_error, k') \<Longrightarrow> names k' = names k"
    "sem_open_existing h n k = (os, k') \<Longrightarrow> names k' = names k"
    "sem_trywait h s k = (b, k') \<Longrightarrow> names k' = names k"
    "names (sem_post h s k) = names k" "names (sem_close h s k) = names k"
proof -
  have open_excl: "case sem_open_excl h n k of
        (Sem_created s, k') \<Rightarrow> n \<notin> names k \<and> names k' = insert n (names k)
      | (Sem_exists, k') \<Rightarrow> n \<in> names k \<and> names k' = names k
      | (Sem_error, k') \<Rightarrow> names k' = names k"
    using conjunct1 [OF assms [unfolded sem_laws_def]] by (elim allE)
  show "sem_open_excl h n k = (Sem_created s, k') \<Longrightarrow> n \<notin> names k \<and> names k' = insert n (names k)"
    "sem_open_excl h n k = (Sem_exists, k') \<Longrightarrow> n \<in> names k \<and> names k' = names k"
    "sem_open_excl h n k = (Sem_error, k') \<Longrightarrow> names k' = names k"
    using open_excl by simp_all
  have "names (snd (sem_open_existing h n k)) = names k" "names (snd (sem_trywait h s k)) = names k"
    using assms unfolding sem_laws_def by blast+
  then show "sem_open_existing h n k = (os, k') \<Longrightarrow> names k' = names k"
    "sem_trywait h s k = (b, k') \<Longrightarrow> names k' = names k" by auto
  show "names (sem_post h s k) = names k" "names (sem_close h s k) = names k"
    using assms unfolding sem_laws_def by blast+
qed

text \<open>Nobody ever removes a name, and a process that is told it is the first has created it.\<close>

lemma mac_lock_names:
  assumes laws: "sem_laws h names" and mac: "host_platform h = Some MacOS"
    and call: "IsAnotherProcessLoggingPOSIX h f m os = (b, m', os')"
  shows "names (os_ipc os) \<subseteq> names (os_ipc os')"
    "semaphore_name h f \<in> names (os_ipc os) \<Longrightarrow> b \<and> m' = m"
    "\<not> b \<Longrightarrow> semaphore_name h f \<in> names (os_ipc os')"
proof -
  note L = sem_lawsD [OF laws]
  let ?n = "semaphore_name h f" and ?K = "names (os_ipc os)"
  have "?K \<subseteq> names (os_ipc os') \<and> (?n \<in> ?K \<longrightarrow> b \<and> m' = m) \<and> (\<not> b \<longrightarrow> ?n \<in> names (os_ipc os'))"
  proof (cases "sem_open_excl h ?n (os_ipc os)")
    case (Pair sem k1)
    show ?thesis
    proof (cases sem)
      case (Sem_created s)
      with call mac Pair L(1) [of ?n "os_ipc os" s k1] show ?thesis
        by (auto simp: IsAnotherProcessLoggingPOSIX_def)
    next
      case Sem_error
      with call mac Pair L(3) [of ?n "os_ipc os" k1] show ?thesis
        by (auto simp: IsAnotherProcessLoggingPOSIX_def)
    next
      case Sem_exists
      with Pair L(2) have ex: "?n \<in> ?K" "names k1 = ?K" by blast+
      obtain e k2 where o: "sem_open_existing h ?n k1 = (e, k2)" by fastforce
      have k2: "names k2 = ?K" using L(4) [OF o] ex(2) by simp
      show ?thesis
      proof (cases e)
        case None
        with call mac Pair Sem_exists o k2 show ?thesis
          by (auto simp: IsAnotherProcessLoggingPOSIX_def)
      next
        case (Some x)
        obtain t k3 where w: "sem_trywait h x k2 = (t, k3)" by fastforce
        have k3: "names k3 = ?K" using L(5) [OF w] k2 by simp
        define k4 where "k4 = sem_close h x (sem_post h x k3)"
        have k4: "names k4 = ?K" using k3 by (simp add: k4_def L(6,7))
        obtain r k5 where again: "sem_open_excl h ?n k4 = (r, k5)" by fastforce
        have r: "\<not> (\<exists>z. r = Sem_created z)" "names k5 = ?K"
          using again L(1-3) [of ?n k4] ex(1) k4 by (cases r; blast)+
        show ?thesis
          using call mac Pair Sem_exists o Some w again k3 r k4 L(7) [of x k3]
          by (cases t; cases r) (auto simp: IsAnotherProcessLoggingPOSIX_def k4_def [symmetric] Let_def)
      qed
    qed
  qed
  then show "names (os_ipc os) \<subseteq> names (os_ipc os')"
    "semaphore_name h f \<in> names (os_ipc os) \<Longrightarrow> b \<and> m' = m"
    "\<not> b \<Longrightarrow> semaphore_name h f \<in> names (os_ipc os')"
    by auto
qed


lemma mac_lock_taken:
  assumes "sem_laws h names" "host_platform h = Some MacOS"
    "semaphore_name h (filename_of (Some MacOS) base) \<in> names (os_ipc os)"
  shows "\<exists>os'. IsAnotherProcessLogging h base m os = (Inr True, m, os') \<and>
     names (os_ipc os) \<subseteq> names (os_ipc os')"
proof -
  obtain b m' os' where
    c: "IsAnotherProcessLoggingPOSIX h (filename_of (Some MacOS) base) m os = (b, m', os')"
    by (metis prod_cases3)
  from mac_lock_names [OF assms(1,2) c] assms(3)
  have "b" "m' = m" "names (os_ipc os) \<subseteq> names (os_ipc os')" by auto
  with c assms(2) show ?thesis by (simp add: IsAnotherProcessLogging_def)
qed

lemma cleanup_keeps_names:
  "sem_laws h names \<Longrightarrow> host_platform h = Some MacOS \<Longrightarrow>
     names (os_ipc (snd (CleanupMutex h m os))) = names (os_ipc os)"
  by (auto simp: CleanupMutex_def sem_lawsD(7) split: option.splits)

section \<open>The mutex of Windows\<close>

text \<open>
  What Windows documents of named mutexes: \<open>CreateMutexW\<close> reports whether the name existed,
  which it does as long as a handle to it is open, and \<open>CloseHandle\<close> closes one handle.
  \<open>holders\<close> is the open handles with their names.
\<close>

definition mutex_laws :: "'k host \<Rightarrow> ('k \<Rightarrow> (nat \<times> 16 word list) set) \<Rightarrow> bool" where
  "mutex_laws h holders \<longleftrightarrow>
     (\<forall>n k. case CreateMutexW h n k of
        (Some (i, existed), k') \<Rightarrow> existed = (n \<in> snd ` holders k) \<and> i \<notin> fst ` holders k \<and>
          holders k' = insert (i, n) (holders k)
      | (None, k') \<Rightarrow> holders k' = holders k) \<and>
     (\<forall>i k. holders (ReleaseMutex h i k) = holders k) \<and>
     (\<forall>i k. holders (CloseHandle h i k) = {x \<in> holders k. fst x \<noteq> i})"

lemma mutex_lawsD:
  assumes "mutex_laws h holders"
  shows "CreateMutexW h n k = (Some (i, existed), k') \<Longrightarrow> existed = (n \<in> snd ` holders k) \<and>
      i \<notin> fst ` holders k \<and> holders k' = insert (i, n) (holders k)"
    "CreateMutexW h n k = (None, k') \<Longrightarrow> holders k' = holders k"
    "holders (ReleaseMutex h i k) = holders k"
    "holders (CloseHandle h i k) = {x \<in> holders k. fst x \<noteq> i}"
proof -
  have create: "case CreateMutexW h n k of
        (Some (i, existed), k') \<Rightarrow> existed = (n \<in> snd ` holders k) \<and> i \<notin> fst ` holders k \<and>
          holders k' = insert (i, n) (holders k)
      | (None, k') \<Rightarrow> holders k' = holders k"
    using conjunct1 [OF assms [unfolded mutex_laws_def]] by (elim allE)
  show "CreateMutexW h n k = (Some (i, existed), k') \<Longrightarrow> existed = (n \<in> snd ` holders k) \<and>
      i \<notin> fst ` holders k \<and> holders k' = insert (i, n) (holders k)"
    "CreateMutexW h n k = (None, k') \<Longrightarrow> holders k' = holders k"
    using create by simp_all
  show "holders (ReleaseMutex h i k) = holders k"
    "holders (CloseHandle h i k) = {x \<in> holders k. fst x \<noteq> i}"
    using assms unfolding mutex_laws_def by blast+
qed

text \<open>The name the lock of a base name uses, when the conversion succeeds.\<close>

definition wide_lock_name :: "'k host \<Rightarrow> string \<Rightarrow> 16 word list option" where
  "wide_lock_name h base =
     map_option wide_c_str (MultiByteToWideChar h (mutex_name (filename_of (Some Windows) base)))"

lemma win_lock:
  assumes win: "host_platform h = Some Windows" and name: "wide_lock_name h base = Some w"
  shows "IsAnotherProcessLogging h base m os =
     (case CreateMutexW h w (os_ipc os) of
        (None, k) \<Rightarrow> (Inr True, m, os\<lparr>os_ipc := k\<rparr>)
      | (Some (i, existed), k) \<Rightarrow>
          if existed then (Inr True, m, os\<lparr>os_ipc := CloseHandle h i k\<rparr>)
          else (Inr False, Some i, os\<lparr>os_ipc := k\<rparr>))"
proof -
  obtain v where v: "MultiByteToWideChar h (mutex_name (filename_of (Some Windows) base)) = Some v"
    "w = wide_c_str v"
    using name by (auto simp: wide_lock_name_def)
  then have "Utf8ToWideString h (mutex_name (filename_of (Some Windows) base)) = Inr v"
    by (simp add: Utf8ToWideString_def mutex_name_def)
  with win v(2) show ?thesis by (simp add: IsAnotherProcessLogging_def)
qed

lemma win_lock_taken:
  assumes laws: "mutex_laws h holders" and win: "host_platform h = Some Windows"
    and name: "wide_lock_name h base = Some w" and held: "w \<in> snd ` holders (os_ipc os)"
  shows "\<exists>os'. IsAnotherProcessLogging h base m os = (Inr True, m, os') \<and>
     holders (os_ipc os') = holders (os_ipc os)"
proof -
  note L = mutex_lawsD [OF laws]
  obtain r k where c: "CreateMutexW h w (os_ipc os) = (r, k)" by fastforce
  show ?thesis
  proof (cases r)
    case None
    with c L(2) show ?thesis by (simp add: win_lock [OF win name])
  next
    case (Some x)
    obtain i existed where x: "x = (i, existed)" by fastforce
    from L(1) [OF c [unfolded Some x]] held
    have "existed" "i \<notin> fst ` holders (os_ipc os)" "holders k = insert (i, w) (holders (os_ipc os))"
      by auto
    then have "holders (CloseHandle h i k) = holders (os_ipc os)" by (auto simp: L(4) image_iff)
    with c Some x \<open>existed\<close> show ?thesis by (simp add: win_lock [OF win name])
  qed
qed

lemma win_lock_first:
  assumes laws: "mutex_laws h holders" and win: "host_platform h = Some Windows"
    and name: "wide_lock_name h base = Some w"
    and call: "IsAnotherProcessLogging h base m os = (Inr False, m', os')"
  shows "\<exists>i. m' = Some i \<and> i \<notin> fst ` holders (os_ipc os) \<and> w \<notin> snd ` holders (os_ipc os) \<and>
     holders (os_ipc os') = insert (i, w) (holders (os_ipc os))"
proof -
  note L = mutex_lawsD [OF laws]
  obtain r k where c: "CreateMutexW h w (os_ipc os) = (r, k)" by fastforce
  with call obtain i where r: "r = Some (i, False)" "m' = Some i" "os' = os\<lparr>os_ipc := k\<rparr>"
    by (auto simp: win_lock [OF win name] split: option.splits if_splits)
  with L(1) [OF c [unfolded r(1)]] show ?thesis by auto
qed

end
