(* ===== verification/Sample_Host.thy ===== *)
theory Sample_Host
  imports Process_Lock
begin

text \<open>
  A concrete host for the witnesses: file names are bytes, the interprocess state is the open
  mutex handles with their names and the existing semaphore names, and it satisfies the laws
  documented for both platforms.
\<close>

type_synonym sample_ipc = "(nat \<times> 16 word list) list \<times> string list"

definition fresh :: "(nat \<times> 'a) list \<Rightarrow> nat" where
  "fresh k = Suc (foldr (\<lambda>x. max (fst x)) k 0)"

definition sample_host :: "platform option \<Rightarrow> sample_ipc host" where
  "sample_host pl =
     \<lparr>host_platform = pl,
      MultiByteToWideChar = (\<lambda>s. Some (map (\<lambda>c. of_nat (of_char c)) s @ [0])),
      wide_path = map (\<lambda>c. char_of (unat c)),
      GetFullPathName = (\<lambda>d p. d @ CHR 0x5C # p),
      CreateMutexW = (\<lambda>w k. (Some (fresh (fst k), w \<in> snd ` set (fst k)),
          ((fresh (fst k), w) # fst k, snd k))),
      ReleaseMutex = (\<lambda>i k. k),
      CloseHandle = (\<lambda>i k. (filter (\<lambda>x. fst x \<noteq> i) (fst k), snd k)),
      sem_open_excl = (\<lambda>n k. if n \<in> set (snd k) then (Sem_exists, k)
          else (Sem_created 1, (fst k, n # snd k))),
      sem_open_existing = (\<lambda>n k. (if n \<in> set (snd k) then Some 1 else None, k)),
      sem_trywait = (\<lambda>s k. (True, k)),
      sem_post = (\<lambda>s k. k),
      sem_close = (\<lambda>s k. k),
      string_hash = (\<lambda>s. of_nat (length s))\<rparr>"

lemma sample_host_platform [simp]: "host_platform (sample_host pl) = pl"
  by (simp add: sample_host_def)

lemma fresh_new: "fresh k \<notin> fst ` set k"
proof -
  have "fst x < fresh k" if "x \<in> set k" for x
    using that by (induction k) (auto simp: fresh_def)
  then show ?thesis by fastforce
qed

lemma sample_sem_laws: "sem_laws (sample_host pl) (\<lambda>k. set (snd k))"
  by (simp add: sem_laws_def sample_host_def)

lemma sample_mutex_laws: "mutex_laws (sample_host pl) (\<lambda>k. set (fst k))"
  using fresh_new by (auto simp: mutex_laws_def sample_host_def)

definition sample_os :: "(string \<times> string) list \<Rightarrow> string list \<Rightarrow> sample_ipc os" where
  "sample_os files dirs =
     \<lparr>os_files = files, os_dirs = dirs, os_cwd = Some ''/w'', os_ipc = ([], []), os_clock = 0,
      os_fails = (\<lambda>_. False), os_spill = (\<lambda>_. 0), os_durable = (\<lambda>_. 0)\<rparr>"

lemma sample_os_reliable: "reliable (sample_os files dirs)"
  by (simp add: reliable_def sample_os_def)

section \<open>The lock over the life of a process\<close>

text \<open>
  C40: on macOS a lock is never free again: once a process has been told that it is the first
  one and has ended, every later process that asks for the same file name, whatever has
  happened since, is told that another process is logging, because the semaphore is never
  unlinked and the retry after a successful \<open>sem_trywait\<close> is again an exclusive open.
\<close>

theorem mac_lock_never_released:
  assumes "sem_laws h names" "host_platform h = Some MacOS"
    and "IsAnotherProcessLogging h base None os = (Inr False, m1, os1)"
    and "names (os_ipc (snd (CleanupMutex h m1 os1))) \<subseteq> names (os_ipc os2)"
  shows "\<exists>os3. IsAnotherProcessLogging h base None os2 = (Inr True, None, os3)"
proof -
  obtain b m' os' where
    c: "IsAnotherProcessLoggingPOSIX h (filename_of (Some MacOS) base) None os = (b, m', os')"
    by (metis prod_cases3)
  with assms(2,3) have "\<not> b" "os1 = os'" by (auto simp: IsAnotherProcessLogging_def)
  with mac_lock_names(3) [OF assms(1,2) c]
  have "semaphore_name h (filename_of (Some MacOS) base) \<in> names (os_ipc os1)" by simp
  with assms(4) have "semaphore_name h (filename_of (Some MacOS) base) \<in> names (os_ipc os2)"
    using cleanup_keeps_names [OF assms(1,2), of m1 os1] by auto
  with mac_lock_taken [OF assms(1,2) this] show ?thesis by blast
qed

theorem mac_lock_never_released_witness:
  "\<exists>m1 os1 os3. IsAnotherProcessLogging (sample_host (Some MacOS)) ''/w/App'' None (sample_os [] [''/w'']) =
       (Inr False, m1, os1) \<and>
     IsAnotherProcessLogging (sample_host (Some MacOS)) ''/w/App'' None
       (snd (CleanupMutex (sample_host (Some MacOS)) m1 os1)) = (Inr True, None, os3)"
proof -
  obtain m1 os1 where first: "IsAnotherProcessLogging (sample_host (Some MacOS)) ''/w/App'' None
      (sample_os [] [''/w'']) = (Inr False, m1, os1)"
    by (simp add: IsAnotherProcessLogging_def IsAnotherProcessLoggingPOSIX_def sample_host_def sample_os_def)
  from mac_lock_never_released [OF sample_sem_laws sample_host_platform first subset_refl] first
  show ?thesis by blast
qed

text \<open>
  C39: on Windows the lock works: while the process that was told it is the first one holds its
  mutex, every other process is told that another process is logging, and when it ends the
  handles are those from before it started, so the name is free again.
\<close>

theorem win_lock_lifecycle:
  assumes "mutex_laws h holders" "host_platform h = Some Windows" "wide_lock_name h base = Some w"
    and "IsAnotherProcessLogging h base None os = (Inr False, m1, os1)"
    and "holders (os_ipc os1) \<subseteq> holders (os_ipc os2)"
  shows "fst (IsAnotherProcessLogging h base None os2) = Inr True \<and>
     holders (os_ipc (snd (CleanupMutex h m1 os1))) = holders (os_ipc os)"
proof -
  from win_lock_first [OF assms(1-4)] obtain i where i: "m1 = Some i" "i \<notin> fst ` holders (os_ipc os)"
    "holders (os_ipc os1) = insert (i, w) (holders (os_ipc os))" by blast
  have "w \<in> snd ` holders (os_ipc os2)" using i(3) assms(5) by force
  from win_lock_taken [OF assms(1-3) this, of None]
  have "fst (IsAnotherProcessLogging h base None os2) = Inr True" by auto
  moreover have "holders (os_ipc (snd (CleanupMutex h m1 os1))) = holders (os_ipc os)"
    using i assms(2) mutex_lawsD(3,4) [OF assms(1)] by (auto simp: CleanupMutex_def image_iff)
  ultimately show ?thesis by blast
qed

theorem win_lock_lifecycle_witness:
  "\<exists>m1 os1. IsAnotherProcessLogging (sample_host (Some Windows)) ''C:App'' None (sample_os [] []) =
       (Inr False, m1, os1) \<and>
     fst (IsAnotherProcessLogging (sample_host (Some Windows)) ''C:App'' None os1) = Inr True \<and>
     set (fst (os_ipc (snd (CleanupMutex (sample_host (Some Windows)) m1 os1)))) = {}"
proof -
  let ?h = "sample_host (Some Windows)"
  obtain w where w: "wide_lock_name ?h ''C:App'' = Some w"
    by (simp add: wide_lock_name_def sample_host_def)
  obtain m1 os1 where first: "IsAnotherProcessLogging ?h ''C:App'' None (sample_os [] []) = (Inr False, m1, os1)"
    unfolding win_lock [OF sample_host_platform w] by (simp add: sample_host_def sample_os_def)
  from win_lock_lifecycle [OF sample_mutex_laws sample_host_platform w first subset_refl] first
  show ?thesis by (simp add: sample_os_def)
qed

end
