(* ===== verification/File_Manager.thy ===== *)
theory File_Manager
  imports Process_Lock Platform
begin

text \<open>
  The class \<open>FileManager\<close> of \<open>file_manager.h\<close> and \<open>file_manager.cpp\<close>: naming, opening,
  writing, flushing, rotation and retention of log files. Every operation takes the object and
  the state of the system and returns both; \<open>Inl\<close> is an exception that leaves the operation.
\<close>

section \<open>State\<close>

record FileManager =
  fm_base_name :: string
  fm_process_id :: ProcessIdType
  fm_name :: string               \<comment> \<open>\<open>current_file_name_\<close>\<close>
  fm_max_size :: size_t
  fm_retention :: size_t
  fm_size :: size_t               \<comment> \<open>\<open>current_file_size_\<close>\<close>
  fm_initialized :: bool
  fm_file :: "FILE option"
  fm_mutex :: "nat option"

definition FileManager_ctor :: "string \<Rightarrow> FileManager" where
  "FileManager_ctor base_name =
     \<lparr>fm_base_name = base_name, fm_process_id = 0, fm_name = [], fm_max_size = 10 * 1024 * 1024,
      fm_retention = 3, fm_size = 0, fm_initialized = False, fm_file = None, fm_mutex = None\<rparr>"

section \<open>Sequence numbers and historical names\<close>

definition ExtractSequenceNumber :: "string \<Rightarrow> int" where
  "ExtractSequenceNumber filename =
     (let last_dot_pos = find_last_of filename CHR ''.'' npos
      in if last_dot_pos = npos then -1
         else let second_last_dot_pos = find_last_of filename CHR ''.'' (size_sub last_dot_pos 1)
         in if second_last_dot_pos = npos then -1
            else let sequence_str = substr filename (second_last_dot_pos + 1)
                       (size_sub (size_sub last_dot_pos second_last_dot_pos) 1)
                 in case stoi sequence_str of Some v \<Rightarrow> v | None \<Rightarrow> -1)"

definition IsHistoricalLogFile :: "string \<Rightarrow> string \<Rightarrow> bool" where
  "IsHistoricalLogFile filename base_pattern =
     (if find_str filename base_pattern \<noteq> 0 \<or>
         find_str filename ''.log'' \<noteq> size_sub (length filename) 4 then False
      else let remaining = substr filename (length base_pattern) npos;
               dot_pos = find_char remaining CHR ''.''
      in if dot_pos = npos then False
         else let sequence_str = substr remaining 0 dot_pos
         in if sequence_str = [] then False else list_all isdigit sequence_str)"

definition GetHistoricalFiles :: "'k host \<Rightarrow> FileManager \<Rightarrow> 'k os \<Rightarrow> (exn + string list) \<times> 'k os" where
  "GetHistoricalFiles h fm os =
     (case fs_current_path os of Inl e \<Rightarrow> (Inl e, os)
      | Inr d \<Rightarrow>
          (case fs_directory_iterator h d os of
             (Inl e, os) \<Rightarrow> (Inl e, os)
           | (Inr ps, os) \<Rightarrow>
               (Inr (filter (\<lambda>p. IsHistoricalLogFile (filename_of (host_platform h) p)
                                   (fm_base_name fm @ ''.'')) ps), os)))"

text \<open>\<open>None\<close> is the overflow of \<open>max_sequence + 1\<close>.\<close>

definition CalculateNextSequenceNumber :: "string list \<Rightarrow> int option" where
  "CalculateNextSequenceNumber historical_files =
     (if historical_files = [] then Some 1
      else let max_sequence = fold (\<lambda>file m. let sequence = ExtractSequenceNumber file
                                              in if sequence > m then sequence else m)
                                   historical_files 0
           in if max_sequence = 2147483647 then None else Some (max_sequence + 1))"

fun min_scan :: "('a \<Rightarrow> 'a \<Rightarrow> bool) \<Rightarrow> 'a \<Rightarrow> nat \<Rightarrow> nat \<Rightarrow> 'a list \<Rightarrow> nat" where
  "min_scan lt smallest r i [] = r"
| "min_scan lt smallest r i (x # xs) =
     (if lt x smallest then min_scan lt x i (Suc i) xs else min_scan lt smallest r (Suc i) xs)"

fun min_element :: "('a \<Rightarrow> 'a \<Rightarrow> bool) \<Rightarrow> 'a list \<Rightarrow> nat" where
  "min_element lt [] = 0"
| "min_element lt (x # xs) = min_scan lt x 0 1 xs"

text \<open>The position of the iterator; the length of the list is \<open>end()\<close>.\<close>

definition FindOldestHistoricalFile :: "string list \<Rightarrow> nat" where
  "FindOldestHistoricalFile historical_files =
     min_element (\<lambda>a b. ExtractSequenceNumber a < ExtractSequenceNumber b) historical_files"

lemma min_scan_less: "r < n \<Longrightarrow> i + length xs = n \<Longrightarrow> min_scan lt x r i xs < n"
  by (induction xs arbitrary: x r i) auto

lemma FindOldest_less: "files \<noteq> [] \<Longrightarrow> FindOldestHistoricalFile files < length files"
  by (cases files) (auto simp: FindOldestHistoricalFile_def intro: min_scan_less)

function delete_oldest :: "nat \<Rightarrow> string list \<Rightarrow> 'k os \<Rightarrow> string list \<times> 'k os" where
  "delete_oldest retention historical_files os =
     (if length historical_files > retention then
        let oldest_it = FindOldestHistoricalFile historical_files
        in if oldest_it \<noteq> length historical_files then
             delete_oldest retention
               (take oldest_it historical_files @ drop (Suc oldest_it) historical_files)
               (fs_remove (historical_files ! oldest_it) os)
           else delete_oldest retention historical_files os
      else (historical_files, os))"
  by pat_completeness auto
termination
proof (relation "measure (\<lambda>(r, files, os). length files)", goal_cases)
  case 1
  then show ?case by simp
next
  case (2 retention files os i)
  then have "files \<noteq> []" by auto
  with 2 have "i < length files" using FindOldest_less [of files] by simp
  then show ?case by simp
next
  case (3 retention files os i)
  then have "files \<noteq> []" by auto
  with 3 show ?case using FindOldest_less [of files] by simp
qed

declare delete_oldest.simps [simp del]

definition DeleteOldestFiles :: "'k host \<Rightarrow> FileManager \<Rightarrow> 'k os \<Rightarrow> (exn + unit) \<times> 'k os" where
  "DeleteOldestFiles h fm os =
     (case GetHistoricalFiles h fm os of
        (Inl e, os) \<Rightarrow> (Inl e, os)
      | (Inr historical_files, os) \<Rightarrow>
          (Inr (), snd (delete_oldest (unat (fm_retention fm)) historical_files os)))"

section \<open>Opening and closing\<close>

definition CloseCurrentFile :: "FileManager \<Rightarrow> 'k os \<Rightarrow> FileManager \<times> 'k os" where
  "CloseCurrentFile fm os =
     (case fm_file fm of None \<Rightarrow> (fm, os)
      | Some f \<Rightarrow> (fm\<lparr>fm_file := None\<rparr>, fclose f os))"

definition FileManager_dtor :: "'k host \<Rightarrow> FileManager \<Rightarrow> 'k os \<Rightarrow> FileManager \<times> 'k os" where
  "FileManager_dtor h fm os =
     (let (fm, os) = CloseCurrentFile fm os; (m, os) = CleanupMutex h (fm_mutex fm) os
      in (fm\<lparr>fm_mutex := m\<rparr>, os))"

definition EnsureParentDirectoryExists :: "'k host \<Rightarrow> string \<Rightarrow> 'k os \<Rightarrow> (exn + bool) \<times> 'k os" where
  "EnsureParentDirectoryExists h base_path os =
     (let parent_dir = parent_path (host_platform h) base_path
      in if parent_dir = [] then (Inr True, os)
         else case fs_exists parent_dir os of
                (Inl e, os) \<Rightarrow> (Inl e, os)
              | (Inr True, os) \<Rightarrow> (Inr True, os)
              | (Inr False, os) \<Rightarrow>
                  (case fs_create_directories h parent_dir os of (ok, os) \<Rightarrow> (Inr ok, os)))"

definition GenerateFileName :: "'k host \<Rightarrow> bool \<Rightarrow> FileManager \<Rightarrow> string" where
  "GenerateFileName h first_process fm =
     (if first_process then fm_base_name fm @ ''.log''
      else fm_base_name fm @ ''_'' @
        show_int (pid_value (case host_platform h of Some p \<Rightarrow> p | None \<Rightarrow> MacOS) (fm_process_id fm)) @
        ''.log'')"

definition OpenLogFile :: "'k host \<Rightarrow> FileManager \<Rightarrow> 'k os \<Rightarrow> bool \<times> FileManager \<times> 'k os" where
  "OpenLogFile h fm os =
     (if on_windows h then
        (case Utf8ToWideString h (fm_name fm) of
           Inl e \<Rightarrow> (False, fm\<lparr>fm_file := None\<rparr>, os)
         | Inr wide \<Rightarrow>
             (case fopen_append h (wide_path h (wide_c_str wide)) os of
                (f, os) \<Rightarrow> (f \<noteq> None, fm\<lparr>fm_file := f\<rparr>, os)))
      else (case fopen_append h (fm_name fm) os of
              (f, os) \<Rightarrow> (f \<noteq> None, fm\<lparr>fm_file := f\<rparr>, os)))"

definition UpdateCurrentFileSize :: "FileManager \<Rightarrow> 'k os \<Rightarrow> (exn + unit) \<times> FileManager \<times> 'k os" where
  "UpdateCurrentFileSize fm os =
     (case fs_exists (fm_name fm) os of
        (Inl e, os) \<Rightarrow> (Inl e, fm, os)
      | (Inr False, os) \<Rightarrow> (Inr (), fm, os)
      | (Inr True, os) \<Rightarrow>
          (case fs_file_size (fm_name fm) os of
             (Inl e, os) \<Rightarrow> (Inl e, fm, os)
           | (Inr n, os) \<Rightarrow> (Inr (), fm\<lparr>fm_size := of_nat n\<rparr>, os)))"

text \<open>The steps of \<open>Initialize\<close> from the lock on.\<close>

definition choose_and_open :: "'k host \<Rightarrow> FileManager \<Rightarrow> 'k os \<Rightarrow> (exn + bool) \<times> FileManager \<times> 'k os" where
  "choose_and_open h fm os =
     (case IsAnotherProcessLogging h (fm_base_name fm) (fm_mutex fm) os of
        (Inl e, m, os) \<Rightarrow> (Inl e, fm\<lparr>fm_mutex := m\<rparr>, os)
      | (Inr another, m, os) \<Rightarrow>
          (let fm = fm\<lparr>fm_mutex := m\<rparr>; fm = fm\<lparr>fm_name := GenerateFileName h (\<not> another) fm\<rparr>
           in case OpenLogFile h fm os of
                (False, fm, os) \<Rightarrow> (Inr False, fm, os)
              | (True, fm, os) \<Rightarrow>
                  (case UpdateCurrentFileSize fm os of
                     (Inl e, fm, os) \<Rightarrow> (Inl e, fm, os)
                   | (Inr _, fm, os) \<Rightarrow> (Inr True, fm\<lparr>fm_initialized := True\<rparr>, os))))"

definition Initialize ::
  "'k host \<Rightarrow> ProcessIdType \<Rightarrow> FileManager \<Rightarrow> 'k os \<Rightarrow> (exn + bool) \<times> FileManager \<times> 'k os" where
  "Initialize h process_id fm os =
     (if fm_initialized fm then (Inr True, fm, os)
      else
        let fm = fm\<lparr>fm_process_id := process_id\<rparr>
        in case (if is_absolute (host_platform h) (fm_base_name fm) then Inr (fm_base_name fm)
                 else fs_absolute h (fm_base_name fm) os) of
             Inl e \<Rightarrow> (Inl e, fm, os)
           | Inr base_path \<Rightarrow>
               (let fm = fm\<lparr>fm_base_name := base_path\<rparr>
                in case EnsureParentDirectoryExists h base_path os of
                     (Inl e, os) \<Rightarrow> (Inl e, fm, os)
                   | (Inr False, os) \<Rightarrow> (Inr False, fm, os)
                   | (Inr True, os) \<Rightarrow> choose_and_open h fm os))"

section \<open>Writing\<close>

definition ShouldFlushToFile :: "FileManager \<Rightarrow> bool" where
  "ShouldFlushToFile fm \<longleftrightarrow> fm_size fm mod (1024 * 1024) = 0"

definition FlushToFile :: "'k host \<Rightarrow> FILE \<Rightarrow> 'k os \<Rightarrow> bool \<times> FILE \<times> 'k os" where
  "FlushToFile h f os =
     (if on_windows h then fflush f os
      else case fflush f os of
             (False, f, os) \<Rightarrow> (False, f, os)
           | (True, f, os) \<Rightarrow>
               if f_fd f < 0 then (False, f, os)
               else (case fsync f os of (ok, os) \<Rightarrow> (ok, f, os)))"

definition Write :: "'k host \<Rightarrow> string \<Rightarrow> FileManager \<Rightarrow> 'k os \<Rightarrow> bool \<times> FileManager \<times> 'k os" where
  "Write h data fm os =
     (case fm_file fm of None \<Rightarrow> (False, fm, os)
      | Some f \<Rightarrow>
          (case fwrite h data f os of
             (written, f, os) \<Rightarrow>
               let fm = fm\<lparr>fm_file := Some f\<rparr>
               in if written \<noteq> length data then (False, fm, os)
                  else let fm = fm\<lparr>fm_size := fm_size fm + of_nat (length data)\<rparr>
                       in if ShouldFlushToFile fm
                          then (case FlushToFile h f os of
                                  (ok, f, os) \<Rightarrow> (ok, fm\<lparr>fm_file := Some f\<rparr>, os))
                          else (True, fm, os)))"

definition Flush :: "'k host \<Rightarrow> FileManager \<Rightarrow> 'k os \<Rightarrow> bool \<times> FileManager \<times> 'k os" where
  "Flush h fm os =
     (case fm_file fm of None \<Rightarrow> (False, fm, os)
      | Some f \<Rightarrow>
          (case FlushToFile h f os of (ok, f, os) \<Rightarrow> (ok, fm\<lparr>fm_file := Some f\<rparr>, os)))"

section \<open>Rotation\<close>

definition NeedsRotation :: "FileManager \<Rightarrow> bool" where
  "NeedsRotation fm \<longleftrightarrow> fm_size fm \<ge> fm_max_size fm"

definition SequenceName :: "FileManager \<Rightarrow> int \<Rightarrow> string" where
  "SequenceName fm sequence = fm_base_name fm @ ''.'' @ show_int sequence @ ''.log''"

definition RenameWithSequence :: "'k host \<Rightarrow> FileManager \<Rightarrow> int \<Rightarrow> 'k os \<Rightarrow> bool \<times> 'k os" where
  "RenameWithSequence h fm sequence os = fs_rename h (fm_name fm) (SequenceName fm sequence) os"

text \<open>The end of \<open>Rotate\<close>, once the current file has been renamed.\<close>

definition reopen_after_rename :: "'k host \<Rightarrow> FileManager \<Rightarrow> 'k os \<Rightarrow> (exn + bool) \<times> FileManager \<times> 'k os" where
  "reopen_after_rename h fm os =
     (case DeleteOldestFiles h fm os of
        (Inl e, os) \<Rightarrow> (Inl e, fm, os)
      | (Inr _, os) \<Rightarrow>
          (let fm = fm\<lparr>fm_name := GenerateFileName h True fm\<rparr>
           in case OpenLogFile h fm os of
                (False, fm, os) \<Rightarrow> (Inr False, fm, os)
              | (True, fm, os) \<Rightarrow> (Inr True, fm\<lparr>fm_size := 0\<rparr>, os)))"

definition Rotate :: "'k host \<Rightarrow> FileManager \<Rightarrow> 'k os \<Rightarrow> (exn + bool) \<times> FileManager \<times> 'k os" where
  "Rotate h fm os =
     (if fm_file fm = None then (Inr False, fm, os)
      else
        let (fm, os) = CloseCurrentFile fm os
        in case GetHistoricalFiles h fm os of
             (Inl e, os) \<Rightarrow> (Inl e, fm, os)
           | (Inr historical_files, os) \<Rightarrow>
               (case CalculateNextSequenceNumber historical_files of
                  None \<Rightarrow> (Inl signed_overflow, fm, os)
                | Some next_sequence \<Rightarrow>
                    (case RenameWithSequence h fm next_sequence os of
                       (False, os) \<Rightarrow> (Inr False, fm, os)
                     | (True, os) \<Rightarrow> reopen_after_rename h fm os)))"

definition SetMaxFileSize :: "size_t \<Rightarrow> FileManager \<Rightarrow> FileManager" where
  "SetMaxFileSize max_size fm = fm\<lparr>fm_max_size := max_size\<rparr>"

definition SetRetentionCount :: "size_t \<Rightarrow> FileManager \<Rightarrow> FileManager" where
  "SetRetentionCount count fm = fm\<lparr>fm_retention := count\<rparr>"

definition GetLogFileName :: "FileManager \<Rightarrow> string" where
  "GetLogFileName fm = fm_name fm"

end
