(* ===== verification/Log_Sink.thy ===== *)
theory Log_Sink
  imports Prelude
begin

text \<open>
  The contract the logger and the C bridge rely on when they write: a sink that takes texts
  and keeps them in order, and whose \<open>flush\<close> hands everything to the file. \<open>encode\<close> is what
  the platform makes of the text.
\<close>

fun write_list :: "(string \<Rightarrow> 's \<Rightarrow> bool \<times> 's) \<Rightarrow> string list \<Rightarrow> 's \<Rightarrow> bool list \<times> 's" where
  "write_list put [] s = ([], s)"
| "write_list put (d # ds) s =
     (let (b, s) = put d s; (bs, s) = write_list put ds s in (b # bs, s))"

locale log_sink =
  fixes put :: "string \<Rightarrow> 's \<Rightarrow> bool \<times> 's"
    and flush :: "'s \<Rightarrow> bool \<times> 's"
    and content :: "'s \<Rightarrow> string option"
    and on_disk :: "'s \<Rightarrow> string option"
    and encode :: "string \<Rightarrow> string"
    and ready :: "'s \<Rightarrow> bool"
  assumes put_appends: "ready s \<Longrightarrow> content s = Some c \<Longrightarrow>
      \<exists>s'. put d s = (True, s') \<and> ready s' \<and> content s' = Some (c @ encode d)"
    and flush_hands_over: "ready s \<Longrightarrow> content s = Some c \<Longrightarrow>
      \<exists>s'. flush s = (True, s') \<and> ready s' \<and> content s' = Some c \<and> on_disk s' = Some c"
    and encode_nil: "encode [] = []"
    and encode_append: "encode (a @ b) = encode a @ encode b"
begin

lemma write_list_content:
  assumes "ready s" "content s = Some c"
  shows "\<exists>s'. write_list put ds s = (replicate (length ds) True, s') \<and> ready s' \<and>
     content s' = Some (c @ encode (concat ds))"
  using assms
proof (induction ds arbitrary: s c)
  case Nil
  then show ?case by (simp add: encode_nil)
next
  case (Cons d ds)
  from put_appends [OF Cons.prems, of d] obtain s1 where
    s1: "put d s = (True, s1)" "ready s1" "content s1 = Some (c @ encode d)" by blast
  from Cons.IH [OF s1(2,3)] obtain s2 where
    "write_list put ds s1 = (replicate (length ds) True, s2)" "ready s2"
    "content s2 = Some ((c @ encode d) @ encode (concat ds))" by blast
  with s1(1) show ?case by (simp add: encode_append)
qed

lemma write_list_flush:
  assumes "ready s" "content s = Some c"
  shows "\<exists>s' s''. write_list put ds s = (replicate (length ds) True, s') \<and> flush s' = (True, s'') \<and>
     ready s'' \<and> on_disk s'' = Some (c @ encode (concat ds))"
  using write_list_content [OF assms, of ds] flush_hands_over by metis

end

end
