(* ===== verification/File_Write.thy ===== *)
theory File_Write
  imports File_Manager Log_Sink Sample_Host
begin

text \<open>
  What \<open>Write\<close> and \<open>Flush\<close> of the file manager do to the file, with and without faults of
  the system, the interpretation of the sink contract, and the size that decides on rotation.
\<close>

section \<open>One operation\<close>

lemma fsync_simps:
  "fsync f os = (ok, os') \<Longrightarrow> file_content p os' = file_content p os \<and> os_fails os' = os_fails os \<and>
     ok = (\<not> os_fails os (os_clock os)) \<and>
     os_durable os' = (if ok then (os_durable os)(f_path f :=
        (case file_content (f_path f) os of Some c \<Rightarrow> length c | None \<Rightarrow> 0)) else os_durable os)"
  by (auto simp: fsync_def syscall_def os_simps)

lemma stream_content_file: "f_pending f = [] \<Longrightarrow> stream_content f os = file_content (f_path f) os"
  by (cases "file_content (f_path f) os") (auto simp: stream_content_def)

lemma FlushToFile_total:
  assumes c: "stream_content f os = Some c" and call: "FlushToFile h f os = (ok, f', os')"
  shows "stream_content f' os' = Some c \<and> f_path f' = f_path f \<and> f_fd f' = f_fd f \<and>
     os_fails os' = os_fails os \<and> (reliable os \<and> 0 \<le> f_fd f \<longrightarrow> ok) \<and>
     (ok \<longrightarrow> f_pending f' = [] \<and> file_content (f_path f) os' = Some c \<and>
       (\<not> on_windows h \<longrightarrow> os_durable os' (f_path f) = length c))"
proof -
  obtain b f1 os1 where fl: "fflush f os = (b, f1, os1)" by (metis prod_cases3)
  note T = fflush_total [OF c fl]
  show ?thesis
  proof (cases "on_windows h")
    case True
    then show ?thesis using T fl call by (auto simp: FlushToFile_def)
  next
    case posix: False
    show ?thesis
    proof (cases "b \<and> 0 \<le> f_fd f1")
      case False
      then have "ok = False" "f' = f1" "os' = os1"
        using posix fl call by (auto simp: FlushToFile_def split: bool.splits if_splits)
      then show ?thesis using T False by auto
    next
      case True
      obtain s os2 where fs: "fsync f1 os1 = (s, os2)" by fastforce
      from True posix fl call fs have e: "ok = s" "f' = f1" "os' = os2"
        by (auto simp: FlushToFile_def)
      show ?thesis
        using T True fsync_simps [OF fs, of "f_path f"] e
        by (auto simp: stream_content_def reliable_def)
    qed
  qed
qed

text \<open>What the object has been given so far, and what of it is in the file.\<close>

definition fm_content :: "FileManager \<times> 'k os \<Rightarrow> string option" where
  "fm_content = (\<lambda>(fm, os). case fm_file fm of None \<Rightarrow> None | Some f \<Rightarrow> stream_content f os)"

definition fm_on_disk :: "FileManager \<times> 'k os \<Rightarrow> string option" where
  "fm_on_disk = (\<lambda>(fm, os). case fm_file fm of None \<Rightarrow> None | Some f \<Rightarrow> file_content (f_path f) os)"

definition fm_ready :: "FileManager \<times> 'k os \<Rightarrow> bool" where
  "fm_ready = (\<lambda>(fm, os). reliable os \<and> (case fm_file fm of None \<Rightarrow> False | Some f \<Rightarrow> 0 \<le> f_fd f))"

text \<open>The parts of the object that writing leaves alone.\<close>

definition same_object :: "FileManager \<Rightarrow> FileManager \<Rightarrow> bool" where
  "same_object fm fm' \<longleftrightarrow> fm_base_name fm' = fm_base_name fm \<and> fm_process_id fm' = fm_process_id fm \<and>
     fm_name fm' = fm_name fm \<and> fm_max_size fm' = fm_max_size fm \<and> fm_retention fm' = fm_retention fm \<and>
     fm_initialized fm' = fm_initialized fm \<and> fm_mutex fm' = fm_mutex fm \<and>
     map_option f_path (fm_file fm') = map_option f_path (fm_file fm) \<and>
     map_option f_fd (fm_file fm') = map_option f_fd (fm_file fm)"

lemma Write_total:
  assumes c: "fm_content (fm, os) = Some c" and call: "Write h data fm os = (ok, fm', os')"
  shows "\<exists>n. n \<le> length data \<and> fm_content (fm', os') = Some (c @ text_bytes h (take n data)) \<and>
     same_object fm fm' \<and> os_fails os' = os_fails os \<and>
     (ok \<longrightarrow> n = length data) \<and> (fm_ready (fm, os) \<longrightarrow> ok) \<and>
     fm_size fm' = (if n = length data then fm_size fm + of_nat n else fm_size fm)"
proof -
  obtain f where f: "fm_file fm = Some f" "stream_content f os = Some c"
    using c by (auto simp: fm_content_def split: option.splits)
  obtain n f1 os1 where w: "fwrite h data f os = (n, f1, os1)" by (metis prod_cases3)
  note W = fwrite_total [OF f(2) w]
  let ?fm = "fm\<lparr>fm_file := Some f1, fm_size := fm_size fm + of_nat (length data)\<rparr>"
  show ?thesis
  proof (cases "n = length data")
    case False
    with call f(1) w have "ok = False" "fm' = fm\<lparr>fm_file := Some f1\<rparr>" "os' = os1"
      by (auto simp: Write_def)
    then show ?thesis using W False f(1)
      by (intro exI [of _ n]) (auto simp: fm_content_def fm_ready_def same_object_def)
  next
    case all: True
    show ?thesis
    proof (cases "ShouldFlushToFile ?fm")
      case False
      with all call f(1) w have "ok" "fm' = ?fm" "os' = os1" by (auto simp: Write_def)
      then show ?thesis using W all f(1)
        by (intro exI [of _ n]) (auto simp: fm_content_def fm_ready_def same_object_def)
    next
      case True
      obtain b f2 os2 where fl: "FlushToFile h f1 os1 = (b, f2, os2)" by (metis prod_cases3)
      with True all call f(1) w have e: "ok = b" "fm' = ?fm\<lparr>fm_file := Some f2\<rparr>" "os' = os2"
        by (auto simp: Write_def)
      have s1: "stream_content f1 os1 = Some (c @ text_bytes h (take n data))" using W by blast
      note F = FlushToFile_total [OF s1 fl]
      show ?thesis unfolding e using W F all f(1)
        by (intro exI [of _ n]) (auto simp: fm_content_def fm_ready_def same_object_def reliable_def)
    qed
  qed
qed

lemma Flush_total:
  assumes c: "fm_content (fm, os) = Some c" and call: "Flush h fm os = (ok, fm', os')"
  shows "fm_content (fm', os') = Some c \<and> same_object fm fm' \<and> fm_size fm' = fm_size fm \<and>
     os_fails os' = os_fails os \<and> (fm_ready (fm, os) \<longrightarrow> ok) \<and>
     (ok \<longrightarrow> fm_on_disk (fm', os') = Some c \<and>
       (\<not> on_windows h \<longrightarrow> (\<forall>f. fm_file fm' = Some f \<longrightarrow> os_durable os' (f_path f) = length c)))"
proof -
  obtain f where f: "fm_file fm = Some f" "stream_content f os = Some c"
    using c by (auto simp: fm_content_def split: option.splits)
  obtain b f1 os1 where fl: "FlushToFile h f os = (b, f1, os1)" by (metis prod_cases3)
  with call f(1) have e: "ok = b" "fm' = fm\<lparr>fm_file := Some f1\<rparr>" "os' = os1"
    by (auto simp: Flush_def)
  show ?thesis unfolding e using FlushToFile_total [OF f(2) fl] f(1)
    by (auto simp: fm_content_def fm_on_disk_def fm_ready_def same_object_def)
qed


lemma fm_ready_kept:
  "fm_ready (fm, os) \<Longrightarrow> same_object fm fm' \<Longrightarrow> os_fails os' = os_fails os \<Longrightarrow> fm_ready (fm', os')"
  by (auto simp: fm_ready_def same_object_def reliable_def split: option.splits)

section \<open>The sink contract\<close>

definition fm_write :: "'k host \<Rightarrow> string \<Rightarrow> FileManager \<times> 'k os \<Rightarrow> bool \<times> FileManager \<times> 'k os" where
  "fm_write h d = (\<lambda>(fm, os). Write h d fm os)"

lemma fm_write_pair: "fm_write h d (fm, os) = Write h d fm os"
  by (simp add: fm_write_def)

definition fm_flush :: "'k host \<Rightarrow> FileManager \<times> 'k os \<Rightarrow> bool \<times> FileManager \<times> 'k os" where
  "fm_flush h = (\<lambda>(fm, os). Flush h fm os)"

lemma fm_write_appends:
  assumes "fm_ready s" "fm_content s = Some c"
  shows "\<exists>s'. fm_write h d s = (True, s') \<and> fm_ready s' \<and> fm_content s' = Some (c @ text_bytes h d)"
proof -
  obtain fm os where s: "s = (fm, os)" by fastforce
  obtain ok fm' os' where w: "Write h d fm os = (ok, fm', os')" by (metis prod_cases3)
  from Write_total [OF assms(2) [unfolded s] w] assms(1) s
  have "ok" "fm_content (fm', os') = Some (c @ text_bytes h d)" "same_object fm fm'" "os_fails os' = os_fails os"
    by auto
  then show ?thesis using w s assms(1) fm_ready_kept by (auto simp: fm_write_def)
qed

lemma fm_flush_hands_over:
  assumes "fm_ready s" "fm_content s = Some c"
  shows "\<exists>s'. fm_flush h s = (True, s') \<and> fm_ready s' \<and> fm_content s' = Some c \<and> fm_on_disk s' = Some c"
proof -
  obtain fm os where s: "s = (fm, os)" by fastforce
  obtain ok fm' os' where w: "Flush h fm os = (ok, fm', os')" by (metis prod_cases3)
  from Flush_total [OF assms(2) [unfolded s] w] assms(1) s
  have "ok" "fm_content (fm', os') = Some c" "same_object fm fm'" "os_fails os' = os_fails os"
    "fm_on_disk (fm', os') = Some c"
    by auto
  then show ?thesis using w s assms(1) fm_ready_kept by (auto simp: fm_flush_def)
qed

interpretation sink: log_sink "fm_write h" "fm_flush h" fm_content fm_on_disk "text_bytes h" fm_ready
  for h :: "'k host"
  by unfold_locales (simp_all only: fm_write_appends fm_flush_hands_over text_bytes_append text_bytes_nil)

section \<open>Properties\<close>

text \<open>A file manager with its file open, for the witnesses.\<close>

definition open_fm :: FileManager where
  "open_fm = (FileManager_ctor ''/w/App'')\<lparr>fm_name := ''/w/App.log'', fm_initialized := True,
     fm_file := Some \<lparr>f_path = ''/w/App.log'', f_pending = [], f_fd = 3\<rparr>\<rparr>"

lemma open_fm_content:
  "fm_content (open_fm, sample_os [(''/w/App.log'', c)] dirs) = Some c"
  by (simp add: fm_content_def open_fm_def stream_content_def file_content_def sample_os_def)

lemma open_fm_ready: "fm_ready (open_fm, sample_os files dirs)"
  by (simp add: fm_ready_def open_fm_def sample_os_reliable)

text \<open>
  C22: \<open>Write\<close> under any fault of the system: if it returns true, exactly the data has been
  appended to what the stream was given before and the size has grown by its length; if it
  returns false, a prefix of the data has been appended and nothing else; no other part of the
  object changes, and without faults it returns true.
\<close>

theorem write_appends:
  assumes "fm_content (fm, os) = Some c" "Write h data fm os = (ok, fm', os')"
  shows "\<exists>n. n \<le> length data \<and> fm_content (fm', os') = Some (c @ text_bytes h (take n data)) \<and>
     same_object fm fm' \<and> (ok \<longrightarrow> n = length data) \<and> (fm_ready (fm, os) \<longrightarrow> ok) \<and>
     fm_size fm' = (if n = length data then fm_size fm + of_nat n else fm_size fm)"
  using Write_total [OF assms] by blast

theorem write_appends_witness:
  "\<exists>fm os. Write (sample_host (Some MacOS)) ''ab'' open_fm (sample_os [(''/w/App.log'', ''x'')] [''/w'']) =
       (True, fm, os) \<and> fm_content (fm, os) = Some ''xab'' \<and> fm_size fm = 2"
proof -
  let ?os = "sample_os [(''/w/App.log'', ''x'')] [''/w'']"
  obtain ok fm os where w: "Write (sample_host (Some MacOS)) ''ab'' open_fm ?os = (ok, fm, os)"
    by (metis prod_cases3)
  from write_appends [OF open_fm_content w] open_fm_ready [of "[(''/w/App.log'', ''x'')]" "[''/w'']"]
  have "ok" "fm_content (fm, os) = Some ''xab''" "fm_size fm = 2"
    by (auto simp: text_bytes_def open_fm_def FileManager_ctor_def)
  then show ?thesis using w by auto
qed

text \<open>
  C25: what \<open>Flush\<close> promises, under any fault: if it returns true, everything written so far
  is in the file and the buffer is empty; where \<open>fsync\<close> is called, which is everywhere but on
  Windows, it is also on the device. Whatever it returns, nothing is lost or added.
\<close>

theorem flush_makes_durable:
  assumes "fm_content (fm, os) = Some c" "Flush h fm os = (ok, fm', os')"
  shows "fm_content (fm', os') = Some c \<and> (ok \<longrightarrow> fm_on_disk (fm', os') = Some c) \<and>
     (ok \<and> \<not> on_windows h \<longrightarrow> (\<forall>f. fm_file fm' = Some f \<longrightarrow> os_durable os' (f_path f) = length c)) \<and>
     (fm_ready (fm, os) \<longrightarrow> ok)"
  using Flush_total [OF assms] by blast

theorem flush_makes_durable_witness:
  "\<exists>fm os. Flush (sample_host (Some MacOS)) open_fm (sample_os [(''/w/App.log'', ''abc'')] [''/w'']) =
       (True, fm, os) \<and> fm_on_disk (fm, os) = Some ''abc''"
proof -
  let ?os = "sample_os [(''/w/App.log'', ''abc'')] [''/w'']"
  obtain ok fm os where w: "Flush (sample_host (Some MacOS)) open_fm ?os = (ok, fm, os)"
    by (metis prod_cases3)
  from flush_makes_durable [OF open_fm_content w] open_fm_ready [of "[(''/w/App.log'', ''abc'')]" "[''/w'']"]
  have "ok" "fm_on_disk (fm, os) = Some ''abc''" by auto
  then show ?thesis using w by auto
qed

text \<open>
  On Windows \<open>Flush\<close> returns true although nothing has reached the device: it empties the
  stream's buffer and leaves the durable part of every file as it was.
\<close>

theorem windows_flush_not_durable:
  assumes "fm_ready (fm, os)" "on_windows h"
  shows "\<exists>fm' os'. Flush h fm os = (True, fm', os') \<and> os_durable os' = os_durable os"
proof -
  obtain f where f: "fm_file fm = Some f" "reliable os"
    using assms(1) by (auto simp: fm_ready_def split: option.splits)
  then show ?thesis using assms(2)
    by (simp add: Flush_def FlushToFile_def fflush_def syscall_def Let_def reliable_ok os_simps)
qed

theorem windows_flush_not_durable_witness:
  "\<exists>fm os. Flush (sample_host (Some Windows)) open_fm (sample_os [(''/w/App.log'', ''abc'')] []) = (True, fm, os) \<and>
     os_durable os = (\<lambda>_. 0)"
  using windows_flush_not_durable [OF open_fm_ready sample_host_platform, of "[(''/w/App.log'', ''abc'')]" "[]"]
  by (simp add: sample_os_def)

lemma write_list_size:
  assumes "fm_ready (fm, os)" "fm_content (fm, os) = Some c"
  shows "\<exists>fm' os'. write_list (fm_write h) ds (fm, os) = (replicate (length ds) True, fm', os') \<and>
     same_object fm fm' \<and> fm_content (fm', os') = Some (c @ text_bytes h (concat ds)) \<and>
     fm_size fm' = fm_size fm + of_nat (length (concat ds))"
  using assms
proof (induction ds arbitrary: fm os c)
  case Nil
  then show ?case by (simp add: same_object_def sink.encode_nil)
next
  case (Cons d ds)
  obtain ok fm1 os1 where w: "Write h d fm os = (ok, fm1, os1)" by (metis prod_cases3)
  from Write_total [OF Cons.prems(2) w] Cons.prems(1)
  have 1: "ok" "fm_content (fm1, os1) = Some (c @ text_bytes h d)" "same_object fm fm1"
    "os_fails os1 = os_fails os" "fm_size fm1 = fm_size fm + of_nat (length d)" by auto
  from Cons.IH [OF fm_ready_kept [OF Cons.prems(1) 1(3,4)] 1(2)] obtain fm2 os2 where
    "write_list (fm_write h) ds (fm1, os1) = (replicate (length ds) True, fm2, os2)"
    "same_object fm1 fm2" "fm_content (fm2, os2) = Some ((c @ text_bytes h d) @ text_bytes h (concat ds))"
    "fm_size fm2 = fm_size fm1 + of_nat (length (concat ds))" by blast
  with w 1 show ?case
    by (intro exI [of _ fm2] exI [of _ os2])
      (simp add: fm_write_pair text_bytes_append same_object_def add.assoc)
qed

text \<open>
  C29: rotation is decided on the true size where a stream does not translate line ends: after
  any number of writes to a file whose size was known, \<open>NeedsRotation\<close> holds exactly when the
  bytes given to the file have reached the limit.
\<close>

theorem rotation_decided_on_true_size:
  assumes "fm_ready (fm, os)" "fm_content (fm, os) = Some c" "\<not> on_windows h"
    and "fm_size fm = of_nat (length c)" "length c + length (concat ds) < 2 ^ 64"
  shows "\<exists>fm' os'. write_list (fm_write h) ds (fm, os) = (replicate (length ds) True, fm', os') \<and>
     fm_content (fm', os') = Some (c @ concat ds) \<and>
     NeedsRotation fm' = (length (c @ concat ds) \<ge> unat (fm_max_size fm))"
proof -
  from write_list_size [OF assms(1,2), of h ds] obtain fm' os' where
    w: "write_list (fm_write h) ds (fm, os) = (replicate (length ds) True, fm', os')"
      "same_object fm fm'" "fm_content (fm', os') = Some (c @ text_bytes h (concat ds))"
      "fm_size fm' = fm_size fm + of_nat (length (concat ds))" by blast
  then have "fm_size fm' = of_nat (length (c @ concat ds))" using assms(4) by simp
  then have "unat (fm_size fm') = length (c @ concat ds)"
    using assms(5) by (simp add: unat_of_nat_size del: of_nat_add)
  then have "NeedsRotation fm' = (length (c @ concat ds) \<ge> unat (fm_max_size fm))"
    using w(2) by (simp add: NeedsRotation_def same_object_def word_le_nat_alt)
  with w assms(3) show ?thesis by (auto simp: text_bytes_posix)
qed

theorem rotation_decided_on_true_size_witness:
  "\<exists>fm os. write_list (fm_write (sample_host (Some MacOS))) [''abc'', ''de'']
       (open_fm\<lparr>fm_max_size := 6, fm_size := 1\<rparr>, sample_os [(''/w/App.log'', ''x'')] [''/w'']) = ([True, True], fm, os) \<and>
     fm_content (fm, os) = Some ''xabcde'' \<and> NeedsRotation fm"
proof -
  let ?fm = "open_fm\<lparr>fm_max_size := 6, fm_size := 1\<rparr>" let ?os = "sample_os [(''/w/App.log'', ''x'')] [''/w'']"
  have "fm_ready (?fm, ?os)" "fm_content (?fm, ?os) = Some ''x''" "\<not> on_windows (sample_host (Some MacOS))"
    "fm_size ?fm = of_nat (length ''x'')" "length ''x'' + length (concat [''abc'', ''de'']) < 2 ^ 64"
    using open_fm_ready [of "[(''/w/App.log'', ''x'')]" "[''/w'']"] open_fm_content [of "''x''" "[''/w'']"]
    by (simp_all add: fm_ready_def fm_content_def)
  from rotation_decided_on_true_size [OF this] show ?thesis by auto
qed

text \<open>
  On Windows the size undercounts: the stream is a text stream, so every line feed takes
  two bytes of the file and one of the count that decides on rotation.
\<close>

theorem windows_size_undercounts:
  assumes "fm_ready (fm, os)" "fm_content (fm, os) = Some c" "on_windows h"
    and "fm_size fm = of_nat (length c)"
  shows "\<exists>fm' os' c'. write_list (fm_write h) ds (fm, os) = (replicate (length ds) True, fm', os') \<and>
     fm_content (fm', os') = Some c' \<and>
     of_nat (length c') = fm_size fm' + of_nat (length (filter (\<lambda>x. x = CHR 0x0A) (concat ds)))"
proof -
  have len: "length (text_bytes h s) = length s + length (filter (\<lambda>x. x = CHR 0x0A) s)" for s
    using assms(3) by (induction s) (auto simp: text_bytes_def)
  from write_list_size [OF assms(1,2), of h ds] obtain fm' os' where
    "write_list (fm_write h) ds (fm, os) = (replicate (length ds) True, fm', os')"
      "fm_content (fm', os') = Some (c @ text_bytes h (concat ds))"
      "fm_size fm' = fm_size fm + of_nat (length (concat ds))" by blast
  then show ?thesis using assms(4) by (simp add: len)
qed

theorem windows_size_undercounts_witness:
  "\<exists>fm os c. write_list (fm_write (sample_host (Some Windows))) [''a'' @ [CHR 0x0A]]
       (open_fm, sample_os [(''/w/App.log'', [])] []) = ([True], fm, os) \<and>
     fm_content (fm, os) = Some c \<and> of_nat (length c) = fm_size fm + 1"
proof -
  have size: "fm_size open_fm = of_nat (length [])" by (simp add: open_fm_def FileManager_ctor_def)
  have eval: "replicate (length [''a'' @ [CHR 0x0A]]) True = [True]"
    "of_nat (length (filter (\<lambda>x. x = CHR 0x0A) (concat [''a'' @ [CHR 0x0A]]))) = (1 :: size_t)"
    by simp_all
  from windows_size_undercounts [OF open_fm_ready open_fm_content sample_host_platform size,
      of "[''a'' @ [CHR 0x0A]]" "[]"]
  show ?thesis unfolding eval by blast
qed


section \<open>Periodic flushing\<close>

lemma odd_not_mebibyte:
  assumes "odd (unat (w :: size_t))"
  shows "w mod (1024 * 1024) \<noteq> 0"
proof
  assume "w mod (1024 * 1024) = 0"
  then have "unat (w mod (1024 * 1024)) = 0" by simp
  then have "unat w mod 1048576 = 0" by (simp add: unat_mod_size)
  then have "1048576 dvd unat w" by (simp add: dvd_eq_mod_eq_0)
  moreover have "(2 :: nat) dvd 1048576" by simp
  ultimately have "2 dvd unat w" by (rule dvd_trans [rotated])
  with assms show False by simp
qed

lemma unat_add_even:
  assumes "even n"
  shows "odd (unat (w + of_nat n :: size_t)) = odd (unat w)"
proof -
  have "unat (w + of_nat n :: size_t) = (unat w + n) mod 2 ^ 64"
    by (simp add: unat_word_ariths unat_of_nat take_bit_eq_mod mod_simps)
  moreover have "odd ((unat w + n) mod 2 ^ 64) = odd (unat w + n)"
    by (subst dvd_mod_iff) simp_all
  ultimately show ?thesis using assms by simp
qed

lemma Write_unflushed:
  assumes ready: "fm_ready (fm, os)" and c: "fm_content (fm, os) = Some c"
    and spill: "\<forall>k. os_spill os k = 0" and size: "odd (unat (fm_size fm))" "even (length d)"
  shows "\<exists>fm' os'. Write h d fm os = (True, fm', os') \<and> fm_ready (fm', os') \<and>
     fm_content (fm', os') = Some (c @ text_bytes h d) \<and> fm_on_disk (fm', os') = fm_on_disk (fm, os) \<and>
     (\<forall>k. os_spill os' k = 0) \<and> odd (unat (fm_size fm'))"
proof -
  obtain f where f: "fm_file fm = Some f" "stream_content f os = Some c"
    using c by (auto simp: fm_content_def split: option.splits)
  let ?f = "f\<lparr>f_pending := f_pending f @ text_bytes h d\<rparr>"
  let ?fm = "fm\<lparr>fm_file := Some ?f, fm_size := fm_size fm + of_nat (length d)\<rparr>"
  let ?os = "os\<lparr>os_clock := os_clock os + 1\<rparr>"
  have "fwrite h d f os = (length d, ?f, ?os)"
    using ready spill by (simp add: fwrite_def spilled_def syscall_def fm_ready_def reliable_ok)
  moreover have "\<not> ShouldFlushToFile ?fm"
    using odd_not_mebibyte [of "fm_size fm + of_nat (length d)"] unat_add_even [OF size(2)] size(1)
    by (simp add: ShouldFlushToFile_def)
  ultimately have "Write h d fm os = (True, ?fm, ?os)" using f(1) by (simp add: Write_def)
  moreover have "odd (unat (fm_size ?fm))" using unat_add_even [OF size(2)] size(1) by simp
  ultimately show ?thesis using ready f spill
    by (auto simp: fm_ready_def fm_content_def fm_on_disk_def stream_content_def reliable_def os_simps)
qed

text \<open>
  The periodic flush, which is meant to happen every 1 MiB, happens only when the size hits
  an exact multiple of 1 MiB: in a file of odd size, lines of even length never trigger it,
  however many are written, and with a stream that keeps what it is given nothing at all
  reaches the file.
\<close>

theorem periodic_flush_never_happens:
  assumes "fm_ready (fm, os)" "fm_content (fm, os) = Some c" "\<forall>k. os_spill os k = 0"
    and "odd (unat (fm_size fm))" "\<forall>d \<in> set ds. even (length d)"
  shows "\<exists>fm' os'. write_list (fm_write h) ds (fm, os) = (replicate (length ds) True, fm', os') \<and>
     fm_content (fm', os') = Some (c @ text_bytes h (concat ds)) \<and>
     fm_on_disk (fm', os') = fm_on_disk (fm, os)"
  using assms
proof (induction ds arbitrary: fm os c)
  case Nil
  then show ?case by (simp add: text_bytes_nil)
next
  case (Cons d ds)
  from Write_unflushed [OF Cons.prems(1-4), of d h] Cons.prems(5) obtain fm1 os1 where
    w: "Write h d fm os = (True, fm1, os1)" "fm_ready (fm1, os1)"
      "fm_content (fm1, os1) = Some (c @ text_bytes h d)" "fm_on_disk (fm1, os1) = fm_on_disk (fm, os)"
      "\<forall>k. os_spill os1 k = 0" "odd (unat (fm_size fm1))" by auto
  from Cons.IH [OF w(2,3,5,6)] Cons.prems(5) obtain fm2 os2 where
    "write_list (fm_write h) ds (fm1, os1) = (replicate (length ds) True, fm2, os2)"
    "fm_content (fm2, os2) = Some ((c @ text_bytes h d) @ text_bytes h (concat ds))"
    "fm_on_disk (fm2, os2) = fm_on_disk (fm1, os1)" by auto
  with w(1,4) show ?case
    by (intro exI [of _ fm2] exI [of _ os2]) (simp add: fm_write_pair text_bytes_append)
qed

theorem periodic_flush_never_happens_witness:
  "\<exists>fm os. write_list (fm_write (sample_host (Some MacOS))) (replicate 2000000 ''ab'')
       (open_fm\<lparr>fm_size := 1\<rparr>, sample_os [(''/w/App.log'', ''x'')] [''/w'']) = (replicate 2000000 True, fm, os) \<and>
     fm_on_disk (fm, os) = Some ''x''"
proof -
  let ?fm = "open_fm\<lparr>fm_size := 1\<rparr>" let ?os = "sample_os [(''/w/App.log'', ''x'')] [''/w'']"
  let ?ds = "replicate 2000000 ''ab''"
  have 1: "fm_ready (?fm, ?os)" "fm_content (?fm, ?os) = Some ''x''"
    using open_fm_ready [of "[(''/w/App.log'', ''x'')]" "[''/w'']"] open_fm_content [of "''x''" "[''/w'']"]
    by (simp_all add: fm_ready_def fm_content_def)
  have 2: "\<forall>k. os_spill ?os k = 0" "odd (unat (fm_size ?fm))" by (simp_all add: sample_os_def)
  have 3: "\<forall>d \<in> set ?ds. even (length d)" by simp
  have 4: "fm_on_disk (?fm, ?os) = Some ''x''" "length ?ds = 2000000"
    by (simp_all only: length_replicate) (simp add: fm_on_disk_def open_fm_def sample_os_def file_content_def)
  from periodic_flush_never_happens [OF 1 2 3, of "sample_host (Some MacOS)"]
  show ?thesis unfolding 4 by blast
qed

end
