(* ===== verification/Retention.thy ===== *)
theory Retention
  imports File_Manager Sample_Host "HOL-Library.Multiset"
begin

text \<open>
  Historical log files: which names are recognised, which number a name carries, which files
  retention deletes, and that none of this ever sees a file once the base name is absolute.
\<close>

section \<open>Recognised names\<close>

lemma occurs_at_nth: "occurs_at s p j \<Longrightarrow> k < length p \<Longrightarrow> j + k < length s \<and> s ! (j + k) = p ! k"
proof -
  assume o: "occurs_at s p j" and k: "k < length p"
  then have t: "take (length p) (drop j s) = p" by (simp add: occurs_at_def)
  then have "length (take (length p) (drop j s)) = length p" by simp
  then have "j + k < length s" using k by auto
  moreover have "take (length p) (drop j s) ! k = s ! (j + k)" using k calculation by simp
  ultimately show ?thesis using t by simp
qed

lemma find_str_npos: "fits s \<Longrightarrow> find_str s p = npos \<Longrightarrow> j \<le> length s \<Longrightarrow> \<not> occurs_at s p j"
proof
  assume s: "fits s" "find_str s p = npos" "j \<le> length s" "occurs_at s p j"
  have "find (occurs_at s p) [0..<Suc (length s)] \<noteq> None" 
    unfolding find_None_iff using s(3,4) by (metis atLeast0LessThan atLeast_upt lessThan_iff less_Suc_eq_le)
  then obtain i where i: "find (occurs_at s p) [0..<Suc (length s)] = Some i" by blast
  then have "i < Suc (length s)" using find_SomeD [OF i] by auto
  moreover have "find_str s p = i" using i by (simp add: find_str_def)
  ultimately show False using s(1,2) by simp
qed

lemma first_log_suffix:
  assumes base: "fits base" "find_str base ''.log'' = npos"
    and ds: "ds \<noteq> []" "\<forall>c \<in> set ds. isdigit c"
  shows "find_str (base @ ''.'' @ ds @ ''.log'') ''.log'' = length base + 1 + length ds"
proof -
  let ?s = "base @ ''.'' @ ds @ ''.log''" let ?n = "length base + 1 + length ds"
  have at: "occurs_at ?s ''.log'' ?n" by (simp add: occurs_at_def)
  have none: "\<not> occurs_at ?s ''.log'' j" if j: "j < ?n" for j
  proof
    assume o: "occurs_at ?s ''.log'' j"
    have chars: "?s ! j = CHR ''.''" "?s ! (j + 1) = CHR ''l''" "?s ! (j + 2) = CHR ''o''" "?s ! (j + 3) = CHR ''g''"
      using occurs_at_nth [OF o, of 0] occurs_at_nth [OF o, of 1] occurs_at_nth [OF o, of 2] occurs_at_nth [OF o, of 3]
      by (simp_all add: numeral_2_eq_2 numeral_3_eq_3)
    have dot: "?s ! length base = CHR ''.''" by (simp add: nth_append)
    have digit: "isdigit (?s ! k)" if "length base < k" "k < ?n" for k
      using that ds(2) by (auto simp: nth_append nth_Cons' )
    consider "j + 4 \<le> length base" | "length base \<in> {j + 1, j + 2, j + 3}" | "j = length base" | "length base < j"
      by fastforce
    then show False
    proof cases
      case 1
      then have "occurs_at base ''.log'' j" using o by (simp add: occurs_at_def)
      with find_str_npos [OF base, of j] 1 show False by simp
    next
      case 2
      then have "length base = Suc j \<or> length base = j + 2 \<or> length base = j + 3" by auto
      with dot chars(2-4) show False by (auto simp del: nth_append_length simp flip: Suc_eq_plus1)
    next
      case 3
      then have "isdigit CHR ''l''" using digit [of "j + 1"] chars(2) ds(1) by simp
      then show False by (simp add: isdigit_def)
    next
      case 4
      then have "isdigit CHR ''.''" using digit [of j] chars(1) j by simp
      then show False by (simp add: isdigit_def)
    qed
  qed
  have "find (occurs_at ?s ''.log'') [0..<Suc (length ?s)] = Some ?n"
    by (rule find_upt_Some) (use at none in auto)
  then show ?thesis by (simp add: find_str_def)
qed

lemma historical_name:
  assumes base: "find_str base ''.log'' = npos" and len: "length base + length ds + 5 < npos"
    and ds: "ds \<noteq> []" "\<forall>c \<in> set ds. isdigit c"
  shows "IsHistoricalLogFile (base @ ''.'' @ ds @ ''.log'') (base @ ''.'')"
proof -
  let ?s = "base @ ''.'' @ ds @ ''.log''"
  have fits: "fits base" using len by simp
  have 0: "find_str ?s (base @ ''.'') = 0" by (simp add: find_str_eq_0)
  have sub: "size_sub (length ?s) 4 = length base + 1 + length ds"
    using len by (subst size_sub_le) auto
  have rest: "substr ?s (length (base @ ''.'')) npos = ds @ CHR ''.'' # ''log''"
    using len by (simp add: substr_def)
  have nodot: "CHR ''.'' \<notin> set ds" using ds(2) isdigit_not_special(4) by blast
  have "length ds \<noteq> npos" using len by simp
  then show ?thesis
    unfolding IsHistoricalLogFile_def 0 sub first_log_suffix [OF fits base ds] rest Let_def
      find_char_append [OF nodot]
    using ds by (simp add: substr_def list_all_iff)
qed

lemma sequence_of_name:
  assumes "length p + length ds + 5 < npos" "ds \<noteq> []" "\<forall>c \<in> set ds. isdigit c"
    "digits_value 0 ds \<le> 2147483647"
  shows "ExtractSequenceNumber (p @ ''.'' @ ds @ ''.log'') = int (digits_value 0 ds)"
proof -
  let ?s = "p @ ''.'' @ ds @ ''.log''"
  have nodot: "CHR ''.'' \<notin> set ds" using assms(3) isdigit_not_special(4) by blast
  have last: "find_last_of ?s CHR ''.'' npos = length p + 1 + length ds"
    using find_last_of_append [of "CHR ''.''" "''log''" "p @ CHR ''.'' # ds" npos] assms(1) by simp
  have sub: "size_sub (length p + 1 + length ds) 1 = length p + length ds"
    "size_sub (length p + 1 + length ds) (length p) = 1 + length ds" "size_sub (1 + length ds) 1 = length ds"
    using assms(1) by (simp_all add: size_sub_le)
  have second: "find_last_of ?s CHR ''.'' (length p + length ds) = length p"
    using find_last_of_cut [OF nodot, of p "''.log''"] by simp
  have seq: "substr ?s (length p + 1) (length ds) = ds" by (simp add: substr_def)
  have npos: "length p + 1 + length ds \<noteq> npos" "length p \<noteq> npos" using assms(1) by auto
  show ?thesis
    unfolding ExtractSequenceNumber_def Let_def last sub second seq using npos
    by (simp add: stoi_digits [OF assms(2,3)] assms(4))
qed

text \<open>
  The name a rotation gives to a file is recognised as a historical file of its base name,
  and the number read back from its full path is the one it was given, for every sequence
  number of an \<open>int\<close> and every base name without \<open>.log\<close> in it.
\<close>

theorem historical_name_roundtrip:
  assumes "find_str (fm_base_name fm) ''.log'' = npos" "n \<le> 2147483647"
    and "length dir + length (fm_base_name fm) + 15 < npos"
  shows "IsHistoricalLogFile (SequenceName fm (int n)) (fm_base_name fm @ ''.'') \<and>
     ExtractSequenceNumber (dir @ SequenceName fm (int n)) = int n"
proof -
  have "n < 10 ^ 10" using assms(2) by simp
  then have len: "length (show_nat n) \<le> 10" by (rule length_show_nat_le) simp
  have ds: "show_nat n \<noteq> []" "\<forall>c \<in> set (show_nat n). isdigit c" by (auto dest: show_nat_isdigit)
  have name: "SequenceName fm (int n) = fm_base_name fm @ ''.'' @ show_nat n @ ''.log''"
    by (simp add: SequenceName_def show_int_def)
  have "ExtractSequenceNumber ((dir @ fm_base_name fm) @ ''.'' @ show_nat n @ ''.log'') = int n"
    using sequence_of_name [OF _ ds, of "dir @ fm_base_name fm"] len assms(2,3)
    by (simp add: digits_value_show_nat)
  moreover have "IsHistoricalLogFile (SequenceName fm (int n)) (fm_base_name fm @ ''.'')"
    unfolding name using len assms(3) by (intro historical_name assms(1) ds) simp
  ultimately show ?thesis by (simp add: name)
qed

theorem historical_name_roundtrip_witness:
  "IsHistoricalLogFile (SequenceName (FileManager_ctor ''App'') 12) ''App.'' \<and>
   ExtractSequenceNumber (''/w/'' @ SequenceName (FileManager_ctor ''App'') 12) = 12"
proof -
  let ?fm = "FileManager_ctor ''App''"
  have base: "fm_base_name ?fm = ''App''" by (simp add: FileManager_ctor_def)
  have "find_str (fm_base_name ?fm) ''.log'' = npos" unfolding base
    by (simp add: find_str_def occurs_at_def upt_rec)
  moreover have "(12 :: nat) \<le> 2147483647" "length ''/w/'' + length (fm_base_name ?fm) + 15 < npos"
    by (simp_all add: base npos_def)
  ultimately show ?thesis using historical_name_roundtrip [of ?fm 12 "''/w/''"] by (simp add: base)
qed

text \<open>What else is recognised: anything between the number and the suffix.\<close>

lemma recognised_prefix:
  assumes "IsHistoricalLogFile filename base_pattern"
  shows "\<exists>r. filename = base_pattern @ r"
  using assms by (simp add: IsHistoricalLogFile_def find_str_eq_0 split: if_splits)

text \<open>
  The recogniser accepts files that no rotation produced: the file \<open>App.5.old.log\<close> counts as
  historical, its sequence number reads as -1, and so retention deletes it before any real
  historical file.
\<close>

theorem foreign_file_deleted_first:
  "IsHistoricalLogFile ''App.5.old.log'' ''App.'' \<and> ExtractSequenceNumber ''/w/App.5.old.log'' = - 1 \<and>
   FindOldestHistoricalFile [''/w/App.1.log'', ''/w/App.5.old.log'', ''/w/App.2.log''] = 1"
proof -
  have "find_str ''App.5.old.log'' ''.log'' = 9" by (simp add: find_str_def occurs_at_def upt_rec)
  then have 1: "IsHistoricalLogFile ''App.5.old.log'' ''App.''"
    by (simp add: IsHistoricalLogFile_def find_str_eq_0 size_sub_le npos_def substr_def find_char_def
        isdigit_def Let_def)
  have foreign: "ExtractSequenceNumber ''/w/App.5.old.log'' = - 1"
  proof -
    have "find_last_of ''/w/App.5.old.log'' CHR ''.'' npos = 12"
      using find_last_of_append [of "CHR ''.''" "''log''" "''/w/App.5.old''" npos] by (simp add: npos_def)
    moreover have "find_last_of ''/w/App.5.old.log'' CHR ''.'' 11 = 8"
      using find_last_of_cut [of "CHR ''.''" "''old''" "''/w/App.5''" "''.log''"]
      by (simp add: eval_nat_numeral)
    ultimately show ?thesis
      by (simp add: ExtractSequenceNumber_def npos_def substr_def size_sub_def stoi_def isspace_def isdigit_def)
  qed
  have "ExtractSequenceNumber ''/w/App.1.log'' = 1" "ExtractSequenceNumber ''/w/App.2.log'' = 2"
    using sequence_of_name [of "''/w/App''" "''1''"] sequence_of_name [of "''/w/App''" "''2''"]
    by (simp_all add: isdigit_def digit_value_def npos_def)
  with 1 foreign show ?thesis by (simp add: FindOldestHistoricalFile_def)
qed

section \<open>Which files retention deletes\<close>

lemma min_scan_least:
  assumes "r < length pre" "x = pre ! r" "\<forall>y \<in> set pre. key x \<le> (key y :: int)"
  shows "let j = min_scan (\<lambda>a b. key a < key b) x r (length pre) xs
         in j < length (pre @ xs) \<and> (\<forall>y \<in> set (pre @ xs). key ((pre @ xs) ! j) \<le> key y)"
  using assms
proof (induction xs arbitrary: pre x r)
  case Nil
  then show ?case by simp
next
  case (Cons a xs)
  show ?case
  proof (cases "key a < key x")
    case True
    then have "\<forall>y \<in> set (pre @ [a]). key a \<le> key y" using Cons.prems(3) by auto
    with Cons.IH [of "length pre" "pre @ [a]" a] True show ?thesis by simp
  next
    case False
    then have "\<forall>y \<in> set (pre @ [a]). key x \<le> key y" using Cons.prems(3) by auto
    with Cons.IH [of r "pre @ [a]" x] False Cons.prems(1,2) show ?thesis by (simp add: nth_append)
  qed
qed

lemma FindOldest_least:
  assumes "files \<noteq> []"
  shows "FindOldestHistoricalFile files < length files"
    "y \<in> set files \<Longrightarrow>
       ExtractSequenceNumber (files ! FindOldestHistoricalFile files) \<le> ExtractSequenceNumber y"
proof -
  obtain x xs where f: "files = x # xs" using assms by (cases files) auto
  from min_scan_least [of 0 "[x]" x ExtractSequenceNumber xs]
  have "FindOldestHistoricalFile files < length files \<and> (\<forall>y \<in> set files.
      ExtractSequenceNumber (files ! FindOldestHistoricalFile files) \<le> ExtractSequenceNumber y)"
    by (simp add: f FindOldestHistoricalFile_def Let_def)
  then show "FindOldestHistoricalFile files < length files"
    "y \<in> set files \<Longrightarrow>
       ExtractSequenceNumber (files ! FindOldestHistoricalFile files) \<le> ExtractSequenceNumber y" by auto
qed


lemma remove_nth_mset:
  assumes "i < length xs"
  shows "mset xs = add_mset (xs ! i) (mset (take i xs @ drop (Suc i) xs))"
proof -
  have "mset xs = mset (take i xs @ xs ! i # drop (Suc i) xs)" by (simp add: id_take_nth_drop [OF assms, symmetric])
  then show ?thesis by simp
qed

lemma delete_oldest_step:
  assumes "r < length files"
  shows "delete_oldest r files os =
     delete_oldest r (take (FindOldestHistoricalFile files) files @ drop (Suc (FindOldestHistoricalFile files)) files)
       (fs_remove (files ! FindOldestHistoricalFile files) os)"
proof -
  have "files \<noteq> []" using assms by auto
  then have "FindOldestHistoricalFile files \<noteq> length files" using FindOldest_least(1) by (metis nat_neq_iff)
  then show ?thesis by (subst delete_oldest.simps) (simp add: assms Let_def)
qed

lemma delete_oldest_done: "length files \<le> r \<Longrightarrow> delete_oldest r files os = (files, os)"
  by (subst delete_oldest.simps) simp

lemma delete_oldest_spec:
  shows "\<exists>kept os' gone. delete_oldest r files os = (kept, os') \<and> os' = fold fs_remove gone os \<and>
     mset files = mset kept + mset gone \<and> length kept = min r (length files) \<and>
     (\<forall>x \<in> set gone. \<forall>y \<in> set kept. ExtractSequenceNumber x \<le> ExtractSequenceNumber y)"
proof (induction "length files" arbitrary: files os)
  case 0
  then show ?case by (intro exI [of _ files] exI [of _ os] exI [of _ "[]"]) (simp add: delete_oldest_done)
next
  case (Suc n)
  show ?case
  proof (cases "r < length files")
    case False
    then show ?thesis
      by (intro exI [of _ files] exI [of _ os] exI [of _ "[]"]) (simp add: delete_oldest_done)
  next
    case True
    let ?i = "FindOldestHistoricalFile files"
    let ?x = "files ! ?i" and ?rest = "take ?i files @ drop (Suc ?i) files"
    have ne: "files \<noteq> []" using True by auto
    note least = FindOldest_least [OF ne]
    have "n = length ?rest" using Suc.hyps(2) least(1) by simp
    from Suc.hyps(1) [OF this, of "fs_remove ?x os"] obtain kept os' gone where
      IH: "delete_oldest r ?rest (fs_remove ?x os) = (kept, os')" "os' = fold fs_remove gone (fs_remove ?x os)"
        "mset ?rest = mset kept + mset gone" "length kept = min r (length ?rest)"
        "\<forall>x \<in> set gone. \<forall>y \<in> set kept. ExtractSequenceNumber x \<le> ExtractSequenceNumber y"
      by blast
    have "set kept \<subseteq> set ?rest" using IH(3) by (metis set_mset_mset set_mset_union sup_ge1)
    also have "\<dots> \<subseteq> set files" using set_take_subset set_drop_subset by fastforce
    finally have min: "\<forall>y \<in> set kept. ExtractSequenceNumber ?x \<le> ExtractSequenceNumber y"
      using least(2) by blast
    have ms: "mset files = mset kept + mset (?x # gone)"
      using remove_nth_mset [OF least(1)] IH(3) by simp
    have len: "length kept = min r (length files)" using IH(4) True least(1) by simp
    have del: "delete_oldest r files os = (kept, os')" 
      unfolding delete_oldest_step [OF True] by (rule IH(1))
    show ?thesis
      by (intro exI [of _ kept] exI [of _ os'] exI [of _ "?x # gone"])
        (use del IH(2,5) ms len min in auto)
  qed
qed

lemma removed_content:
  assumes "reliable os"
  shows "reliable (fold fs_remove gone os) \<and>
     file_content p (fold fs_remove gone os) = (if p \<in> set gone then None else file_content p os)"
  using assms
proof (induction gone arbitrary: os)
  case Nil
  then show ?case by simp
next
  case (Cons d ds)
  have del: "map_of (filter (\<lambda>(q, c). q \<noteq> d) xs) p = (if p = d then None else map_of xs p)"
    for xs :: "(string \<times> string) list"
    by (induction xs) auto
  have "reliable (fs_remove d os)" "file_content p (fs_remove d os) = (if p = d then None else file_content p os)"
    using Cons.prems by (simp_all add: fs_remove_def syscall_def reliable_def file_content_def del)
  with Cons.IH [of "fs_remove d os"] show ?case by auto
qed

text \<open>
  C26: the deletion loop ends, and of the files it is given it keeps as many as the retention
  count allows, those with the highest sequence numbers: every file it deletes has a number at
  most that of every file it keeps, and nothing else disappears.
\<close>

theorem retention_keeps_newest:
  assumes "reliable os" "distinct files" "delete_oldest r files os = (kept, os')"
  shows "length kept = min r (length files) \<and> set kept \<subseteq> set files \<and>
     (\<forall>x \<in> set files - set kept. \<forall>y \<in> set kept. ExtractSequenceNumber x \<le> ExtractSequenceNumber y) \<and>
     (\<forall>p. file_content p os' = (if p \<in> set files - set kept then None else file_content p os))"
proof -
  from delete_oldest_spec [of r files os] assms(3) obtain gone where
    g: "os' = fold fs_remove gone os" "mset files = mset kept + mset gone"
      "length kept = min r (length files)"
      "\<forall>x \<in> set gone. \<forall>y \<in> set kept. ExtractSequenceNumber x \<le> ExtractSequenceNumber y"
    by auto
  have "mset files = mset (kept @ gone)" using g(2) by simp
  then have "distinct (kept @ gone)" "set files = set kept \<union> set gone"
    using assms(2) by (metis mset_eq_imp_distinct_iff, metis mset_eq_setD set_append)
  then have "set files - set kept = set gone" "set kept \<subseteq> set files" by auto
  with g removed_content [OF assms(1)] show ?thesis by simp
qed

lemma historical_files_invisible:
  assumes "is_absolute (host_platform h) (fm_base_name fm)" "GetHistoricalFiles h fm os = (Inr files, os')"
  shows "files = []"
proof -
  have "\<not> IsHistoricalLogFile (filename_of (host_platform h) p) (fm_base_name fm @ ''.'')" for p
  proof
    assume "IsHistoricalLogFile (filename_of (host_platform h) p) (fm_base_name fm @ ''.'')"
    then obtain r where r: "filename_of (host_platform h) p = (fm_base_name fm @ ''.'') @ r"
      using recognised_prefix by blast
    obtain c where "c \<in> set (fm_base_name fm)" "is_sep (host_platform h) c"
      using absolute_has_sep [OF assms(1)] .
    then have "c \<in> set (filename_of (host_platform h) p)" by (simp add: r)
    with filename_no_sep \<open>is_sep (host_platform h) c\<close> show False by blast
  qed
  with assms(2) show ?thesis
    by (auto simp: GetHistoricalFiles_def split: sum.splits prod.splits)
qed

theorem retention_keeps_newest_witness:
  "\<exists>kept os'. delete_oldest 1 [''/w/App.2.log'', ''/w/App.10.log'']
       (sample_os [(''/w/App.2.log'', ''a''), (''/w/App.10.log'', ''b'')] [''/w'']) = (kept, os') \<and>
     kept = [''/w/App.10.log''] \<and> file_content ''/w/App.2.log'' os' = None \<and>
     file_content ''/w/App.10.log'' os' = Some ''b''"
proof -
  let ?files = "[''/w/App.2.log'', ''/w/App.10.log'']"
  let ?os = "sample_os [(''/w/App.2.log'', ''a''), (''/w/App.10.log'', ''b'')] [''/w'']"
  obtain kept os' where d: "delete_oldest 1 ?files ?os = (kept, os')" by fastforce
  have "distinct ?files" by simp
  from retention_keeps_newest [OF sample_os_reliable this d] have
    k: "length kept = 1" "set kept \<subseteq> set ?files"
      "\<forall>x \<in> set ?files - set kept. \<forall>y \<in> set kept. ExtractSequenceNumber x \<le> ExtractSequenceNumber y"
      "\<forall>p. file_content p os' = (if p \<in> set ?files - set kept then None else file_content p ?os)"
    by simp_all
  have seq: "ExtractSequenceNumber ''/w/App.2.log'' = 2" "ExtractSequenceNumber ''/w/App.10.log'' = 10"
    using sequence_of_name [of "''/w/App''" "''2''"] sequence_of_name [of "''/w/App''" "''10''"]
    by (simp_all add: isdigit_def digit_value_def npos_def)
  obtain y where y: "kept = [y]" using k(1) by (auto simp: length_Suc_conv)
  with k(2,3) seq have "y = ''/w/App.10.log''" by auto
  with y k(4) d show ?thesis by (auto simp: file_content_def sample_os_def)
qed

text \<open>
  After \<open>Initialize\<close> no historical file is ever found: the base name is absolute then and
  the search compares it with bare file names, so on every platform and whatever is in the
  current directory the list is empty, the next sequence number is 1, and the retention count
  has no effect.
\<close>

theorem retention_has_no_effect:
  assumes "is_absolute (host_platform h) (fm_base_name fm)" "GetHistoricalFiles h fm os = (Inr files, os')"
  shows "files = [] \<and> CalculateNextSequenceNumber files = Some 1 \<and> DeleteOldestFiles h fm os = (Inr (), os')"
  using historical_files_invisible [OF assms] assms(2)
  by (simp add: CalculateNextSequenceNumber_def DeleteOldestFiles_def delete_oldest_done)

theorem retention_has_no_effect_witness:
  "\<exists>os. GetHistoricalFiles (sample_host (Some MacOS)) (FileManager_ctor ''/w/App'')
       (sample_os [(''/w/App.1.log'', ''old''), (''/w/App.2.log'', ''new'')] [''/w'']) = (Inr [], os)"
proof -
  obtain files os where g: "GetHistoricalFiles (sample_host (Some MacOS)) (FileManager_ctor ''/w/App'')
       (sample_os [(''/w/App.1.log'', ''old''), (''/w/App.2.log'', ''new'')] [''/w'']) = (Inr files, os)"
    by (simp add: GetHistoricalFiles_def fs_current_path_def fs_directory_iterator_def syscall_def
        sample_os_def is_directory_def)
  have "is_absolute (host_platform (sample_host (Some MacOS))) (fm_base_name (FileManager_ctor ''/w/App''))"
    by (simp add: is_absolute_def is_sep_def FileManager_ctor_def)
  from retention_has_no_effect [OF this g] g show ?thesis by simp
qed

end
