(* ===== verification/File_Rotate.thy ===== *)
theory File_Rotate
  imports File_Write Retention Os_Reliable
begin

text \<open>
  \<open>Initialize\<close> and \<open>Rotate\<close> of the file manager as a whole: what they leave behind when no call
  of the system fails, what a failure leaves behind, and what a second rotation does to the
  first one's file.
\<close>

section \<open>Opening\<close>

text \<open>
  A name that can be opened: on Windows it goes to the system as UTF-16, so it has to survive the
  conversion.
\<close>

definition openable :: "'k host \<Rightarrow> string \<Rightarrow> bool" where
  "openable h name \<longleftrightarrow>
     (on_windows h \<longrightarrow> (\<exists>wide. Utf8ToWideString h name = Inr wide \<and> wide_path h (wide_c_str wide) = name))"

lemma openable_posix: "\<not> on_windows h \<Longrightarrow> openable h name"
  by (simp add: openable_def)

lemma OpenLogFile_reliable:
  assumes "reliable os" "openable h (fm_name fm)" "\<not> is_directory (fm_name fm) os"
    "is_directory (parent_path (host_platform h) (fm_name fm)) os"
  shows "\<exists>os'. OpenLogFile h fm os = (True, fm\<lparr>fm_file := Some \<lparr>f_path = fm_name fm, f_pending = [], f_fd = 3\<rparr>\<rparr>, os') \<and>
     same_system os os' \<and>
     file_content (fm_name fm) os' = Some (case file_content (fm_name fm) os of None \<Rightarrow> [] | Some c \<Rightarrow> c) \<and>
     (\<forall>q. q \<noteq> fm_name fm \<longrightarrow> file_content q os' = file_content q os)"
  using fopen_reliable [OF assms(1,3,4)] assms(2) by (auto simp: OpenLogFile_def openable_def)

lemma UpdateCurrentFileSize_reliable:
  assumes "reliable os" "file_content (fm_name fm) os = Some c"
  shows "\<exists>os'. UpdateCurrentFileSize fm os = (Inr (), fm\<lparr>fm_size := of_nat (length c)\<rparr>, os') \<and>
     same_system os os' \<and> (\<forall>q. file_content q os' = file_content q os)"
proof -
  from exists_reliable [OF assms(1), of "fm_name fm"] assms(2) obtain os1 where
    e: "fs_exists (fm_name fm) os = (Inr True, os1)" "same_system os os1"
      "\<forall>q. file_content q os1 = file_content q os"
    by (auto simp: is_file_content)
  from file_size_reliable [of os1 "fm_name fm" c] assms e same_system_keeps(1) [OF e(2)] obtain os2 where
    "fs_file_size (fm_name fm) os1 = (Inr (length c), os2)" "same_system os1 os2"
      "\<forall>q. file_content q os2 = file_content q os1"
    by auto
  with e show ?thesis by (auto simp: UpdateCurrentFileSize_def intro: same_system_trans)
qed

lemma choose_and_open_reliable:
  assumes "reliable os" "\<forall>first. openable h (GenerateFileName h first fm)" "is_directory (parent_path (host_platform h) (fm_base_name fm)) os"
    "\<forall>first. \<not> is_directory (GenerateFileName h first fm) os"
    "\<forall>first. parent_path (host_platform h) (GenerateFileName h first fm) = parent_path (host_platform h) (fm_base_name fm)"
  shows "\<exists>another m k fm' os'. IsAnotherProcessLogging h (fm_base_name fm) (fm_mutex fm) os = (Inr another, m, k) \<and>
     choose_and_open h fm os = (Inr True, fm', os') \<and> fm_base_name fm' = fm_base_name fm \<and> fm_mutex fm' = m \<and>
     fm_process_id fm' = fm_process_id fm \<and>
     fm_name fm' = GenerateFileName h (\<not> another) fm \<and> fm_initialized fm' \<and> fm_ready (fm', os') \<and>
     fm_content (fm', os') = Some (case file_content (fm_name fm') os of None \<Rightarrow> [] | Some c \<Rightarrow> c) \<and>
     fm_size fm' = of_nat (length (case file_content (fm_name fm') os of None \<Rightarrow> [] | Some c \<Rightarrow> c)) \<and>
     (\<forall>q. q \<noteq> fm_name fm' \<longrightarrow> file_content q os' = file_content q os) \<and>
     map_option f_path (fm_file fm') = Some (fm_name fm') \<and> fm_max_size fm' = fm_max_size fm \<and>
     os_cwd os' = os_cwd os \<and> (\<forall>d. is_directory d os' = is_directory d os)"
proof -
  obtain r m k where call: "IsAnotherProcessLogging h (fm_base_name fm) (fm_mutex fm) os = (r, m, k)"
    by (metis prod_cases3)
  then obtain another where r: "r = Inr another" using lock_no_exception assms(1) by blast
  note keep = lock_keeps_files [OF call]
  have k: "reliable k" "\<And>p. file_content p k = file_content p os" "\<And>p. is_directory p k = is_directory p os"
    using keep assms(1) by (simp_all add: reliable_def file_content_def is_directory_def)
  let ?n = "GenerateFileName h (\<not> another) fm"
  let ?fm = "fm\<lparr>fm_mutex := m, fm_name := ?n\<rparr>"
  let ?c = "case file_content ?n os of None \<Rightarrow> [] | Some c \<Rightarrow> c"
  have gen: "GenerateFileName h (\<not> another) (fm\<lparr>fm_mutex := m\<rparr>) = ?n" by (simp add: GenerateFileName_def)
  let ?file = "\<lparr>f_path = ?n, f_pending = [], f_fd = 3\<rparr>"
  from OpenLogFile_reliable [of k h ?fm] k assms obtain os1 where
    o: "OpenLogFile h ?fm k = (True, ?fm\<lparr>fm_file := Some ?file\<rparr>, os1)" "same_system k os1"
      "file_content ?n os1 = Some ?c" "\<forall>q. q \<noteq> ?n \<longrightarrow> file_content q os1 = file_content q k"
    by auto
  from UpdateCurrentFileSize_reliable [of os1 "?fm\<lparr>fm_file := Some ?file\<rparr>" ?c] o k same_system_keeps(1) [OF o(2)]
  obtain os2 where u: "UpdateCurrentFileSize (?fm\<lparr>fm_file := Some ?file\<rparr>) os1 =
      (Inr (), ?fm\<lparr>fm_file := Some ?file, fm_size := of_nat (length ?c)\<rparr>, os2)" "same_system os1 os2"
      "\<forall>q. file_content q os2 = file_content q os1"
    by auto
  let ?fm' = "?fm\<lparr>fm_file := Some ?file, fm_size := of_nat (length ?c), fm_initialized := True\<rparr>"
  have "choose_and_open h fm os = (Inr True, ?fm', os2)"
    using call r gen o(1) u(1) by (simp add: choose_and_open_def Let_def)
  moreover have "fm_ready (?fm', os2)"
    using k(1) same_system_keeps(1) [OF o(2)] same_system_keeps(1) [OF u(2)] by (simp add: fm_ready_def)
  moreover have "fm_content (?fm', os2) = Some ?c"
    using o(3) u(3) by (simp add: fm_content_def stream_content_def)
  moreover have "\<forall>q. q \<noteq> ?n \<longrightarrow> file_content q os2 = file_content q os"
    using o(4) u(3) k(2) by simp
  moreover have "os_cwd os2 = os_cwd os" "\<forall>d. is_directory d os2 = is_directory d os"
    using keep k(3) same_system_keeps(2,3) [OF o(2)] same_system_keeps(2,3) [OF u(2)] by simp_all
  ultimately show ?thesis using call r by simp
qed

lemma EnsureParent_reliable:
  assumes "reliable os" "parent_path (host_platform h) p \<noteq> []"
    "\<forall>d \<in> set (ancestors (host_platform h) (parent_path (host_platform h) p)). \<not> is_file d os"
  shows "\<exists>os'. EnsureParentDirectoryExists h p os = (Inr True, os') \<and> reliable os' \<and>
     is_directory (parent_path (host_platform h) p) os' \<and> os_cwd os' = os_cwd os \<and>
     (\<forall>d. is_directory d os \<longrightarrow> is_directory d os') \<and>
     (\<forall>d. is_directory d os' \<longrightarrow> is_directory d os \<or> d \<in> set (ancestors (host_platform h) (parent_path (host_platform h) p))) \<and>
     (\<forall>q. file_content q os' = file_content q os)"
proof -
  let ?d = "parent_path (host_platform h) p"
  have nf: "\<not> is_file ?d os" using assms(3) self_in_ancestors by blast
  obtain os1 where e: "fs_exists ?d os = (Inr (is_directory ?d os), os1)" "same_system os os1"
      "\<forall>q. file_content q os1 = file_content q os"
    using exists_reliable [OF assms(1), of ?d] nf by auto
  show ?thesis
  proof (cases "is_directory ?d os")
    case True
    with e assms(1,2) same_system_keeps [OF e(2)] show ?thesis
      by (auto simp: EnsureParentDirectoryExists_def Let_def)
  next
    case False
    have "\<forall>d \<in> set (ancestors (host_platform h) ?d). \<not> is_file d os1"
      using assms(3) e(3) by (simp add: is_file_content)
    from create_directories_reliable [OF _ this] assms(1) same_system_keeps(1) [OF e(2)] obtain os2 where
      "fs_create_directories h ?d os1 = (True, os2)" "reliable os2" "is_directory ?d os2" "os_cwd os2 = os_cwd os1"
        "\<forall>d. is_directory d os2 = (is_directory d os1 \<or> d \<in> set (ancestors (host_platform h) ?d))"
        "\<forall>q. file_content q os2 = file_content q os1"
      by auto
    with False e assms(2) same_system_keeps(2,3) [OF e(2)] show ?thesis
      by (auto simp: EnsureParentDirectoryExists_def Let_def)
  qed
qed


lemma show_int_no_sep: "c \<in> set (show_int i) \<Longrightarrow> \<not> is_sep pl c"
  by (auto simp: show_int_def is_sep_def isdigit_def dest: show_nat_isdigit split: if_splits)

lemma generated_name_suffix:
  "\<exists>x. GenerateFileName h first fm = fm_base_name fm @ x \<and> x \<noteq> [] \<and>
     (\<forall>c \<in> set x. \<not> is_sep (host_platform h) c)"
proof (cases first)
  case True
  then show ?thesis by (auto simp: GenerateFileName_def is_sep_def)
next
  case False
  let ?i = "show_int (pid_value (case host_platform h of Some p \<Rightarrow> p | None \<Rightarrow> MacOS) (fm_process_id fm))"
  have "\<forall>c \<in> set (''_'' @ ?i @ ''.log''). \<not> is_sep (host_platform h) c"
    using show_int_no_sep [of _ _ "host_platform h"] by (auto simp: is_sep_def)
  with False show ?thesis by (intro exI [of _ "''_'' @ ?i @ ''.log''"]) (simp add: GenerateFileName_def)
qed

lemma generated_name_parent:
  assumes "usable_base (host_platform h) (fm_base_name fm)"
  shows "parent_path (host_platform h) (GenerateFileName h first fm) = parent_path (host_platform h) (fm_base_name fm)"
  using generated_name_suffix [of h first fm] usable_parent_suffix [OF assms] by auto

lemma ancestor_length: "a \<in> set (ancestors pl s) \<Longrightarrow> length a \<le> length s"
proof (induction pl s rule: ancestors.induct)
  case (1 pl s)
  then show ?case
    by (subst (asm) (2) ancestors.simps) (auto split: if_splits dest: parent_path_shorter)
qed

lemma parent_path_le: "length (parent_path pl s) \<le> length s"
  using parent_path_shorter [of pl s] by (cases "parent_path pl s = s") auto

lemma generated_name_not_ancestor:
  "GenerateFileName h first fm \<notin> set (ancestors (host_platform h) (parent_path (host_platform h) (fm_base_name fm)))"
proof
  assume "GenerateFileName h first fm \<in> set (ancestors (host_platform h) (parent_path (host_platform h) (fm_base_name fm)))"
  then have "length (GenerateFileName h first fm) \<le> length (fm_base_name fm)"
    using ancestor_length parent_path_le order_trans by blast
  moreover obtain x where "GenerateFileName h first fm = fm_base_name fm @ x" "x \<noteq> []"
    using generated_name_suffix by blast
  ultimately show False by simp
qed

text \<open>The base name that \<open>Initialize\<close> works with.\<close>

definition absolute_base :: "'k host \<Rightarrow> string \<Rightarrow> string \<Rightarrow> string" where
  "absolute_base h cwd base =
     (if is_absolute (host_platform h) base then base
      else if on_windows h then GetFullPathName h cwd base else path_append (host_platform h) cwd base)"

lemma absolute_base_usable:
  "\<not> on_windows h \<Longrightarrow> is_absolute (host_platform h) cwd \<Longrightarrow>
     usable_base (host_platform h) (absolute_base h cwd base)"
  by (auto simp: usable_base_def absolute_base_def path_append_def is_absolute_def Let_def)

lemma Initialize_opened:
  assumes "reliable os" "\<not> fm_initialized fm" "os_cwd os = Some cwd"
    and "base = absolute_base h cwd (fm_base_name fm)" "usable_base (host_platform h) base"
    and "\<forall>d \<in> set (ancestors (host_platform h) (parent_path (host_platform h) base)). \<not> is_file d os"
    and "\<forall>first. \<not> is_directory (GenerateFileName h first (fm\<lparr>fm_base_name := base, fm_process_id := pid\<rparr>)) os"
    and "\<forall>first. openable h (GenerateFileName h first (fm\<lparr>fm_base_name := base, fm_process_id := pid\<rparr>))"
  shows "\<exists>fm' os' first. Initialize h pid fm os = (Inr True, fm', os') \<and> fm_initialized fm' \<and>
     fm_ready (fm', os') \<and> fm_base_name fm' = base \<and> is_absolute (host_platform h) base \<and>
     fm_name fm' = GenerateFileName h first fm' \<and>
     fm_content (fm', os') = Some (case file_content (fm_name fm') os of None \<Rightarrow> [] | Some c \<Rightarrow> c) \<and>
     fm_size fm' = of_nat (length (case file_content (fm_name fm') os of None \<Rightarrow> [] | Some c \<Rightarrow> c)) \<and>
     (\<forall>q. q \<noteq> fm_name fm' \<longrightarrow> file_content q os' = file_content q os) \<and>
     map_option f_path (fm_file fm') = Some (fm_name fm') \<and> fm_max_size fm' = fm_max_size fm \<and>
     os_cwd os' = os_cwd os \<and> is_directory (parent_path (host_platform h) base) os' \<and>
     (\<forall>d. is_directory d os \<longrightarrow> is_directory d os') \<and>
     (\<forall>d. is_directory d os' \<longrightarrow> is_directory d os \<or> d \<in> set (ancestors (host_platform h) (parent_path (host_platform h) base)))"
proof -
  let ?pl = "host_platform h"
  define fm0 where "fm0 = fm\<lparr>fm_process_id := pid, fm_base_name := base\<rparr>"
  have fm0: "fm_base_name fm0 = base" "fm_process_id fm0 = pid" by (simp_all add: fm0_def)
  have abs: "is_absolute ?pl base" using assms(5) by (simp add: usable_base_def)
  have ex: "(if is_absolute ?pl (fm_base_name fm) then Inr (fm_base_name fm)
      else fs_absolute h (fm_base_name fm) os) = Inr base"
    using assms(3,4) by (simp add: absolute_base_def fs_absolute_def fs_current_path_def)
  from EnsureParent_reliable [OF assms(1) usable_parent [OF assms(5)] assms(6)] obtain os1 where
    e: "EnsureParentDirectoryExists h base os = (Inr True, os1)" "reliable os1"
      "is_directory (parent_path ?pl base) os1"
      "\<forall>d. is_directory d os1 \<longrightarrow> is_directory d os \<or> d \<in> set (ancestors ?pl (parent_path ?pl base))"
      "\<forall>q. file_content q os1 = file_content q os"
      "os_cwd os1 = os_cwd os" "\<forall>d. is_directory d os \<longrightarrow> is_directory d os1" by blast
  have gen: "GenerateFileName h first (fm\<lparr>fm_base_name := base, fm_process_id := pid\<rparr>) = GenerateFileName h first fm0" for first
    by (simp add: GenerateFileName_def fm0)
  have opn: "\<forall>first. openable h (GenerateFileName h first fm0)" using assms(8) unfolding gen .
  have names: "\<forall>first. \<not> is_directory (GenerateFileName h first fm0) os1"
  proof
    fix first
    have "\<not> is_directory (GenerateFileName h first fm0) os" using assms(7) unfolding gen by blast
    moreover have "GenerateFileName h first fm0 \<notin> set (ancestors ?pl (parent_path ?pl base))"
      using generated_name_not_ancestor [of h first fm0] by (simp add: fm0)
    ultimately show "\<not> is_directory (GenerateFileName h first fm0) os1" using e(4) by blast
  qed
  have dir: "is_directory (parent_path ?pl (fm_base_name fm0)) os1" using e(3) by (simp add: fm0)
  have par: "\<forall>first. parent_path ?pl (GenerateFileName h first fm0) = parent_path ?pl (fm_base_name fm0)"
    using generated_name_parent [of h fm0] assms(5) by (simp add: fm0)
  from choose_and_open_reliable [OF e(2) opn dir names par]
  obtain another m k fm' os' where
    c: "choose_and_open h fm0 os1 = (Inr True, fm', os')" "fm_base_name fm' = fm_base_name fm0"
      "fm_process_id fm' = fm_process_id fm0"
      "fm_name fm' = GenerateFileName h (\<not> another) fm0" "fm_initialized fm'" "fm_ready (fm', os')"
      "fm_content (fm', os') = Some (case file_content (fm_name fm') os1 of None \<Rightarrow> [] | Some c \<Rightarrow> c)"
      "fm_size fm' = of_nat (length (case file_content (fm_name fm') os1 of None \<Rightarrow> [] | Some c \<Rightarrow> c))"
      "\<forall>q. q \<noteq> fm_name fm' \<longrightarrow> file_content q os' = file_content q os1"
      "map_option f_path (fm_file fm') = Some (fm_name fm')" "fm_max_size fm' = fm_max_size fm0"
      "os_cwd os' = os_cwd os1" "\<forall>d. is_directory d os' = is_directory d os1"
    by blast
  have "Initialize h pid fm os = (Inr True, fm', os')"
    using assms(2) ex e(1) c(1)
    by (cases "is_absolute ?pl (fm_base_name fm)") (simp_all add: Initialize_def Let_def fm0_def)
  moreover have "fm_name fm' = GenerateFileName h (\<not> another) fm'"
    using c(2-4) by (simp add: GenerateFileName_def)
  moreover have "fm_base_name fm' = base" using c(2) by (simp add: fm0)
  moreover have "fm_max_size fm' = fm_max_size fm" using c(11) by (simp add: fm0_def)
  moreover have "os_cwd os' = os_cwd os" "is_directory (parent_path ?pl base) os'" "\<forall>d. is_directory d os \<longrightarrow> is_directory d os'"
    "\<forall>d. is_directory d os' \<longrightarrow> is_directory d os \<or> d \<in> set (ancestors ?pl (parent_path ?pl base))"
    using c(12,13) e(3,4,6,7) by simp_all
  ultimately show ?thesis using abs c(5-10) e(5)
    by (intro exI [of _ fm'] exI [of _ os'] exI [of _ "\<not> another"]) (simp only: simp_thms)
qed

text \<open>A system on which a file manager with this base name, \<open>full\<close> when absolute, can be opened.\<close>

definition can_open :: "'k host \<Rightarrow> ProcessIdType \<Rightarrow> string \<Rightarrow> string \<Rightarrow> 'k os \<Rightarrow> bool" where
  "can_open h pid base full os \<longleftrightarrow>
     (let name = \<lambda>first. GenerateFileName h first ((FileManager_ctor base)\<lparr>fm_base_name := full, fm_process_id := pid\<rparr>)
      in reliable os \<and> (\<exists>cwd. os_cwd os = Some cwd \<and> full = absolute_base h cwd base) \<and>
         usable_base (host_platform h) full \<and>
         (\<forall>d \<in> set (ancestors (host_platform h) (parent_path (host_platform h) full)). \<not> is_file d os) \<and>
         (\<forall>first. \<not> is_directory (name first) os) \<and> (\<forall>first. openable h (name first)))"

lemma can_open_Initialize:
  assumes "can_open h pid base full os"
  shows "\<exists>fm' os' first. Initialize h pid (FileManager_ctor base) os = (Inr True, fm', os') \<and> fm_initialized fm' \<and>
     fm_ready (fm', os') \<and> fm_base_name fm' = full \<and> is_absolute (host_platform h) full \<and>
     fm_name fm' = GenerateFileName h first fm' \<and>
     fm_content (fm', os') = Some (text_at (fm_name fm') os) \<and>
     fm_size fm' = of_nat (length (text_at (fm_name fm') os)) \<and>
     (\<forall>q. q \<noteq> fm_name fm' \<longrightarrow> file_content q os' = file_content q os) \<and>
     map_option f_path (fm_file fm') = Some (fm_name fm') \<and> fm_max_size fm' = 10 * 1024 * 1024 \<and>
     os_cwd os' = os_cwd os \<and> is_directory (parent_path (host_platform h) full) os' \<and>
     (\<forall>d. is_directory d os \<longrightarrow> is_directory d os') \<and>
     (\<forall>d. is_directory d os' \<longrightarrow> is_directory d os \<or> d \<in> set (ancestors (host_platform h) (parent_path (host_platform h) full)))"
proof -
  have ctor: "\<not> fm_initialized (FileManager_ctor base)" "fm_base_name (FileManager_ctor base) = base"
    "fm_max_size (FileManager_ctor base) = 10 * 1024 * 1024" by (simp_all add: FileManager_ctor_def)
  from assms obtain cwd where c: "reliable os" "os_cwd os = Some cwd" "full = absolute_base h cwd (fm_base_name (FileManager_ctor base))"
    "usable_base (host_platform h) full"
    "\<forall>d \<in> set (ancestors (host_platform h) (parent_path (host_platform h) full)). \<not> is_file d os"
    "\<forall>first. \<not> is_directory (GenerateFileName h first ((FileManager_ctor base)\<lparr>fm_base_name := full, fm_process_id := pid\<rparr>)) os"
    "\<forall>first. openable h (GenerateFileName h first ((FileManager_ctor base)\<lparr>fm_base_name := full, fm_process_id := pid\<rparr>))"
    unfolding can_open_def Let_def ctor(2) by blast
  from Initialize_opened [OF c(1) ctor(1) c(2-7)] show ?thesis unfolding text_at_def ctor(3) .
qed

text \<open>The name is the answer of the lock, which has been asked once.\<close>

lemma EnsureParent_ipc: "EnsureParentDirectoryExists h p os = (r, os') \<Longrightarrow> os_ipc os' = os_ipc os"
  by (auto simp: EnsureParentDirectoryExists_def fs_exists_def fs_create_directories_def syscall_def Let_def
      split: sum.splits prod.splits if_splits bool.splits)

lemma OpenLogFile_ipc:
  "OpenLogFile h fm os = (ok, fm', os') \<Longrightarrow> os_ipc os' = os_ipc os \<and> fm_base_name fm' = fm_base_name fm \<and>
     fm_name fm' = fm_name fm \<and> fm_mutex fm' = fm_mutex fm \<and> fm_process_id fm' = fm_process_id fm"
  by (auto simp: OpenLogFile_def fopen_append_def syscall_def Let_def split: sum.splits prod.splits if_splits bool.splits option.splits)

lemma UpdateCurrentFileSize_ipc:
  "UpdateCurrentFileSize fm os = (r, fm', os') \<Longrightarrow> os_ipc os' = os_ipc os \<and> fm_base_name fm' = fm_base_name fm \<and>
     fm_name fm' = fm_name fm \<and> fm_mutex fm' = fm_mutex fm \<and> fm_process_id fm' = fm_process_id fm"
  by (auto simp: UpdateCurrentFileSize_def fs_exists_def fs_file_size_def syscall_def Let_def
      split: sum.splits prod.splits if_splits bool.splits option.splits)

lemma Initialize_lock:
  assumes "Initialize h pid fm os = (Inr True, fm', os')" "\<not> fm_initialized fm" "fm_mutex fm = None"
  shows "\<exists>os1 another os2. os_ipc os1 = os_ipc os \<and>
     IsAnotherProcessLogging h (fm_base_name fm') None os1 = (Inr another, fm_mutex fm', os2) \<and> os_ipc os' = os_ipc os2 \<and>
     fm_name fm' = GenerateFileName h (\<not> another) fm' \<and> fm_process_id fm' = pid"
proof -
  from assms(1,2) obtain b os1 where
    e: "EnsureParentDirectoryExists h b os = (Inr True, os1)"
    and c: "choose_and_open h (fm\<lparr>fm_process_id := pid, fm_base_name := b\<rparr>) os1 = (Inr True, fm', os')"
    by (auto simp: Initialize_def Let_def split: sum.splits prod.splits bool.splits if_splits)
  obtain r m os2 where l: "IsAnotherProcessLogging h b None os1 = (r, m, os2)" by (metis prod_cases3)
  with c assms(3) obtain another fm2 os3 where
    r: "r = Inr another" and o: "OpenLogFile h (fm\<lparr>fm_process_id := pid, fm_base_name := b, fm_mutex := m,
      fm_name := GenerateFileName h (\<not> another) (fm\<lparr>fm_process_id := pid, fm_base_name := b, fm_mutex := m\<rparr>)\<rparr>) os2 = (True, fm2, os3)"
    by (auto simp: choose_and_open_def Let_def split: sum.splits prod.splits bool.splits)
  with c l assms(3) obtain fm3 where u: "UpdateCurrentFileSize fm2 os3 = (Inr (), fm3, os')" "fm' = fm3\<lparr>fm_initialized := True\<rparr>"
    by (auto simp: choose_and_open_def Let_def split: sum.splits prod.splits bool.splits)
  note keep = OpenLogFile_ipc [OF o] UpdateCurrentFileSize_ipc [OF u(1)]
  show ?thesis using EnsureParent_ipc [OF e] l r u(2) keep
    by (intro exI [of _ os1] exI [of _ another] exI [of _ os2]) (simp add: GenerateFileName_def)
qed

lemma Initialize_reliable:
  assumes "reliable os" "\<not> fm_initialized fm" "os_cwd os = Some cwd"
    and "base = absolute_base h cwd (fm_base_name fm)" "usable_base (host_platform h) base"
    and "\<forall>d \<in> set (ancestors (host_platform h) (parent_path (host_platform h) base)). \<not> is_file d os"
    and "\<forall>first. \<not> is_directory (GenerateFileName h first (fm\<lparr>fm_base_name := base, fm_process_id := pid\<rparr>)) os"
    and "\<forall>first. openable h (GenerateFileName h first (fm\<lparr>fm_base_name := base, fm_process_id := pid\<rparr>))"
  shows "\<exists>fm' os' first. Initialize h pid fm os = (Inr True, fm', os') \<and> fm_initialized fm' \<and>
     fm_ready (fm', os') \<and> fm_base_name fm' = base \<and> is_absolute (host_platform h) base \<and>
     fm_name fm' = GenerateFileName h first fm' \<and>
     fm_content (fm', os') = Some (case file_content (fm_name fm') os of None \<Rightarrow> [] | Some c \<Rightarrow> c) \<and>
     fm_size fm' = of_nat (length (case file_content (fm_name fm') os of None \<Rightarrow> [] | Some c \<Rightarrow> c)) \<and>
     (\<forall>q. q \<noteq> fm_name fm' \<longrightarrow> file_content q os' = file_content q os)"
  using Initialize_opened [OF assms] by blast



lemma sample_openable:
  assumes "CHR 0x00 \<notin> set name"
  shows "openable (sample_host pl) name"
proof -
  have inv: "char_of (unat (of_nat (of_char c) :: 16 word)) = c" for c :: char
  proof -
    have "(of_char c :: nat) < 2 ^ 16" using nat_of_char_less_256 [of c] by (rule less_trans) simp
    then have "unat (of_nat (of_char c) :: 16 word) = of_char c"
      by (simp add: unat_of_nat take_bit_eq_mod)
    then show ?thesis by simp
  qed
  have zero: "(of_nat (of_char c) :: 16 word) \<noteq> 0" if "CHR 0x00 \<noteq> c" for c :: char
  proof
    assume "(of_nat (of_char c) :: 16 word) = 0"
    then have "char_of (0 :: nat) = c" using inv [of c] by simp
    then show False using that by (simp add: char_of_def)
  qed
  let ?f = "\<lambda>c :: char. of_nat (of_char c) :: 16 word"
  have cut: "wide_c_str (map ?f name @ [0]) = map ?f name"
    unfolding wide_c_str_def using assms by (induction name) (simp_all add: zero del: of_nat_of_char)
  have conv: "Utf8ToWideString (sample_host pl) name = Inr (if name = [] then [] else map ?f name @ [0])"
    unfolding Utf8ToWideString_def sample_host_def by simp
  have back_again: "wide_path (sample_host pl) (map ?f name) = name"
    unfolding sample_host_def by (simp only: host.select_convs map_map comp_def inv list.map_ident)
  show ?thesis
    unfolding openable_def conv using cut back_again by (cases "name = []") (auto simp: wide_c_str_def)
qed


section \<open>Rotation\<close>

lemma GetHistoricalFiles_reliable:
  assumes "reliable os" "is_absolute (host_platform h) (fm_base_name fm)" "os_cwd os = Some d" "is_directory d os"
  shows "\<exists>os'. GetHistoricalFiles h fm os = (Inr [], os') \<and> same_system os os' \<and>
     (\<forall>q. file_content q os' = file_content q os)"
proof -
  from directory_iterator_reliable [OF assms(1,4), of h] obtain ps os' where
    i: "fs_directory_iterator h d os = (Inr ps, os')" "same_system os os'"
      "\<forall>q. file_content q os' = file_content q os" by blast
  then obtain files where g: "GetHistoricalFiles h fm os = (Inr files, os')"
    using assms(3) by (simp add: GetHistoricalFiles_def fs_current_path_def)
  with historical_files_invisible [OF assms(2)] i show ?thesis by blast
qed

lemma DeleteOldestFiles_reliable:
  assumes "reliable os" "is_absolute (host_platform h) (fm_base_name fm)" "os_cwd os = Some d" "is_directory d os"
  shows "\<exists>os'. DeleteOldestFiles h fm os = (Inr (), os') \<and> same_system os os' \<and>
     (\<forall>q. file_content q os' = file_content q os)"
proof -
  from GetHistoricalFiles_reliable [OF assms] obtain os' where
    g: "GetHistoricalFiles h fm os = (Inr [], os')" "same_system os os'"
      "\<forall>q. file_content q os' = file_content q os" by blast
  then have "DeleteOldestFiles h fm os = (Inr (), os')"
    by (simp add: DeleteOldestFiles_def delete_oldest_done)
  with g(2,3) show ?thesis by blast
qed

text \<open>The two names a rotation works with.\<close>

definition first_name :: "FileManager \<Rightarrow> string" where
  "first_name fm = fm_base_name fm @ ''.log''"

definition rotated_name :: "FileManager \<Rightarrow> string" where
  "rotated_name fm = fm_base_name fm @ ''.1.log''"

lemma rotated_name_is_first_sequence: "SequenceName fm 1 = rotated_name fm"
  by (simp add: SequenceName_def rotated_name_def decimal_eval)

text \<open>A file manager that can rotate.\<close>

definition can_rotate :: "'k host \<Rightarrow> FileManager \<times> 'k os \<Rightarrow> bool" where
  "can_rotate h = (\<lambda>(fm, os). fm_ready (fm, os) \<and> usable_base (host_platform h) (fm_base_name fm) \<and> openable h (first_name fm) \<and>
     map_option f_path (fm_file fm) = Some (fm_name fm) \<and> fm_name fm \<noteq> rotated_name fm \<and>
     (\<exists>d. os_cwd os = Some d \<and> is_directory d os) \<and>
     is_directory (parent_path (host_platform h) (fm_base_name fm)) os \<and>
     \<not> is_directory (first_name fm) os \<and> \<not> is_directory (rotated_name fm) os)"

lemma first_name_not_rotated: "first_name fm \<noteq> rotated_name fm"
  by (simp add: first_name_def rotated_name_def)

lemma name_parents:
  assumes "usable_base (host_platform h) (fm_base_name fm)"
  shows "parent_path (host_platform h) (first_name fm) = parent_path (host_platform h) (fm_base_name fm)"
    "parent_path (host_platform h) (rotated_name fm) = parent_path (host_platform h) (fm_base_name fm)"
  using assms by (auto simp: first_name_def rotated_name_def is_sep_def intro!: usable_parent_suffix)

lemma can_rotateD:
  assumes "can_rotate h (fm, os)"
  obtains f d where "fm_file fm = Some f" "f_path f = fm_name fm" "reliable os" "usable_base (host_platform h) (fm_base_name fm)"
    "openable h (first_name fm)" "os_cwd os = Some d" "is_directory d os"
    "is_directory (parent_path (host_platform h) (fm_base_name fm)) os"
    "\<not> is_directory (first_name fm) os" "\<not> is_directory (rotated_name fm) os" "fm_name fm \<noteq> rotated_name fm"
  using assms by (auto simp: can_rotate_def fm_ready_def split: option.splits)

text \<open>The first half of a rotation: close, look for historical files, rename.\<close>

lemma Rotate_renames:
  assumes can: "can_rotate h (fm, os)" and c: "fm_content (fm, os) = Some c"
  shows "\<exists>os'. Rotate h fm os = reopen_after_rename h (fm\<lparr>fm_file := None\<rparr>) os' \<and> same_system os os' \<and>
     file_content (rotated_name fm) os' = Some c \<and> file_content (fm_name fm) os' = None \<and>
     (\<forall>q. q \<noteq> fm_name fm \<and> q \<noteq> rotated_name fm \<longrightarrow> file_content q os' = file_content q os)"
proof -
  from can obtain f d where f: "fm_file fm = Some f" "f_path f = fm_name fm" "reliable os"
    and base: "usable_base (host_platform h) (fm_base_name fm)"
    and cwd: "os_cwd os = Some d" "is_directory d os"
    and dir: "is_directory (parent_path (host_platform h) (fm_base_name fm)) os"
    and nodir: "\<not> is_directory (rotated_name fm) os" and ne: "fm_name fm \<noteq> rotated_name fm"
    by (rule can_rotateD)
  have abs: "is_absolute (host_platform h) (fm_base_name fm)" using base by (simp add: usable_base_def)
  let ?fm1 = "fm\<lparr>fm_file := None\<rparr>" and ?os1 = "fclose f os"
  have "stream_content f os = Some c" using c f(1) by (simp add: fm_content_def)
  note close = fclose_reliable [OF f(3) this]
  from GetHistoricalFiles_reliable [of ?os1 h ?fm1 d] f(3) abs cwd same_system_keeps [OF close(1)] obtain os2 where
    g: "GetHistoricalFiles h ?fm1 ?os1 = (Inr [], os2)" "same_system ?os1 os2"
      "\<forall>q. file_content q os2 = file_content q ?os1" by auto
  note s2 = same_system_trans [OF close(1) g(2)]
  have c2: "file_content (fm_name fm) os2 = Some c" using g(3) close(2) f(2) by simp
  from rename_reliable [of os2 "fm_name fm" c "rotated_name fm" h] c2 f(3) nodir dir ne
    same_system_keeps [OF s2] name_parents(2) [OF base]
  obtain os3 where
    r: "fs_rename h (fm_name fm) (rotated_name fm) os2 = (True, os3)" "same_system os2 os3"
      "file_content (rotated_name fm) os3 = Some c" "file_content (fm_name fm) os3 = None"
      "\<forall>q. q \<noteq> fm_name fm \<and> q \<noteq> rotated_name fm \<longrightarrow> file_content q os3 = file_content q os2"
    by auto
  have "SequenceName ?fm1 1 = rotated_name fm"
    using rotated_name_is_first_sequence [of fm] by (simp add: SequenceName_def)
  then have "Rotate h fm os = reopen_after_rename h ?fm1 os3"
    using f(1) g(1) r(1)
    by (simp add: Rotate_def CloseCurrentFile_def CalculateNextSequenceNumber_def RenameWithSequence_def)
  with same_system_trans [OF s2 r(2)] r(3-5) g(3) close(3) f(2) show ?thesis by auto
qed

lemma reopen_reliable:
  assumes "reliable os" "usable_base (host_platform h) (fm_base_name fm)" "openable h (first_name fm)"
    "os_cwd os = Some d" "is_directory d os"
    "is_directory (parent_path (host_platform h) (fm_base_name fm)) os" "\<not> is_directory (first_name fm) os"
  shows "\<exists>os'. reopen_after_rename h fm os = (Inr True,
       fm\<lparr>fm_name := first_name fm, fm_file := Some \<lparr>f_path = first_name fm, f_pending = [], f_fd = 3\<rparr>, fm_size := 0\<rparr>, os') \<and>
     same_system os os' \<and>
     file_content (first_name fm) os' = Some (case file_content (first_name fm) os of None \<Rightarrow> [] | Some c \<Rightarrow> c) \<and>
     (\<forall>q. q \<noteq> first_name fm \<longrightarrow> file_content q os' = file_content q os)"
proof -
  have "is_absolute (host_platform h) (fm_base_name fm)" using assms(2) by (simp add: usable_base_def)
  from DeleteOldestFiles_reliable [OF assms(1) this assms(4,5)] obtain os1 where
    del: "DeleteOldestFiles h fm os = (Inr (), os1)" "same_system os os1"
      "\<forall>q. file_content q os1 = file_content q os" by blast
  let ?fm = "fm\<lparr>fm_name := first_name fm\<rparr>"
  have gen: "GenerateFileName h True fm = first_name fm" by (simp add: GenerateFileName_def first_name_def)
  from OpenLogFile_reliable [of os1 h ?fm] assms same_system_keeps [OF del(2)] name_parents(1) [OF assms(2)]
  obtain os2 where
    "OpenLogFile h ?fm os1 = (True, ?fm\<lparr>fm_file := Some \<lparr>f_path = first_name fm, f_pending = [], f_fd = 3\<rparr>\<rparr>, os2)"
      "same_system os1 os2"
      "file_content (first_name fm) os2 = Some (case file_content (first_name fm) os1 of None \<Rightarrow> [] | Some c \<Rightarrow> c)"
      "\<forall>q. q \<noteq> first_name fm \<longrightarrow> file_content q os2 = file_content q os1"
    by auto
  with del gen show ?thesis
    by (auto simp: reopen_after_rename_def Let_def intro: same_system_trans)
qed

lemma Rotate_reliable:
  assumes "can_rotate h (fm, os)" "fm_content (fm, os) = Some c"
  shows "\<exists>fm' os'. Rotate h fm os = (Inr True, fm', os') \<and> can_rotate h (fm', os') \<and>
     fm_base_name fm' = fm_base_name fm \<and> fm_name fm' = first_name fm \<and> fm_size fm' = 0 \<and>
     file_content (rotated_name fm) os' = Some c \<and>
     fm_content (fm', os') = Some (if fm_name fm = first_name fm then []
       else case file_content (first_name fm) os of None \<Rightarrow> [] | Some x \<Rightarrow> x) \<and>
     (fm_name fm \<noteq> first_name fm \<longrightarrow> file_content (fm_name fm) os' = None) \<and>
     (\<forall>q. q \<noteq> fm_name fm \<and> q \<noteq> first_name fm \<and> q \<noteq> rotated_name fm \<longrightarrow> file_content q os' = file_content q os)"
proof -
  from Rotate_renames [OF assms] obtain os1 where
    r: "Rotate h fm os = reopen_after_rename h (fm\<lparr>fm_file := None\<rparr>) os1" "same_system os os1"
      "file_content (rotated_name fm) os1 = Some c" "file_content (fm_name fm) os1 = None"
      "\<forall>q. q \<noteq> fm_name fm \<and> q \<noteq> rotated_name fm \<longrightarrow> file_content q os1 = file_content q os" by blast
  from assms(1) obtain f d where
    d: "fm_file fm = Some f" "f_path f = fm_name fm" "reliable os" "usable_base (host_platform h) (fm_base_name fm)"
      "openable h (first_name fm)" "os_cwd os = Some d" "is_directory d os"
      "is_directory (parent_path (host_platform h) (fm_base_name fm)) os"
      "\<not> is_directory (first_name fm) os" "\<not> is_directory (rotated_name fm) os" "fm_name fm \<noteq> rotated_name fm"
    by (rule can_rotateD)
  let ?fm = "fm\<lparr>fm_file := None\<rparr>"
  let ?fm' = "?fm\<lparr>fm_name := first_name fm, fm_file := Some \<lparr>f_path = first_name fm, f_pending = [], f_fd = 3\<rparr>, fm_size := 0\<rparr>"
  have first: "first_name ?fm = first_name fm" by (simp add: first_name_def)
  from reopen_reliable [of os1 h ?fm d] d same_system_keeps [OF r(2)] obtain os2 where
    o: "reopen_after_rename h ?fm os1 = (Inr True, ?fm', os2)" "same_system os1 os2"
      "file_content (first_name fm) os2 = Some (case file_content (first_name fm) os1 of None \<Rightarrow> [] | Some c \<Rightarrow> c)"
      "\<forall>q. q \<noteq> first_name fm \<longrightarrow> file_content q os2 = file_content q os1"
    unfolding first by auto
  note keep = same_system_keeps [OF same_system_trans [OF r(2) o(2)]]
  have "can_rotate h (?fm', os2)"
    using d keep first_name_not_rotated [of fm]
    by (simp add: can_rotate_def fm_ready_def first_name_def rotated_name_def)
  moreover have "fm_content (?fm', os2) = Some (if fm_name fm = first_name fm then []
       else case file_content (first_name fm) os of None \<Rightarrow> [] | Some x \<Rightarrow> x)"
    using o(3) r(4,5) first_name_not_rotated [of fm] by (auto simp: fm_content_def stream_content_def)
  moreover have "file_content (rotated_name fm) os2 = Some c"
    using o(4) r(3) first_name_not_rotated [of fm] by simp
  ultimately show ?thesis
    using r o by (intro exI [of _ ?fm'] exI [of _ os2]) simp
qed



text \<open>A file manager as \<open>Initialize\<close> leaves it, for the witnesses.\<close>

lemma open_fm_can_rotate:
  assumes "name \<in> {''/w/App.log'', ''/w/App_7.log''}"
  shows "can_rotate (sample_host (Some MacOS))
     (open_fm\<lparr>fm_name := name, fm_file := Some \<lparr>f_path = name, f_pending = [], f_fd = 3\<rparr>\<rparr>, sample_os files [''/w''])"
proof -
  have parent: "parent_path (Some MacOS) ''/w/App'' = ''/w''"
    by (simp add: parent_path_def root_length_def root_name_length_def is_sep_def last_part_def strip_seps_def)
  have "usable_base (Some MacOS) ''/w/App''" by (simp add: usable_base_def is_absolute_def is_sep_def)
  with parent assms openable_posix [of "sample_host (Some MacOS)"] show ?thesis
    by (auto simp: can_rotate_def fm_ready_def sample_os_reliable rotated_name_def first_name_def)
      (simp_all add: open_fm_def FileManager_ctor_def sample_os_def is_directory_def)
qed

lemma open_fm_same:
  "open_fm\<lparr>fm_name := ''/w/App.log'', fm_file := Some \<lparr>f_path = ''/w/App.log'', f_pending = [], f_fd = 3\<rparr>\<rparr> = open_fm"
  by (simp add: open_fm_def)


section \<open>What writing leaves alone\<close>

lemma fflush_frame:
  "fflush f os = (ok, f', os') \<Longrightarrow> same_system os os' \<and> (\<forall>q. q \<noteq> f_path f \<longrightarrow> file_content q os' = file_content q os)"
  by (auto simp: fflush_def syscall_def same_system_def os_simps Let_def option.map_ident)

lemma fwrite_frame:
  "fwrite h d f os = (n, f', os') \<Longrightarrow> same_system os os' \<and> (\<forall>q. q \<noteq> f_path f \<longrightarrow> file_content q os' = file_content q os)"
  by (auto simp: fwrite_def syscall_def same_system_def os_simps Let_def option.map_ident)

lemma fsync_frame: "fsync f os = (ok, os') \<Longrightarrow> same_system os os' \<and> (\<forall>q. file_content q os' = file_content q os)"
  by (auto simp: fsync_def syscall_def same_system_def os_simps)

lemma FlushToFile_frame:
  assumes "FlushToFile h f os = (ok, f', os')"
  shows "same_system os os' \<and> (\<forall>q. q \<noteq> f_path f \<longrightarrow> file_content q os' = file_content q os)"
proof -
  obtain b f1 os1 where fl: "fflush f os = (b, f1, os1)" by (metis prod_cases3)
  obtain s os2 where fs: "fsync f1 os1 = (s, os2)" by fastforce
  from assms fl fs have "os' = os1 \<or> os' = os2"
    by (auto simp: FlushToFile_def split: if_splits bool.splits)
  with fflush_frame [OF fl] fsync_frame [OF fs] show ?thesis by (auto intro: same_system_trans)
qed

lemma Write_frame:
  assumes "Write h d fm os = (ok, fm', os')" "fm_file fm = Some f"
  shows "same_system os os' \<and> (\<forall>q. q \<noteq> f_path f \<longrightarrow> file_content q os' = file_content q os)"
proof -
  obtain n f1 os1 where w: "fwrite h d f os = (n, f1, os1)" by (metis prod_cases3)
  obtain b f2 os2 where fl: "FlushToFile h f1 os1 = (b, f2, os2)" by (metis prod_cases3)
  have "f_path f1 = f_path f" using w by (auto simp: fwrite_def Let_def syscall_def)
  moreover have "os' = os1 \<or> os' = os2"
    using assms w fl by (auto simp: Write_def Let_def split: if_splits)
  ultimately show ?thesis
    using fwrite_frame [OF w] FlushToFile_frame [OF fl] by (auto intro: same_system_trans)
qed

lemma Write_can_rotate:
  assumes "can_rotate h (fm, os)" "fm_content (fm, os) = Some c" "Write h d fm os = (ok, fm', os')"
  shows "can_rotate h (fm', os') \<and> fm_base_name fm' = fm_base_name fm \<and> fm_name fm' = fm_name fm \<and>
     fm_content (fm', os') = Some (c @ text_bytes h d) \<and> ok \<and>
     (\<forall>q. q \<noteq> fm_name fm \<longrightarrow> file_content q os' = file_content q os)"
proof -
  have ready: "fm_ready (fm, os)" using assms(1) by (auto simp: can_rotate_def)
  from Write_total [OF assms(2,3)] ready have
    W: "ok" "fm_content (fm', os') = Some (c @ text_bytes h d)" "same_object fm fm'" "os_fails os' = os_fails os"
    by auto
  from assms(1) obtain f where f: "fm_file fm = Some f" "f_path f = fm_name fm" by (rule can_rotateD)
  note fr = Write_frame [OF assms(3) f(1)]
  note keep = same_system_keeps [OF conjunct1 [OF fr]]
  have obj: "fm_base_name fm' = fm_base_name fm" "fm_name fm' = fm_name fm"
    "map_option f_path (fm_file fm') = map_option f_path (fm_file fm)"
    using W(3) by (simp_all add: same_object_def)
  have names: "first_name fm' = first_name fm" "rotated_name fm' = rotated_name fm"
    using obj by (simp_all add: first_name_def rotated_name_def)
  have "fm_ready (fm', os')" by (rule fm_ready_kept [OF ready W(3,4)])
  then have "can_rotate h (fm', os')"
    using assms(1) keep obj names unfolding can_rotate_def prod.case by simp
  with W obj fr f(2) show ?thesis by auto
qed

text \<open>
  C27: the second rotation destroys what the first one saved: historical files are never found,
  so every rotation renames to \<open>base.1.log\<close>; after rotating, writing and rotating again, only the
  text written in between is left in a historical file, and what the first rotation moved
  there, the whole log up to then, is in no file any more.
\<close>

theorem second_rotation_destroys_first:
  assumes "can_rotate h (fm, os)" "fm_content (fm, os) = Some c" "fm_name fm = first_name fm"
  shows "\<exists>fm1 os1 fm2 os2 fm3 os3. Rotate h fm os = (Inr True, fm1, os1) \<and>
     file_content (rotated_name fm) os1 = Some c \<and> Write h d fm1 os1 = (True, fm2, os2) \<and>
     Rotate h fm2 os2 = (Inr True, fm3, os3) \<and> file_content (rotated_name fm) os3 = Some (text_bytes h d) \<and>
     file_content (first_name fm) os3 = Some [] \<and>
     (\<forall>q. q \<noteq> first_name fm \<and> q \<noteq> rotated_name fm \<longrightarrow> file_content q os3 = file_content q os)"
proof -
  from Rotate_reliable [OF assms(1,2)] assms(3) obtain fm1 os1 where
    r1: "Rotate h fm os = (Inr True, fm1, os1)" "can_rotate h (fm1, os1)" "fm_base_name fm1 = fm_base_name fm"
      "fm_name fm1 = first_name fm" "file_content (rotated_name fm) os1 = Some c" "fm_content (fm1, os1) = Some []"
      "\<forall>q. q \<noteq> first_name fm \<and> q \<noteq> rotated_name fm \<longrightarrow> file_content q os1 = file_content q os"
    by auto
  obtain ok fm2 os2 where w: "Write h d fm1 os1 = (ok, fm2, os2)" by (metis prod_cases3)
  from Write_can_rotate [OF r1(2,6) w] r1(3,4) have
    W: "ok" "can_rotate h (fm2, os2)" "fm_content (fm2, os2) = Some (text_bytes h d)" "fm_name fm2 = first_name fm"
      "fm_base_name fm2 = fm_base_name fm"
      "\<forall>q. q \<noteq> first_name fm \<longrightarrow> file_content q os2 = file_content q os1"
    by auto
  have names: "first_name fm2 = first_name fm" "rotated_name fm2 = rotated_name fm"
    using W(5) by (simp_all add: first_name_def rotated_name_def)
  from Rotate_reliable [OF W(2,3)] W(4) names obtain fm3 os3 where
    r2: "Rotate h fm2 os2 = (Inr True, fm3, os3)" "file_content (rotated_name fm) os3 = Some (text_bytes h d)"
      "fm_content (fm3, os3) = Some []" "can_rotate h (fm3, os3)" "fm_name fm3 = first_name fm"
      "\<forall>q. q \<noteq> first_name fm \<and> q \<noteq> rotated_name fm \<longrightarrow> file_content q os3 = file_content q os2"
    by auto
  from r2(4) obtain f3 where f3: "fm_file fm3 = Some f3" "f_path f3 = fm_name fm3" by (rule can_rotateD)
  have "file_content (first_name fm) os3 = Some []"
    using r2(3,5) f3 by (auto simp: fm_content_def stream_content_def)
  moreover have "\<forall>q. q \<noteq> first_name fm \<and> q \<noteq> rotated_name fm \<longrightarrow> file_content q os3 = file_content q os"
    using r1(7) W(6) r2(6) by simp
  ultimately show ?thesis using r1(1,5) w W(1) r2(1,2)
    by (intro exI [of _ fm1] exI [of _ os1] exI [of _ fm2] exI [of _ os2] exI [of _ fm3] exI [of _ os3]) simp
qed

theorem second_rotation_destroys_first_witness:
  "\<exists>fm1 os1 fm2 os2 fm3 os3.
     Rotate (sample_host (Some MacOS)) open_fm (sample_os [(''/w/App.log'', ''old'')] [''/w'']) = (Inr True, fm1, os1) \<and>
     Write (sample_host (Some MacOS)) ''new'' fm1 os1 = (True, fm2, os2) \<and>
     Rotate (sample_host (Some MacOS)) fm2 os2 = (Inr True, fm3, os3) \<and>
     file_content ''/w/App.1.log'' os1 = Some ''old'' \<and> file_content ''/w/App.1.log'' os3 = Some ''new''"
proof -
  have can: "can_rotate (sample_host (Some MacOS)) (open_fm, sample_os [(''/w/App.log'', ''old'')] [''/w''])"
    using open_fm_can_rotate [of "''/w/App.log''"] by (simp add: open_fm_same)
  have names: "fm_name open_fm = first_name open_fm" "rotated_name open_fm = ''/w/App.1.log''"
    by (simp_all add: first_name_def rotated_name_def open_fm_def FileManager_ctor_def)
  from second_rotation_destroys_first [OF can open_fm_content names(1), of "''new''"]
  show ?thesis unfolding names(2) by (auto simp: text_bytes_posix)
qed

text \<open>
  A process that is not the first one and logs to its own \<open>base_PID.log\<close> moves, when it
  rotates, into the first process's \<open>base.log\<close>: it appends to that file's content while its size
  says 0, and its own file is gone.
\<close>

theorem rotation_enters_foreign_file:
  assumes "can_rotate h (fm, os)" "fm_content (fm, os) = Some c" "fm_name fm \<noteq> first_name fm"
    and "file_content (first_name fm) os = Some foreign"
  shows "\<exists>fm' os'. Rotate h fm os = (Inr True, fm', os') \<and> fm_name fm' = first_name fm \<and>
     fm_content (fm', os') = Some foreign \<and> fm_size fm' = 0 \<and> file_content (fm_name fm) os' = None"
  using Rotate_reliable [OF assms(1,2)] assms(3,4) by auto

theorem rotation_enters_foreign_file_witness:
  "\<exists>fm os. Rotate (sample_host (Some MacOS))
       (open_fm\<lparr>fm_name := ''/w/App_7.log'', fm_file := Some \<lparr>f_path = ''/w/App_7.log'', f_pending = [], f_fd = 3\<rparr>\<rparr>)
       (sample_os [(''/w/App.log'', ''first''), (''/w/App_7.log'', ''mine'')] [''/w'']) = (Inr True, fm, os) \<and>
     fm_content (fm, os) = Some ''first'' \<and> fm_size fm = 0"
proof -
  let ?fm = "open_fm\<lparr>fm_name := ''/w/App_7.log'', fm_file := Some \<lparr>f_path = ''/w/App_7.log'', f_pending = [], f_fd = 3\<rparr>\<rparr>"
  let ?os = "sample_os [(''/w/App.log'', ''first''), (''/w/App_7.log'', ''mine'')] [''/w'']"
  have can: "can_rotate (sample_host (Some MacOS)) (?fm, ?os)" by (rule open_fm_can_rotate) simp
  have c: "fm_content (?fm, ?os) = Some ''mine''"
    by (simp add: fm_content_def stream_content_def file_content_def sample_os_def)
  have n: "fm_name ?fm \<noteq> first_name ?fm" "file_content (first_name ?fm) ?os = Some ''first''"
    by (simp_all add: first_name_def open_fm_def FileManager_ctor_def file_content_def sample_os_def)
  from rotation_enters_foreign_file [OF can c n] show ?thesis by blast
qed

lemma OpenLogFile_failed: "OpenLogFile h fm os = (False, fm', os') \<Longrightarrow> fm_file fm' = None \<and> fm_initialized fm' = fm_initialized fm"
  by (auto simp: OpenLogFile_def split: sum.splits prod.splits if_splits)

lemma reopen_failed:
  assumes "reopen_after_rename h fm os = (r, fm', os')" "r \<noteq> Inr True" "fm_file fm = None"
  shows "fm_file fm' = None \<and> fm_initialized fm' = fm_initialized fm"
  using assms OpenLogFile_failed [of h "fm\<lparr>fm_name := GenerateFileName h True fm\<rparr>"]
  by (fastforce simp: reopen_after_rename_def Let_def split: prod.splits sum.splits bool.splits)

lemma Rotate_failed:
  assumes "Rotate h fm os = (r, fm', os')" "r \<noteq> Inr True"
  shows "fm_file fm' = None \<and> fm_initialized fm' = fm_initialized fm"
proof (cases "fm_file fm")
  case None
  then show ?thesis using assms by (simp add: Rotate_def)
next
  case (Some f)
  let ?fm = "fm\<lparr>fm_file := None\<rparr>"
  have "fm' = ?fm \<or> (\<exists>os1. reopen_after_rename h ?fm os1 = (r, fm', os'))"
    using assms(1) Some
    by (auto simp: Rotate_def CloseCurrentFile_def Let_def split: prod.splits sum.splits bool.splits option.splits)
  then show ?thesis
  proof
    assume "\<exists>os1. reopen_after_rename h ?fm os1 = (r, fm', os')"
    then obtain os1 where "reopen_after_rename h ?fm os1 = (r, fm', os')" by blast
    from reopen_failed [OF this assms(2)] show ?thesis by simp
  qed simp
qed

text \<open>
  A rotation that fails, by whatever error of the system and at whatever point, ends the
  logging for good: from then on the file is closed and every \<open>Write\<close>, \<open>Flush\<close> and \<open>Rotate\<close>
  returns false without touching the system, while \<open>Initialize\<close> keeps answering that all is well.
\<close>

theorem failed_rotation_stops_logging:
  assumes "Rotate h fm os = (r, fm', os')" "r \<noteq> Inr True" "fm_initialized fm"
  shows "Write h data fm' os2 = (False, fm', os2) \<and> Flush h fm' os2 = (False, fm', os2) \<and>
     Rotate h fm' os2 = (Inr False, fm', os2) \<and> Initialize h pid fm' os2 = (Inr True, fm', os2)"
  using Rotate_failed [OF assms(1,2)] assms(3)
  by (simp add: Write_def Flush_def Rotate_def Initialize_def)

theorem failed_rotation_stops_logging_witness:
  "\<exists>fm os. Rotate (sample_host (Some MacOS)) open_fm ((sample_os [(''/w/App.log'', ''abc'')] [''/w''])\<lparr>os_cwd := None\<rparr>) =
       (Inl filesystem_error, fm, os) \<and>
     Write (sample_host (Some MacOS)) ''lost'' fm os = (False, fm, os) \<and>
     Initialize (sample_host (Some MacOS)) 7 fm os = (Inr True, fm, os)"
proof -
  let ?os = "(sample_os [(''/w/App.log'', ''abc'')] [''/w''])\<lparr>os_cwd := None\<rparr>"
  have cwd: "os_cwd (fclose f ?os) = None" for f
    by (simp add: fclose_def fflush_def syscall_def os_simps Let_def)
  obtain fm os where r: "Rotate (sample_host (Some MacOS)) open_fm ?os = (Inl filesystem_error, fm, os)"
    by (simp add: Rotate_def CloseCurrentFile_def GetHistoricalFiles_def fs_current_path_def cwd open_fm_def)
  have "Inl filesystem_error \<noteq> Inr True" "fm_initialized open_fm" by (simp_all add: open_fm_def)
  from failed_rotation_stops_logging [OF r this] r show ?thesis by blast
qed

end
