(* ===== verification/Process_Isolation.thy ===== *)
theory Process_Isolation
  imports File_Rotate Sample_Host
begin

text \<open>
  Two processes that log under the same base name: the lock, the naming and the writing of the file
  manager together keep their texts apart.
\<close>

section \<open>The lock excludes\<close>

text \<open>The documented laws of the system's lock, for the platform the host has.\<close>

definition documented_lock :: "'k host \<Rightarrow> string \<Rightarrow> bool" where
  "documented_lock h base \<longleftrightarrow>
     (\<exists>holders w. host_platform h = Some Windows \<and> mutex_laws h holders \<and> wide_lock_name h base = Some w) \<or>
     (\<exists>names. host_platform h = Some MacOS \<and> sem_laws h names)"

lemma lock_excludes:
  fixes h :: "'k host"
  assumes "documented_lock h base"
  shows "\<exists>held.
     (\<forall>m os m' os'. IsAnotherProcessLogging h base m os = (Inr False, m', os') \<longrightarrow> held (os_ipc os')) \<and>
     (\<forall>m os. held (os_ipc os) \<longrightarrow> fst (IsAnotherProcessLogging h base m os) = Inr True)"
  using assms unfolding documented_lock_def
proof (elim disjE exE conjE)
  fix holders w
  assume win: "host_platform h = Some Windows" "mutex_laws h holders" "wide_lock_name h base = Some w"
  show ?thesis
  proof (intro exI [of _ "\<lambda>k. w \<in> snd ` holders k"] conjI allI impI)
    fix m :: "nat option" and os :: "'k os" and m' os'
    assume "IsAnotherProcessLogging h base m os = (Inr False, m', os')"
    from win_lock_first [OF win(2,1,3) this] show "w \<in> snd ` holders (os_ipc os')" by force
  next
    fix m :: "nat option" and os :: "'k os"
    assume "w \<in> snd ` holders (os_ipc os)"
    from win_lock_taken [OF win(2,1,3) this, of m] show "fst (IsAnotherProcessLogging h base m os) = Inr True" by auto
  qed
next
  fix names
  assume mac: "host_platform h = Some MacOS" "sem_laws h names"
  let ?n = "semaphore_name h (filename_of (Some MacOS) base)"
  show ?thesis
  proof (intro exI [of _ "\<lambda>k. ?n \<in> names k"] conjI allI impI)
    fix m :: "nat option" and os :: "'k os" and m' os'
    assume call: "IsAnotherProcessLogging h base m os = (Inr False, m', os')"
    obtain b m1 os1 where c: "IsAnotherProcessLoggingPOSIX h (filename_of (Some MacOS) base) m os = (b, m1, os1)"
      by (metis prod_cases3)
    with call mac(1) have "\<not> b" "os' = os1" by (auto simp: IsAnotherProcessLogging_def)
    with mac_lock_names(3) [OF mac(2,1) c] show "?n \<in> names (os_ipc os')" by simp
  next
    fix m :: "nat option" and os :: "'k os"
    assume "?n \<in> names (os_ipc os)"
    from mac_lock_taken [OF mac(2,1) this, of m] show "fst (IsAnotherProcessLogging h base m os) = Inr True" by auto
  qed
qed

section \<open>The names differ\<close>

lemma show_int_inject: "show_int i = show_int j \<longleftrightarrow> i = j"
proof
  assume eq: "show_int i = show_int j"
  have minus: "CHR ''-'' # s \<noteq> show_nat n" for s n
  proof
    assume "CHR ''-'' # s = show_nat n"
    then have "isdigit CHR ''-''" by (intro show_nat_isdigit [of _ n]) (metis list.set_intros(1))
    then show False by (simp add: isdigit_def)
  qed
  from eq show "i = j" by (auto simp: show_int_def minus minus [symmetric] show_nat_inject split: if_splits)
qed simp

lemma pid_value_inject: "pid_value p v = pid_value p w \<longleftrightarrow> v = w"
  by (cases p) (simp_all add: pid_value_def word_uint_eq_iff [symmetric] word_eq_iff_signed [symmetric])

lemma generated_names_differ:
  assumes "fm_base_name a = fm_base_name b" "fm_process_id a \<noteq> fm_process_id b" "\<not> (first \<and> first')"
  shows "GenerateFileName h first a \<noteq> GenerateFileName h first' b"
  using assms by (auto simp: GenerateFileName_def show_int_inject pid_value_inject split: option.splits)

section \<open>One process after the other\<close>

lemma ancestor_not_generated:
  assumes "d \<in> set (ancestors (host_platform h) (parent_path (host_platform h) (fm_base_name fm)))"
  shows "d \<noteq> GenerateFileName h first fm"
  using assms generated_name_not_ancestor [of h first fm] by metis

text \<open>When one process has opened its file, another one can still open its own.\<close>

lemma can_open_kept:
  assumes "can_open h pid base full os" "fm_ready (fm, os')" "fm_base_name fm = full" "fm_name fm = GenerateFileName h first fm"
    and "\<forall>q. q \<noteq> fm_name fm \<longrightarrow> file_content q os' = file_content q os" "os_cwd os' = os_cwd os"
    and "\<forall>d. is_directory d os' \<longrightarrow> is_directory d os \<or> d \<in> set (ancestors (host_platform h) (parent_path (host_platform h) full))"
  shows "can_open h pid base full os'"
proof -
  let ?pl = "host_platform h" let ?fm = "(FileManager_ctor base)\<lparr>fm_base_name := full, fm_process_id := pid\<rparr>"
  from assms(1) obtain cwd where c: "os_cwd os = Some cwd" "full = absolute_base h cwd base" "usable_base ?pl full"
    "\<forall>d \<in> set (ancestors ?pl (parent_path ?pl full)). \<not> is_file d os"
    "\<forall>first. \<not> is_directory (GenerateFileName h first ?fm) os" "\<forall>first. openable h (GenerateFileName h first ?fm)"
    unfolding can_open_def Let_def by blast
  have "reliable os'" using assms(2) by (simp add: fm_ready_def)
  moreover have "\<not> is_file d os'" if d: "d \<in> set (ancestors ?pl (parent_path ?pl full))" for d
  proof -
    have "d \<noteq> fm_name fm" using ancestor_not_generated [of d h fm first] d assms(3,4) by metis
    then show ?thesis using assms(5) c(4) d by (simp add: is_file_content)
  qed
  moreover have "\<not> is_directory (GenerateFileName h first ?fm) os'" for first
  proof
    assume "is_directory (GenerateFileName h first ?fm) os'"
    with assms(7) c(5) have "GenerateFileName h first ?fm \<in> set (ancestors ?pl (parent_path ?pl full))" by blast
    with ancestor_not_generated [of "GenerateFileName h first ?fm" h ?fm first] show False by simp
  qed
  ultimately show ?thesis unfolding can_open_def Let_def using c(1-3,6) assms(6) by auto
qed

lemma two_processes_open:
  assumes "documented_lock h full" "can_open h pid1 base full os" "can_open h pid2 base full os" "pid1 \<noteq> pid2"
  shows "\<exists>a os1 b os2. Initialize h pid1 (FileManager_ctor base) os = (Inr True, a, os1) \<and>
     Initialize h pid2 (FileManager_ctor base) os1 = (Inr True, b, os2) \<and>
     fm_name a \<noteq> fm_name b \<and> fm_ready (a, os2) \<and> fm_ready (b, os2) \<and>
     map_option f_path (fm_file a) = Some (fm_name a) \<and> map_option f_path (fm_file b) = Some (fm_name b) \<and>
     fm_content (a, os2) = Some (text_at (fm_name a) os) \<and> fm_content (b, os2) = Some (text_at (fm_name b) os)"
proof -
  have ctor: "\<not> fm_initialized (FileManager_ctor base)" "fm_mutex (FileManager_ctor base) = None"
    by (simp_all add: FileManager_ctor_def)
  from can_open_Initialize [OF assms(2)] obtain a os1 first where
    a: "Initialize h pid1 (FileManager_ctor base) os = (Inr True, a, os1)" "fm_ready (a, os1)" "fm_base_name a = full"
      "fm_name a = GenerateFileName h first a" "fm_content (a, os1) = Some (text_at (fm_name a) os)"
      "\<forall>q. q \<noteq> fm_name a \<longrightarrow> file_content q os1 = file_content q os"
      "map_option f_path (fm_file a) = Some (fm_name a)" "os_cwd os1 = os_cwd os"
      "\<forall>d. is_directory d os1 \<longrightarrow> is_directory d os \<or> d \<in> set (ancestors (host_platform h) (parent_path (host_platform h) full))"
    by blast
  from can_open_Initialize [OF can_open_kept [OF assms(3) a(2-4,6,8,9)]] obtain b os2 first' where
    b: "Initialize h pid2 (FileManager_ctor base) os1 = (Inr True, b, os2)" "fm_ready (b, os2)" "fm_base_name b = full"
      "fm_name b = GenerateFileName h first' b" "fm_content (b, os2) = Some (text_at (fm_name b) os1)"
      "\<forall>q. q \<noteq> fm_name b \<longrightarrow> file_content q os2 = file_content q os1"
      "map_option f_path (fm_file b) = Some (fm_name b)" by blast
  from lock_excludes [OF assms(1)] obtain held where
    held: "\<And>m os m' os'. IsAnotherProcessLogging h full m os = (Inr False, m', os') \<Longrightarrow> held (os_ipc os')"
      "\<And>m os. held (os_ipc os) \<Longrightarrow> fst (IsAnotherProcessLogging h full m os) = Inr True" by blast
  from Initialize_lock [OF a(1) ctor] a(3) obtain osa another_a osa' where
    la: "IsAnotherProcessLogging h full None osa = (Inr another_a, fm_mutex a, osa')" "os_ipc os1 = os_ipc osa'"
      "fm_name a = GenerateFileName h (\<not> another_a) a" "fm_process_id a = pid1" by auto
  from Initialize_lock [OF b(1) ctor] b(3) obtain osb another_b osb' where
    lb: "os_ipc osb = os_ipc os1" "IsAnotherProcessLogging h full None osb = (Inr another_b, fm_mutex b, osb')"
      "fm_name b = GenerateFileName h (\<not> another_b) b" "fm_process_id b = pid2" by auto
  have "another_b" if "\<not> another_a"
  proof -
    have "held (os_ipc osb)" using held(1) la(1,2) lb(1) that by simp
    from held(2) [OF this, of None] lb(2) show ?thesis by simp
  qed
  then have differ: "fm_name a \<noteq> fm_name b"
    unfolding la(3) lb(3) using a(3) b(3) la(4) lb(4) assms(4) by (intro generated_names_differ) auto
  have "fm_ready (a, os2)" using a(2) b(2) by (simp add: fm_ready_def split: option.splits)
  moreover have "fm_content (a, os2) = fm_content (a, os1)"
    using a(7) b(6) differ by (auto simp: fm_content_def stream_content_def split: option.splits)
  moreover have "text_at (fm_name b) os1 = text_at (fm_name b) os" using a(6) differ by (simp add: text_at_def)
  ultimately show ?thesis using a(1,5,7) b(1,2,5,7) differ by auto
qed

section \<open>Both write\<close>

text \<open>Any interleaving of the writes of the two; \<open>True\<close> marks those of the first.\<close>

fun both_write ::
  "'k host \<Rightarrow> (bool \<times> string) list \<Rightarrow> FileManager \<times> FileManager \<times> 'k os \<Rightarrow> FileManager \<times> FileManager \<times> 'k os" where
  "both_write h [] s = s"
| "both_write h ((True, d) # ws) (a, b, os) = (case Write h d a os of (ok, a, os) \<Rightarrow> both_write h ws (a, b, os))"
| "both_write h ((False, d) # ws) (a, b, os) = (case Write h d b os of (ok, b, os) \<Rightarrow> both_write h ws (a, b, os))"

definition texts_of :: "bool \<Rightarrow> (bool \<times> string) list \<Rightarrow> string" where
  "texts_of who ws = concat (map snd (filter (\<lambda>w. fst w = who) ws))"

lemma texts_of_simps [simp]:
  "texts_of who [] = []" "texts_of who ((who, d) # ws) = d @ texts_of who ws"
  "texts_of True ((False, d) # ws) = texts_of True ws" "texts_of False ((True, d) # ws) = texts_of False ws"
  by (simp_all add: texts_of_def)

text \<open>A file manager with its open file and the text of it.\<close>

definition logs_to :: "FileManager \<Rightarrow> string \<Rightarrow> string \<Rightarrow> 'k os \<Rightarrow> bool" where
  "logs_to fm name c os \<longleftrightarrow> fm_ready (fm, os) \<and> map_option f_path (fm_file fm) = Some name \<and> fm_content (fm, os) = Some c"

lemma Write_logs_to:
  assumes "logs_to fm name c os" "Write h d fm os = (ok, fm', os')"
  shows "ok" "logs_to fm' name (c @ text_bytes h d) os'"
    "logs_to other name' c' os \<Longrightarrow> name' \<noteq> name \<Longrightarrow> logs_to other name' c' os'"
proof -
  from assms(1) obtain f where f: "fm_file fm = Some f" "f_path f = name" and r: "fm_ready (fm, os)" and c: "fm_content (fm, os) = Some c"
    by (auto simp: logs_to_def)
  from Write_total [OF c assms(2)] r have
    W: "ok" "fm_content (fm', os') = Some (c @ text_bytes h d)" "same_object fm fm'" "os_fails os' = os_fails os" by auto
  note fr = Write_frame [OF assms(2) f(1)]
  show "ok" by (rule W(1))
  show "logs_to fm' name (c @ text_bytes h d) os'"
    using fm_ready_kept [OF r W(3,4)] W(2,3) f by (simp add: logs_to_def same_object_def)
  assume o: "logs_to other name' c' os" "name' \<noteq> name"
  then obtain g where g: "fm_file other = Some g" "f_path g = name'" by (auto simp: logs_to_def)
  have "file_content name' os' = file_content name' os" using fr o(2) f(2) by auto
  then show "logs_to other name' c' os'"
    using o g same_system_keeps(1) [OF conjunct1 [OF fr]] by (simp add: logs_to_def fm_ready_def fm_content_def stream_content_def)
qed

lemma both_write_ok:
  assumes "logs_to a na ca os" "logs_to b nb cb os" "na \<noteq> nb"
  shows "\<exists>a' b' os'. both_write h ws (a, b, os) = (a', b', os') \<and>
     logs_to a' na (ca @ text_bytes h (texts_of True ws)) os' \<and> logs_to b' nb (cb @ text_bytes h (texts_of False ws)) os'"
  using assms
proof (induction h ws "(a, b, os)" arbitrary: a b os ca cb rule: both_write.induct)
  case (1 h a b os)
  then show ?case by (simp add: text_bytes_nil)
next
  case (2 h d ws a b os)
  obtain ok a1 os1 where w: "Write h d a os = (ok, a1, os1)" by (metis prod_cases3)
  note W = Write_logs_to [OF 2(2) w]
  have eq: "(ok, a1, os1) = Write h d a os" by (simp add: w)
  have other: "logs_to b nb cb os1" by (rule W(3) [OF 2(3)]) (use 2(4) in simp)
  from 2(1) [OF eq refl W(2) other 2(4)] w show ?case by (auto simp: text_bytes_append)
next
  case (3 h d ws a b os)
  obtain ok b1 os1 where w: "Write h d b os = (ok, b1, os1)" by (metis prod_cases3)
  note W = Write_logs_to [OF 3(3) w]
  have eq: "(ok, b1, os1) = Write h d b os" by (simp add: w)
  from 3(1) [OF eq refl W(3) [OF 3(2,4)] W(2) 3(4)] w show ?case by (auto simp: text_bytes_append)
qed

text \<open>
  C9: processes are isolated: on Windows or macOS, over the documented laws of the lock, when two processes
  with different identifiers open their logs under the same base name, one after the other and neither has
  ended, both succeed and their files have different names; and however their writes
  interleave after that, each file holds what it held at first followed by exactly the texts its own process
  has written, in their order.
\<close>

theorem processes_never_share:
  assumes "documented_lock h full" "can_open h pid1 base full os" "can_open h pid2 base full os" "pid1 \<noteq> pid2"
  shows "\<exists>a os1 b os2 a' b' os3. Initialize h pid1 (FileManager_ctor base) os = (Inr True, a, os1) \<and>
     Initialize h pid2 (FileManager_ctor base) os1 = (Inr True, b, os2) \<and> fm_name a \<noteq> fm_name b \<and>
     both_write h ws (a, b, os2) = (a', b', os3) \<and>
     fm_content (a', os3) = Some (text_at (fm_name a) os @ text_bytes h (texts_of True ws)) \<and>
     fm_content (b', os3) = Some (text_at (fm_name b) os @ text_bytes h (texts_of False ws))"
proof -
  from two_processes_open [OF assms] obtain a os1 b os2 where
    o: "Initialize h pid1 (FileManager_ctor base) os = (Inr True, a, os1)"
      "Initialize h pid2 (FileManager_ctor base) os1 = (Inr True, b, os2)" "fm_name a \<noteq> fm_name b"
    and l: "logs_to a (fm_name a) (text_at (fm_name a) os) os2" "logs_to b (fm_name b) (text_at (fm_name b) os) os2"
    unfolding logs_to_def by blast
  from both_write_ok [OF l o(3), of h ws] o show ?thesis unfolding logs_to_def by blast
qed

lemma sample_can_open: "can_open (sample_host (Some MacOS)) pid ''/w/App'' ''/w/App'' (sample_os [] [''/w''])"
proof -
  let ?h = "sample_host (Some MacOS)" let ?os = "sample_os [] [''/w'']"
  have base: "os_cwd ?os = Some ''/w''" "''/w/App'' = absolute_base ?h ''/w'' ''/w/App''" "usable_base (Some MacOS) ''/w/App''"
    by (simp_all add: sample_os_def absolute_base_def usable_base_def is_absolute_def is_sep_def)
  have "\<not> is_file d ?os" for d by (simp add: is_file_def sample_os_def)
  moreover have "\<not> is_directory (GenerateFileName ?h first ((FileManager_ctor ''/w/App'')\<lparr>fm_base_name := ''/w/App'', fm_process_id := pid\<rparr>)) ?os" for first
    by (simp add: GenerateFileName_def is_directory_def sample_os_def)
  moreover have "openable ?h name" for name by (rule openable_posix) simp
  ultimately show ?thesis unfolding can_open_def Let_def sample_host_platform using sample_os_reliable base by blast
qed

theorem processes_never_share_witness:
  "\<exists>a os1 b os2 a' b' os3.
     Initialize (sample_host (Some MacOS)) 7 (FileManager_ctor ''/w/App'') (sample_os [] [''/w'']) = (Inr True, a, os1) \<and>
     Initialize (sample_host (Some MacOS)) 8 (FileManager_ctor ''/w/App'') os1 = (Inr True, b, os2) \<and> fm_name a \<noteq> fm_name b \<and>
     both_write (sample_host (Some MacOS)) [(True, ''a''), (False, ''x''), (True, ''b'')] (a, b, os2) = (a', b', os3) \<and>
     fm_content (a', os3) = Some ''ab'' \<and> fm_content (b', os3) = Some ''x''"
proof -
  let ?h = "sample_host (Some MacOS)" let ?os = "sample_os [] [''/w'']" let ?ws = "[(True, ''a''), (False, ''x''), (True, ''b'')]"
  have lock: "documented_lock ?h ''/w/App''" unfolding documented_lock_def using sample_sem_laws sample_host_platform by blast
  have pids: "(7 :: ProcessIdType) \<noteq> 8" by simp
  have none: "text_at p ?os = []" for p by (simp add: text_at_def file_content_def sample_os_def)
  have texts: "text_bytes ?h (texts_of True ?ws) = ''ab''" "text_bytes ?h (texts_of False ?ws) = ''x''"
    by (simp_all add: text_bytes_posix)
  from processes_never_share [OF lock sample_can_open sample_can_open pids, of ?ws]
  show ?thesis unfolding none texts append_Nil .
qed

end
