(* ===== verification/Tag_Filter.thy ===== *)
theory Tag_Filter
  imports Log_Level
begin

text \<open>
  \<open>tag_filter.h\<close> and \<open>tag_filter.cpp\<close>: which tags are enabled and at which level. Every
  operation holds the mutex for its whole body, so concurrent calls are a sequence of these
  operations.
\<close>

section \<open>State and operations\<close>

record TagFilter =
  tf_enabled :: "string \<rightharpoonup> bool"
  tf_levels :: "string \<rightharpoonup> LogLevel"

definition TagFilter_ctor :: TagFilter where
  "TagFilter_ctor = \<lparr>tf_enabled = Map.empty, tf_levels = Map.empty\<rparr>"

definition setTagEnabled :: "string \<Rightarrow> bool \<Rightarrow> TagFilter \<Rightarrow> TagFilter" where
  "setTagEnabled tag enabled f = f\<lparr>tf_enabled := (tf_enabled f)(tag \<mapsto> enabled)\<rparr>"

definition isTagEnabled :: "string \<Rightarrow> TagFilter \<Rightarrow> bool" where
  "isTagEnabled tag f = (case tf_enabled f tag of None \<Rightarrow> True | Some b \<Rightarrow> b)"

definition setTagLevel :: "string \<Rightarrow> LogLevel \<Rightarrow> TagFilter \<Rightarrow> TagFilter" where
  "setTagLevel tag level f = f\<lparr>tf_levels := (tf_levels f)(tag \<mapsto> level)\<rparr>"

definition getTagLevel :: "string \<Rightarrow> TagFilter \<Rightarrow> LogLevel" where
  "getTagLevel tag f = (case tf_levels f tag of None \<Rightarrow> kLogLevelDebug | Some l \<Rightarrow> l)"

section \<open>The contract of a table of settings\<close>

text \<open>What the callers of the filter rely on: settings per key, with a default.\<close>

locale settings =
  fixes get :: "string \<Rightarrow> 's \<Rightarrow> 'v"
    and put :: "string \<Rightarrow> 'v \<Rightarrow> 's \<Rightarrow> 's"
    and init :: 's
    and default :: 'v
  assumes get_init: "get k init = default"
    and get_put_same: "get k (put k v s) = v"
    and get_put_other: "k \<noteq> k' \<Longrightarrow> get k (put k' v s) = get k s"
begin

lemma get_fold:
  "get k (fold (\<lambda>(k, v). put k v) kvs s) = (case map_of (rev kvs) k of None \<Rightarrow> get k s | Some v \<Rightarrow> v)"
proof (induction kvs arbitrary: s)
  case Nil
  then show ?case by simp
next
  case (Cons x kvs)
  obtain a b where x: "x = (a, b)" by fastforce
  show ?case
    using Cons.IH [of "put a b s"] get_put_same get_put_other [of k a]
    by (cases "k = a") (auto simp: x map_add_def split: option.splits)
qed

lemma get_history: "get k (fold (\<lambda>(k, v). put k v) kvs init) = (case map_of (rev kvs) k of None \<Rightarrow> default | Some v \<Rightarrow> v)"
  unfolding get_fold get_init ..

end

interpretation enabled: settings isTagEnabled setTagEnabled TagFilter_ctor True
  by unfold_locales (simp_all add: isTagEnabled_def setTagEnabled_def TagFilter_ctor_def)

interpretation levels: settings getTagLevel setTagLevel TagFilter_ctor kLogLevelDebug
  by unfold_locales (simp_all add: getTagLevel_def setTagLevel_def TagFilter_ctor_def)

section \<open>Properties\<close>

text \<open>A call of one of the two setters.\<close>

datatype setting = Set_enabled string bool | Set_level string LogLevel

fun apply_setting :: "setting \<Rightarrow> TagFilter \<Rightarrow> TagFilter" where
  "apply_setting (Set_enabled tag b) = setTagEnabled tag b"
| "apply_setting (Set_level tag l) = setTagLevel tag l"

fun enabled_settings :: "setting list \<Rightarrow> (string \<times> bool) list" where
  "enabled_settings [] = []"
| "enabled_settings (Set_enabled tag b # ss) = (tag, b) # enabled_settings ss"
| "enabled_settings (Set_level tag l # ss) = enabled_settings ss"

fun level_settings :: "setting list \<Rightarrow> (string \<times> LogLevel) list" where
  "level_settings [] = []"
| "level_settings (Set_enabled tag b # ss) = level_settings ss"
| "level_settings (Set_level tag l # ss) = (tag, l) # level_settings ss"

lemma settings_independent:
  "isTagEnabled tag (fold apply_setting ss f) = isTagEnabled tag (fold (\<lambda>(k, v). setTagEnabled k v) (enabled_settings ss) f)"
  "getTagLevel tag (fold apply_setting ss f) = getTagLevel tag (fold (\<lambda>(k, v). setTagLevel k v) (level_settings ss) f)"
proof -
  have e: "tf_enabled (fold apply_setting ss f) = tf_enabled (fold (\<lambda>(k, v). setTagEnabled k v) (enabled_settings ss) g)"
    if "tf_enabled f = tf_enabled g" for f g
    using that
  proof (induction ss arbitrary: f g)
    case (Cons s ss)
    then show ?case by (cases s) (auto simp: setTagEnabled_def setTagLevel_def)
  qed simp
  have l: "tf_levels (fold apply_setting ss f) = tf_levels (fold (\<lambda>(k, v). setTagLevel k v) (level_settings ss) g)"
    if "tf_levels f = tf_levels g" for f g
    using that
  proof (induction ss arbitrary: f g)
    case (Cons s ss)
    then show ?case by (cases s) (auto simp: setTagEnabled_def setTagLevel_def)
  qed simp
  show "isTagEnabled tag (fold apply_setting ss f) = isTagEnabled tag (fold (\<lambda>(k, v). setTagEnabled k v) (enabled_settings ss) f)"
    "getTagLevel tag (fold apply_setting ss f) = getTagLevel tag (fold (\<lambda>(k, v). setTagLevel k v) (level_settings ss) f)"
    using e [of f f] l [of f f] by (simp_all add: isTagEnabled_def getTagLevel_def)
qed

text \<open>
  After any sequence of calls, in whatever order threads make them, a tag is enabled as its
  last \<open>setTagEnabled\<close> said and has the level of its last \<open>setTagLevel\<close>; a tag nobody set is
  enabled at the lowest level; and neither setter disturbs the other's table or another tag.
\<close>

theorem last_setting_wins:
  "isTagEnabled tag (fold apply_setting ss TagFilter_ctor) =
     (case map_of (rev (enabled_settings ss)) tag of None \<Rightarrow> True | Some b \<Rightarrow> b) \<and>
   getTagLevel tag (fold apply_setting ss TagFilter_ctor) =
     (case map_of (rev (level_settings ss)) tag of None \<Rightarrow> kLogLevelDebug | Some l \<Rightarrow> l)"
  by (simp only: settings_independent enabled.get_history levels.get_history simp_thms)

end
