(* ===== verification/Crash_Handler.thy ===== *)
theory Crash_Handler
  imports Platform
begin

text \<open>
  \<open>crash_handler.h\<close> and \<open>crash_handler.cpp\<close>: installing signal handlers, the monitor thread,
  and what happens when a signal arrives. The callback, the flags and the table of signal
  actions are shared by all instances of a process, so the state is that of the process and
  an instance is a number. Threads are interleaved at their atomic accesses.
\<close>

section \<open>State\<close>

datatype sig = SIGSEGV | SIGABRT

definition kHandledSignals :: "sig list" where
  "kHandledSignals = [SIGSEGV, SIGABRT]"

text \<open>\<open>Handle\<close> is the class's \<open>signalHandler\<close>.\<close>

datatype action = SIG_DFL | SIG_IGN | Handle

text \<open>
  The monitor thread of an instance: not started, at its loop condition, at the exchange of the
  flag, running the callback, sleeping, finished.
\<close>

datatype monitor = Not_started | At_condition | At_exchange | In_callback | Sleeping | Finished

text \<open>The signal handler of a signal: not running, or about to make its next call.\<close>

datatype handler = H_idle | H_ignore | H_request | H_default | H_raise

record crash_state =
  actions :: "sig \<Rightarrow> action"
  flush_callback :: "nat option"     \<comment> \<open>which callback is set\<close>
  ch_initialized :: bool
  flush_requested :: bool
  stop_monitor :: "nat \<Rightarrow> bool"      \<comment> \<open>per instance\<close>
  monitors :: "nat \<Rightarrow> monitor"
  flushed :: "nat list"              \<comment> \<open>the callbacks that have run\<close>
  handlers :: "sig \<Rightarrow> handler"
  terminated :: bool

definition crash_init :: crash_state where
  "crash_init = \<lparr>actions = (\<lambda>_. SIG_DFL), flush_callback = None, ch_initialized = False,
     flush_requested = False, stop_monitor = (\<lambda>_. False), monitors = (\<lambda>_. Not_started),
     flushed = [], handlers = (\<lambda>_. H_idle), terminated = False\<rparr>"

section \<open>Operations\<close>

definition set_actions :: "action \<Rightarrow> crash_state \<Rightarrow> crash_state" where
  "set_actions a s = s\<lparr>actions := fold (\<lambda>sig f. f(sig := a)) kHandledSignals (actions s)\<rparr>"

text \<open>
  Assigning to \<open>monitor_thread_\<close> while it still holds a running thread ends the program
  (\<open>std::terminate\<close>).
\<close>

definition startMonitor :: "nat \<Rightarrow> crash_state \<Rightarrow> crash_state" where
  "startMonitor i s =
     (let s = s\<lparr>stop_monitor := (stop_monitor s)(i := False)\<rparr>
      in if monitors s i \<noteq> Not_started then s\<lparr>terminated := True\<rparr>
         else s\<lparr>monitors := (monitors s)(i := At_condition)\<rparr>)"

text \<open>\<open>join\<close> waits for the monitor; \<open>None\<close> while it has not finished.\<close>

definition stopMonitor_request :: "nat \<Rightarrow> crash_state \<Rightarrow> crash_state" where
  "stopMonitor_request i s = s\<lparr>stop_monitor := (stop_monitor s)(i := True)\<rparr>"

definition stopMonitor_join :: "nat \<Rightarrow> crash_state \<Rightarrow> crash_state option" where
  "stopMonitor_join i s =
     (if monitors s i = Not_started then Some s
      else if monitors s i = Finished then Some (s\<lparr>monitors := (monitors s)(i := Not_started)\<rparr>)
      else None)"

definition setFlushCallback :: "nat \<Rightarrow> crash_state \<Rightarrow> crash_state" where
  "setFlushCallback callback s = s\<lparr>flush_callback := Some callback\<rparr>"

text \<open>The callback's exceptions are swallowed, so all that is left of it is that it ran.\<close>

definition ch_emergencyFlush :: "crash_state \<Rightarrow> crash_state" where
  "ch_emergencyFlush s =
     (case flush_callback s of None \<Rightarrow> s | Some c \<Rightarrow> s\<lparr>flushed := flushed s @ [c]\<rparr>)"

definition initializeHandlers :: "platform option \<Rightarrow> nat \<Rightarrow> crash_state \<Rightarrow> crash_state" where
  "initializeHandlers pl i s =
     (if ch_initialized s then s
      else let s = set_actions Handle (s\<lparr>ch_initialized := True\<rparr>)
           in if pl = Some Windows then startMonitor i s else s)"

definition CrashHandler_ctor :: "platform option \<Rightarrow> nat \<Rightarrow> crash_state \<Rightarrow> crash_state" where
  "CrashHandler_ctor pl i s =
     initializeHandlers pl i (s\<lparr>stop_monitor := (stop_monitor s)(i := False), monitors := (monitors s)(i := Not_started)\<rparr>)"

text \<open>
  \<open>cleanupHandlers\<close> up to the point where \<open>stopMonitor\<close> joins; the first component says
  whether it goes on to join.
\<close>

definition cleanupHandlers :: "platform option \<Rightarrow> nat \<Rightarrow> crash_state \<Rightarrow> bool \<times> crash_state" where
  "cleanupHandlers pl i s =
     (if \<not> ch_initialized s then (False, s)
      else let s = set_actions SIG_DFL (s\<lparr>ch_initialized := False\<rparr>)
           in if pl = Some Windows then (True, stopMonitor_request i s) else (False, s))"

text \<open>After the destructor's body \<open>monitor_thread_\<close> is destroyed, which must not be joinable.\<close>

definition destroy_thread :: "nat \<Rightarrow> crash_state \<Rightarrow> crash_state" where
  "destroy_thread i s = (if monitors s i = Not_started then s else s\<lparr>terminated := True\<rparr>)"

definition CrashHandler_dtor :: "platform option \<Rightarrow> nat \<Rightarrow> crash_state \<Rightarrow> crash_state option" where
  "CrashHandler_dtor pl i s =
     (case cleanupHandlers pl i s of
        (True, s) \<Rightarrow> map_option (destroy_thread i) (stopMonitor_join i s)
      | (False, s) \<Rightarrow> Some (destroy_thread i s))"

text \<open>One step of the monitor thread of instance \<open>i\<close>.\<close>

definition monitor_step :: "nat \<Rightarrow> crash_state \<Rightarrow> crash_state" where
  "monitor_step i s =
     (case monitors s i of
        At_condition \<Rightarrow>
          s\<lparr>monitors := (monitors s)(i := if \<not> stop_monitor s i then At_exchange else Finished)\<rparr>
      | At_exchange \<Rightarrow>
          s\<lparr>monitors := (monitors s)(i := if flush_requested s then In_callback else Sleeping),
            flush_requested := False\<rparr>
      | In_callback \<Rightarrow> (ch_emergencyFlush s)\<lparr>monitors := (monitors s)(i := Sleeping)\<rparr>
      | Sleeping \<Rightarrow> s\<lparr>monitors := (monitors s)(i := At_condition)\<rparr>
      | _ \<Rightarrow> s)"

text \<open>
  The destructor when nothing else runs: the monitor is given the steps it needs to see the
  request and finish; four are enough.
\<close>

definition CrashHandler_dtor_wait :: "platform option \<Rightarrow> nat \<Rightarrow> crash_state \<Rightarrow> crash_state option" where
  "CrashHandler_dtor_wait pl i s =
     (case cleanupHandlers pl i s of
        (True, s) \<Rightarrow> map_option (destroy_thread i) (stopMonitor_join i ((monitor_step i ^^ 4) s))
      | (False, s) \<Rightarrow> Some (destroy_thread i s))"

text \<open>
  The delivery of a signal. The default action of both signals ends the process; before a
  handler runs its action is reset (\<open>SA_RESETHAND\<close> on POSIX, always on Windows).
\<close>

definition deliver :: "sig \<Rightarrow> crash_state \<Rightarrow> crash_state" where
  "deliver sig s =
     (case actions s sig of
        SIG_IGN \<Rightarrow> s
      | SIG_DFL \<Rightarrow> s\<lparr>terminated := True\<rparr>
      | Handle \<Rightarrow> s\<lparr>actions := (actions s)(sig := SIG_DFL), handlers := (handlers s)(sig := H_ignore)\<rparr>)"

text \<open>The calls of \<open>signalHandler\<close>, one at a time.\<close>

definition signalHandler_step :: "sig \<Rightarrow> crash_state \<Rightarrow> crash_state" where
  "signalHandler_step sig s =
     (case handlers s sig of
        H_idle \<Rightarrow> s
      | H_ignore \<Rightarrow> s\<lparr>actions := (actions s)(sig := SIG_IGN), handlers := (handlers s)(sig := H_request)\<rparr>
      | H_request \<Rightarrow> s\<lparr>flush_requested := True, handlers := (handlers s)(sig := H_default)\<rparr>
      | H_default \<Rightarrow> s\<lparr>actions := (actions s)(sig := SIG_DFL), handlers := (handlers s)(sig := H_raise)\<rparr>
      | H_raise \<Rightarrow> deliver sig (s\<lparr>handlers := (handlers s)(sig := H_idle)\<rparr>))"

section \<open>Interleavings\<close>

text \<open>
  A process that lives: instances are made and destroyed, a callback is set, signals arrive, and
  monitors and handlers make their steps in any order. Nothing runs after the end.
\<close>

datatype crash_event =
    New nat | Delete nat | Set_callback nat | Signal sig | Handler sig | Monitor nat

fun crash_exec :: "platform option \<Rightarrow> crash_event \<Rightarrow> crash_state \<Rightarrow> crash_state option" where
  "crash_exec pl (New i) s = Some (CrashHandler_ctor pl i s)"
| "crash_exec pl (Delete i) s = CrashHandler_dtor pl i s"
| "crash_exec pl (Set_callback c) s = Some (setFlushCallback c s)"
| "crash_exec pl (Signal sig) s = Some (deliver sig s)"
| "crash_exec pl (Handler sig) s = Some (signalHandler_step sig s)"
| "crash_exec pl (Monitor i) s = Some (monitor_step i s)"

inductive crash_step :: "platform option \<Rightarrow> crash_state \<Rightarrow> crash_state \<Rightarrow> bool" for pl where
  event: "\<not> terminated s \<Longrightarrow> crash_exec pl ev s = Some t \<Longrightarrow> crash_step pl s t"

fun crash_run :: "platform option \<Rightarrow> crash_event list \<Rightarrow> crash_state \<Rightarrow> crash_state option" where
  "crash_run pl [] s = Some s"
| "crash_run pl (ev # evs) s =
     (if terminated s then None
      else case crash_exec pl ev s of None \<Rightarrow> None | Some t \<Rightarrow> crash_run pl evs t)"

lemma crash_run_steps: "crash_run pl evs s = Some t \<Longrightarrow> (crash_step pl)\<^sup>*\<^sup>* s t"
proof (induction evs arbitrary: s)
  case Nil
  then show ?case by simp
next
  case (Cons ev evs)
  then obtain u where "\<not> terminated s" "crash_exec pl ev s = Some u" "crash_run pl evs u = Some t"
    by (auto split: if_splits option.splits)
  with Cons.IH [of u] show ?case
    by (meson converse_rtranclp_into_rtranclp crash_step.event)
qed

lemmas crash_defs = CrashHandler_ctor_def CrashHandler_dtor_def initializeHandlers_def cleanupHandlers_def
  set_actions_def startMonitor_def stopMonitor_request_def stopMonitor_join_def destroy_thread_def
  setFlushCallback_def deliver_def signalHandler_step_def monitor_step_def ch_emergencyFlush_def

section \<open>A crash without a monitor\<close>

definition no_monitor :: "crash_state \<Rightarrow> bool" where
  "no_monitor s \<longleftrightarrow> (\<forall>i. monitors s i = Not_started) \<and> flushed s = []"

lemma no_monitor_step:
  assumes "pl \<noteq> Some Windows" "crash_step pl s t" "no_monitor s"
  shows "no_monitor t"
  using assms(2)
proof cases
  case (event ev)
  have idle: "monitors s i = Not_started" "flushed s = []" for i using assms(3) by (simp_all add: no_monitor_def)
  show ?thesis
  proof (cases ev)
    case (New i)
    with event idle assms(1) show ?thesis by (auto simp: crash_defs no_monitor_def Let_def)
  next
    case (Delete i)
    with event idle assms(1) show ?thesis by (cases "ch_initialized s") (auto simp: crash_defs no_monitor_def Let_def)
  next
    case (Set_callback c)
    with event idle show ?thesis by (auto simp: crash_defs no_monitor_def)
  next
    case (Signal sig)
    with event idle show ?thesis by (auto simp: crash_defs no_monitor_def split: action.splits)
  next
    case (Handler sig)
    with event idle show ?thesis by (auto simp: crash_defs no_monitor_def split: action.splits handler.splits)
  next
    case (Monitor i)
    with event idle show ?thesis by (auto simp: crash_defs no_monitor_def)
  qed
qed

text \<open>
  C36: where there is no monitor thread, which is everywhere but on Windows, the promised
  emergency flush never happens: whatever instances are made, callbacks set and signals
  delivered, in every order, no callback has run when the process ends. The handler only sets
  a flag that nobody reads.
\<close>

theorem posix_crash_never_flushes:
  assumes "pl \<noteq> Some Windows" "(crash_step pl)\<^sup>*\<^sup>* crash_init s"
  shows "flushed s = []"
  using assms(2)
proof -
  have "no_monitor s"
    using assms(2)
  proof (induction rule: rtranclp_induct)
    case base
    show ?case by (simp add: no_monitor_def crash_init_def)
  next
    case (step t u)
    with no_monitor_step [OF assms(1)] show ?case by blast
  qed
  then show ?thesis by (simp add: no_monitor_def)
qed

definition crash_with_callback :: "crash_event list" where
  "crash_with_callback = [New 0, Set_callback 7, Signal SIGSEGV, Handler SIGSEGV, Handler SIGSEGV,
     Handler SIGSEGV, Handler SIGSEGV]"

theorem posix_crash_never_flushes_witness:
  "\<exists>s. (crash_step (Some MacOS))\<^sup>*\<^sup>* crash_init s \<and> terminated s \<and> flush_requested s \<and>
     flush_callback s = Some 7 \<and> flushed s = []"
proof -
  obtain s where run: "crash_run (Some MacOS) crash_with_callback crash_init = Some s"
    and s: "terminated s" "flush_requested s" "flush_callback s = Some 7"
    by (simp add: crash_with_callback_def crash_init_def crash_defs kHandledSignals_def)
  note steps = crash_run_steps [OF run]
  have "flushed s = []" by (rule posix_crash_never_flushes [OF _ steps]) simp
  with steps s show ?thesis by blast
qed


section \<open>The monitor of Windows\<close>

text \<open>Alone, the monitor goes round its loop; these are its next states.\<close>

lemma monitor_step_eqs:
  "monitors s i = At_condition \<Longrightarrow> \<not> stop_monitor s i \<Longrightarrow> monitor_step i s = s\<lparr>monitors := (monitors s)(i := At_exchange)\<rparr>"
  "monitors s i = At_condition \<Longrightarrow> stop_monitor s i \<Longrightarrow> monitor_step i s = s\<lparr>monitors := (monitors s)(i := Finished)\<rparr>"
  "monitors s i = Sleeping \<Longrightarrow> monitor_step i s = s\<lparr>monitors := (monitors s)(i := At_condition)\<rparr>"
  by (simp_all add: monitor_step_def)

definition running :: "monitor \<Rightarrow> bool" where
  "running m \<longleftrightarrow> m \<in> {At_condition, At_exchange, In_callback, Sleeping}"

text \<open>
  The monitor does its work when it gets to run: from whatever point of its loop outside the
  callback, a pending request is followed by a run of the callback within four of its steps, and
  a request to stop by its end within four.
\<close>

theorem monitor_serves_requests:
  assumes "running (monitors s i)" "monitors s i \<noteq> In_callback"
    and "flush_callback s = Some c"
  shows "(\<not> stop_monitor s i \<and> flush_requested s \<longrightarrow>
       (\<exists>n \<le> 4. flushed ((monitor_step i ^^ n) s) = flushed s @ [c] \<and> \<not> flush_requested ((monitor_step i ^^ n) s))) \<and>
     (stop_monitor s i \<longrightarrow> (\<exists>n \<le> 4. monitors ((monitor_step i ^^ n) s) i = Finished))"
proof (intro conjI impI)
  assume go: "\<not> stop_monitor s i \<and> flush_requested s"
  consider "monitors s i = At_exchange" | "monitors s i = At_condition" | "monitors s i = Sleeping"
    using assms(1,2) by (auto simp: running_def)
  then show "\<exists>n \<le> 4. flushed ((monitor_step i ^^ n) s) = flushed s @ [c] \<and> \<not> flush_requested ((monitor_step i ^^ n) s)"
  proof cases
    case 1
    then show ?thesis using go assms(3)
      by (intro exI [of _ 2]) (simp add: monitor_step_def ch_emergencyFlush_def numeral_2_eq_2)
  next
    case 2
    then show ?thesis using go assms(3)
      by (intro exI [of _ 3]) (simp add: monitor_step_def ch_emergencyFlush_def numeral_3_eq_3)
  next
    case 3
    then show ?thesis using go assms(3)
      by (intro exI [of _ 4]) (simp add: monitor_step_def ch_emergencyFlush_def eval_nat_numeral)
  qed
next
  assume stop: "stop_monitor s i"
  consider "monitors s i = At_exchange" | "monitors s i = At_condition" | "monitors s i = Sleeping"
    using assms(1,2) by (auto simp: running_def)
  then show "\<exists>n \<le> 4. monitors ((monitor_step i ^^ n) s) i = Finished"
  proof cases
    case 1
    show ?thesis
    proof (cases "flush_requested s")
      case True
      with 1 stop assms(3) show ?thesis
        by (intro exI [of _ 4]) (simp add: monitor_step_def ch_emergencyFlush_def eval_nat_numeral)
    next
      case False
      with 1 stop show ?thesis
        by (intro exI [of _ 3]) (simp add: monitor_step_def numeral_3_eq_3)
    qed
  next
    case 2
    with stop show ?thesis by (intro exI [of _ 1]) (simp add: monitor_step_def)
  next
    case 3
    with stop show ?thesis by (intro exI [of _ 2]) (simp add: monitor_step_def numeral_2_eq_2)
  qed
qed


theorem monitor_serves_requests_witness:
  "\<exists>n. flushed ((monitor_step 0 ^^ n)
     (crash_init\<lparr>monitors := (\<lambda>_. Sleeping), flush_callback := Some 7, flush_requested := True\<rparr>)) = [7]"
proof -
  let ?s = "crash_init\<lparr>monitors := (\<lambda>_. Sleeping), flush_callback := Some 7, flush_requested := True\<rparr>"
  have "running (monitors ?s 0)" "monitors ?s 0 \<noteq> In_callback" "flush_callback ?s = Some 7"
    "\<not> stop_monitor ?s 0 \<and> flush_requested ?s" "flushed ?s = []"
    by (simp_all add: running_def crash_init_def)
  with monitor_serves_requests [of ?s 0 7] show ?thesis by (metis append_Nil)
qed

text \<open>
  On Windows a crash can still end the process before the monitor looks at the flag: the
  handler raises the signal again at once and waits for nothing.
\<close>

theorem windows_crash_may_lose:
  "\<exists>s. (crash_step (Some Windows))\<^sup>*\<^sup>* crash_init s \<and> terminated s \<and> flush_requested s \<and>
     flush_callback s = Some 7 \<and> running (monitors s 0) \<and> flushed s = []"
proof -
  obtain s where run: "crash_run (Some Windows) crash_with_callback crash_init = Some s"
    and s: "terminated s" "flush_requested s" "flush_callback s = Some 7" "running (monitors s 0)" "flushed s = []"
    by (simp add: crash_with_callback_def crash_init_def crash_defs kHandledSignals_def running_def)
  from crash_run_steps [OF run] s show ?thesis by blast
qed

section \<open>Two instances\<close>

text \<open>
  Instances are not independent. When a second handler is made and destroyed, the signals of
  the first one are back at their default action although it lives on, and on Windows its
  destructor then ends the program: it returns early and destroys a joinable monitor thread.
\<close>

theorem second_instance_breaks_first:
  assumes "i \<noteq> j" "\<not> ch_initialized s" "\<not> terminated s"
  shows "\<exists>t. CrashHandler_dtor pl j (CrashHandler_ctor pl j (CrashHandler_ctor pl i s)) = Some t \<and>
     actions t SIGSEGV = SIG_DFL \<and> actions t SIGABRT = SIG_DFL \<and> \<not> ch_initialized t \<and> \<not> terminated t \<and>
     map_option terminated (CrashHandler_dtor pl i t) = Some (pl = Some Windows)"
  using assms by (cases "pl = Some Windows") (auto simp: crash_defs kHandledSignals_def Let_def)

theorem second_instance_breaks_first_witness:
  "\<exists>t. CrashHandler_dtor (Some Windows) 1 (CrashHandler_ctor (Some Windows) 1 (CrashHandler_ctor (Some Windows) 0 crash_init)) = Some t \<and>
     actions t SIGSEGV = SIG_DFL \<and> map_option terminated (CrashHandler_dtor (Some Windows) 0 t) = Some True"
proof -
  have "(0 :: nat) \<noteq> 1" "\<not> ch_initialized crash_init" "\<not> terminated crash_init" by (simp_all add: crash_init_def)
  from second_instance_breaks_first [OF this, of "Some Windows"] show ?thesis by blast
qed

text \<open>One instance on its own comes and goes cleanly, once its monitor has seen the request.\<close>

lemma single_instance_lifecycle:
  assumes "\<not> ch_initialized s" "\<not> terminated s"
  shows "\<exists>t u. cleanupHandlers pl i (CrashHandler_ctor pl i s) = (pl = Some Windows, t) \<and>
     (if pl = Some Windows then map_option (destroy_thread i) (stopMonitor_join i (monitor_step i t)) = Some u
      else destroy_thread i t = u) \<and>
     \<not> terminated u \<and> \<not> ch_initialized u \<and> actions u SIGSEGV = SIG_DFL \<and> actions u SIGABRT = SIG_DFL"
  using assms by (cases "pl = Some Windows") (auto simp: crash_defs kHandledSignals_def Let_def)

end
