(* ===== verification/Archive.thy ===== *)
theory Archive
  imports Os_Reliable Sample_Host
begin

text \<open>
  \<open>archive.h\<close> and \<open>archive.cpp\<close>: collecting the log files of the current directory into a ZIP
  archive. libzip is not part of the repository: its functions are a parameter, over a state
  of its own that stands for the open archives and what it writes.
\<close>

section \<open>libzip\<close>

record 'z libzip =
  zip_open :: "string \<Rightarrow> 'z \<Rightarrow> nat option \<times> 'z"
  zip_source_file :: "nat \<Rightarrow> string \<Rightarrow> 'z \<Rightarrow> nat option \<times> 'z"
  zip_file_add :: "nat \<Rightarrow> string \<Rightarrow> nat \<Rightarrow> 'z \<Rightarrow> int \<times> 'z"
  zip_source_free :: "nat \<Rightarrow> 'z \<Rightarrow> 'z"
  zip_close :: "nat \<Rightarrow> 'z \<Rightarrow> int \<times> 'z"
  zip_discard :: "nat \<Rightarrow> 'z \<Rightarrow> 'z"

section \<open>Collecting\<close>

text \<open>\<open>path::extension\<close>: from the last dot of the file name on, unless that dot is its first character.\<close>

definition extension_of :: "platform option \<Rightarrow> string \<Rightarrow> string" where
  "extension_of pl p =
     (let f = filename_of pl p; d = find_last_of f CHR ''.'' npos
      in if d = npos \<or> d = 0 \<or> f = ''..'' then [] else substr f d npos)"

definition is_log_of :: "platform option \<Rightarrow> string \<Rightarrow> string \<Rightarrow> bool" where
  "is_log_of pl base_fname p \<longleftrightarrow> extension_of pl p = ''.log'' \<and> rfind_str (filename_of pl p) base_fname 0 = 0"

text \<open>An exception of \<open>is_regular_file\<close> ends the loop with what was collected so far.\<close>

fun collect :: "platform option \<Rightarrow> string \<Rightarrow> string list \<Rightarrow> 'k os \<Rightarrow> string list \<times> 'k os" where
  "collect pl base_fname [] os = ([], os)"
| "collect pl base_fname (p # ps) os =
     (let (ok, os) = syscall os
      in if \<not> ok then ([], os)
         else if \<not> is_file p os then collect pl base_fname ps os
         else if \<not> is_log_of pl base_fname p then collect pl base_fname ps os
         else let (result, os) = collect pl base_fname ps os in (p # result, os))"

definition CollectLogFiles :: "'k host \<Rightarrow> string \<Rightarrow> string \<Rightarrow> 'k os \<Rightarrow> string list \<times> 'k os" where
  "CollectLogFiles h dir base_name os =
     (let base_fname = filename_of (host_platform h) base_name
      in case fs_directory_iterator h dir os of
           (Inl e, os) \<Rightarrow> ([], os)
         | (Inr ps, os) \<Rightarrow> collect (host_platform h) base_fname ps os)"

section \<open>Archiving\<close>

text \<open>
  The loop over the candidates: \<open>None\<close> is an early \<open>return false\<close>, otherwise whether a
  non-empty file was added.
\<close>

fun add_files ::
  "'k host \<Rightarrow> 'z libzip \<Rightarrow> nat \<Rightarrow> bool \<Rightarrow> string list \<Rightarrow> 'k os \<Rightarrow> 'z \<Rightarrow> bool option \<times> 'k os \<times> 'z" where
  "add_files h lib archive had_nonempty [] os z = (Some had_nonempty, os, z)"
| "add_files h lib archive had_nonempty (f # fs) os z =
     (case fs_file_size f os of
        (Inl ec, os) \<Rightarrow> add_files h lib archive had_nonempty fs os z
      | (Inr sz, os) \<Rightarrow>
          if sz = 0 then add_files h lib archive had_nonempty fs os z
          else (case zip_source_file lib archive f z of
                  (None, z) \<Rightarrow> (None, os, z)
                | (Some source, z) \<Rightarrow>
                    (case zip_file_add lib archive (filename_of (host_platform h) f) source z of
                       (idx, z) \<Rightarrow>
                         if idx < 0 then (None, os, zip_source_free lib source z)
                         else add_files h lib archive True fs os z)))"

text \<open>The guard that owns the handle; its destructor discards the archive unless it was closed.\<close>

record ZipGuard =
  zg_zip :: "nat option"
  zg_closed :: bool

definition ZipGuard_ctor :: "nat option \<Rightarrow> ZipGuard" where
  "ZipGuard_ctor z = \<lparr>zg_zip = z, zg_closed = False\<rparr>"

definition ZipGuard_dtor :: "'z libzip \<Rightarrow> ZipGuard \<Rightarrow> 'z \<Rightarrow> 'z" where
  "ZipGuard_dtor lib guard z =
     (case zg_zip guard of
        None \<Rightarrow> z
      | Some archive \<Rightarrow> if \<not> zg_closed guard then zip_discard lib archive z else z)"

definition ZipGuard_Close :: "'z libzip \<Rightarrow> ZipGuard \<Rightarrow> 'z \<Rightarrow> int \<times> ZipGuard \<times> 'z" where
  "ZipGuard_Close lib guard z =
     (case zg_zip guard of
        None \<Rightarrow> (-1, guard, z)
      | Some archive \<Rightarrow>
          (case zip_close lib archive z of (res, z) \<Rightarrow> (res, guard\<lparr>zg_closed := (res = 0)\<rparr>, z)))"

lemmas guard_defs = ZipGuard_ctor_def ZipGuard_dtor_def ZipGuard_Close_def

text \<open>What follows \<open>zip_open\<close>, with the guard's destructor at the end of each path.\<close>

definition fill_archive ::
  "'k host \<Rightarrow> 'z libzip \<Rightarrow> nat \<Rightarrow> string list \<Rightarrow> 'k os \<Rightarrow> 'z \<Rightarrow> bool \<times> 'k os \<times> 'z" where
  "fill_archive h lib archive candidates os z =
     (let guard = ZipGuard_ctor (Some archive)
      in case add_files h lib archive False candidates os z of
           (None, os, z) \<Rightarrow> (False, os, ZipGuard_dtor lib guard z)
         | (Some had_nonempty, os, z) \<Rightarrow>
             if \<not> had_nonempty then (False, os, ZipGuard_dtor lib guard z)
             else (case ZipGuard_Close lib guard z of
                     (res, guard, z) \<Rightarrow> (res = 0, os, ZipGuard_dtor lib guard z)))"

definition archive_file_name :: "string \<Rightarrow> int \<Rightarrow> string \<Rightarrow> string" where
  "archive_file_name base_name process_id timestamp =
     base_name @ ''_'' @ show_int process_id @ ''_'' @ timestamp @ ''.zip''"

definition createArchive ::
  "'k host \<Rightarrow> 'z libzip \<Rightarrow> string \<Rightarrow> int \<Rightarrow> string \<Rightarrow> 'k os \<Rightarrow> 'z \<Rightarrow> (exn + bool) \<times> 'k os \<times> 'z" where
  "createArchive h lib base_name process_id timestamp os z =
     (if timestamp = [] \<or> base_name = [] then (Inr False, os, z)
      else case fs_current_path os of
             Inl e \<Rightarrow> (Inl e, os, z)
           | Inr cwd \<Rightarrow>
               (case CollectLogFiles h cwd base_name os of
                  (candidates, os) \<Rightarrow>
                    if candidates = [] then (Inr False, os, z)
                    else (case zip_open lib (archive_file_name base_name process_id timestamp) z of
                            (None, z) \<Rightarrow> (Inr False, os, z)
                          | (Some archive, z) \<Rightarrow>
                              (case fill_archive h lib archive candidates os z of
                                 (ok, os, z) \<Rightarrow> (Inr ok, os, z)))))"

section \<open>What is collected\<close>

lemma collect_reliable:
  assumes "reliable os"
  shows "\<exists>os'. collect pl b ps os = (filter (\<lambda>p. is_file p os \<and> is_log_of pl b p) ps, os') \<and> same_system os os' \<and>
     (\<forall>q. file_content q os' = file_content q os)"
  using assms
proof (induction ps arbitrary: os)
  case Nil
  then show ?case by simp
next
  case (Cons p ps)
  let ?os = "os\<lparr>os_clock := os_clock os + 1\<rparr>"
  have same: "same_system os ?os" "\<forall>q. file_content q ?os = file_content q os" "\<And>p. is_file p ?os = is_file p os"
    by (simp_all add: tick_simps os_simps)
  have "reliable ?os" using Cons.prems same_system_keeps(1) [OF same(1)] by simp
  from Cons.IH [OF this] obtain os' where
    "collect pl b ps ?os = (filter (\<lambda>p. is_file p os \<and> is_log_of pl b p) ps, os')" "same_system ?os os'"
    "\<forall>q. file_content q os' = file_content q ?os" unfolding same(3) by blast
  moreover from this have "same_system os os'" using same(1) same_system_trans by blast
  ultimately show ?case using Cons.prems same
    by (auto simp: syscall_reliable tick_simps)
qed

lemma filename_has_base: "rfind_str f b 0 = 0 \<longleftrightarrow> take (length b) f = b"
  by (metis append_eq_conv_conj rfind_str_0)

lemma CollectLogFiles_reliable:
  assumes "reliable os" "is_directory dir os"
  shows "\<exists>files os'. CollectLogFiles h dir base os = (files, os') \<and> same_system os os' \<and>
     (\<forall>q. file_content q os' = file_content q os) \<and>
     set files = {p. is_file p os \<and> parent_path (host_platform h) p = dir \<and> p \<noteq> dir \<and>
       extension_of (host_platform h) p = ''.log'' \<and>
       take (length (filename_of (host_platform h) base)) (filename_of (host_platform h) p) =
         filename_of (host_platform h) base}"
proof -
  let ?pl = "host_platform h"
  define ps where "ps = filter (\<lambda>p. parent_path ?pl p = dir \<and> p \<noteq> dir) (map fst (os_files os) @ os_dirs os)"
  let ?os = "os\<lparr>os_clock := os_clock os + 1\<rparr>"
  have it: "fs_directory_iterator h dir os = (Inr ps, ?os)"
    using assms by (simp add: fs_directory_iterator_def syscall_reliable tick_simps ps_def)
  have same: "same_system os ?os" "\<forall>q. file_content q ?os = file_content q os" by (simp_all add: tick_simps os_simps)
  have "reliable ?os" using assms(1) by (simp add: reliable_def)
  from collect_reliable [OF this, of ?pl "filename_of ?pl base" ps] obtain os' where
    c: "collect ?pl (filename_of ?pl base) ps ?os =
      (filter (\<lambda>p. is_file p os \<and> is_log_of ?pl (filename_of ?pl base) p) ps, os')"
      "same_system ?os os'" "\<forall>q. file_content q os' = file_content q ?os"
    by (auto simp: tick_simps)
  have "set (filter (\<lambda>p. is_file p os \<and> is_log_of ?pl (filename_of ?pl base) p) ps) =
    {p. is_file p os \<and> parent_path ?pl p = dir \<and> p \<noteq> dir \<and> extension_of ?pl p = ''.log'' \<and>
       take (length (filename_of ?pl base)) (filename_of ?pl p) = filename_of ?pl base}"
    by (auto simp: is_log_of_def filename_has_base is_file_def ps_def)
  moreover have "CollectLogFiles h dir base os =
      (filter (\<lambda>p. is_file p os \<and> is_log_of ?pl (filename_of ?pl base) p) ps, os')"
    unfolding CollectLogFiles_def Let_def it prod.case sum.case by (rule c)
  moreover have "same_system os os'" "\<forall>q. file_content q os' = file_content q os"
    using same_system_trans [OF same(1) c(2)] same(2) c(3) by simp_all
  ultimately show ?thesis by blast
qed

text \<open>
  The candidates are exactly the regular files directly in the directory whose file name
  starts with the file name of the base and whose extension is \<open>.log\<close>; the directory part of
  the base name plays no role.
\<close>

theorem collected_files:
  assumes "reliable os" "is_directory dir os"
  shows "\<exists>files os'. CollectLogFiles h dir base os = (files, os') \<and>
     set files = {p. is_file p os \<and> parent_path (host_platform h) p = dir \<and> p \<noteq> dir \<and>
       extension_of (host_platform h) p = ''.log'' \<and>
       take (length (filename_of (host_platform h) base)) (filename_of (host_platform h) p) =
         filename_of (host_platform h) base}"
  using CollectLogFiles_reliable [OF assms, of h base] by blast


lemma app_names:
  "filename_of (Some MacOS) ''logs/App'' = ''App''" "filename_of (Some MacOS) ''App'' = ''App''"
  "filename_of (Some MacOS) ''/w/App.log'' = ''App.log''" "filename_of (Some MacOS) ''/w/App.txt'' = ''App.txt''"
  "parent_path (Some MacOS) ''/w/App.log'' = ''/w''"
  "extension_of (Some MacOS) ''/w/App.log'' = ''.log''" "extension_of (Some MacOS) ''/w/App.txt'' = ''.txt''"
proof -
  have names: "filename_of (Some MacOS) ''/w/App.log'' = ''App.log''" "filename_of (Some MacOS) ''/w/App.txt'' = ''App.txt''"
    by (simp_all add: filename_of_def last_part_def root_length_def root_name_length_def is_sep_def)
  have dots: "find_last_of ''App.log'' CHR ''.'' npos = 3" "find_last_of ''App.txt'' CHR ''.'' npos = 3"
    using find_last_of_append [of "CHR ''.''" "''log''" "''App''" npos]
      find_last_of_append [of "CHR ''.''" "''txt''" "''App''" npos]
    by (simp_all add: npos_def)
  have npos: "3 \<noteq> npos" "take npos ''.log'' = ''.log''" "take npos ''.txt'' = ''.txt''"
    by (simp_all add: npos_def)
  show "extension_of (Some MacOS) ''/w/App.log'' = ''.log''" "extension_of (Some MacOS) ''/w/App.txt'' = ''.txt''"
    by (simp_all add: extension_of_def names dots npos substr_def)
  show "parent_path (Some MacOS) ''/w/App.log'' = ''/w''"
    by (simp add: parent_path_def root_length_def root_name_length_def is_sep_def last_part_def strip_seps_def)
  show "filename_of (Some MacOS) ''logs/App'' = ''App''" "filename_of (Some MacOS) ''App'' = ''App''"
    by (simp_all add: filename_of_def last_part_def root_length_def root_name_length_def is_sep_def)
qed (rule refl | simp add: filename_of_def last_part_def root_length_def root_name_length_def is_sep_def)+

theorem collected_files_witness:
  "\<exists>files os. CollectLogFiles (sample_host (Some MacOS)) ''/w'' ''logs/App''
       (sample_os [(''/w/App.log'', ''a''), (''/w/App.txt'', ''b'')] [''/w'']) = (files, os) \<and> set files = {''/w/App.log''}"
proof -
  let ?os = "sample_os [(''/w/App.log'', ''a''), (''/w/App.txt'', ''b'')] [''/w'']"
  have d: "is_directory ''/w'' ?os" by (simp add: is_directory_def sample_os_def)
  have isf: "is_file p ?os = (p = ''/w/App.log'' \<or> p = ''/w/App.txt'')" for p
    by (auto simp: is_file_def sample_os_def)
  have "{p. is_file p ?os \<and> parent_path (Some MacOS) p = ''/w'' \<and> p \<noteq> ''/w'' \<and>
       extension_of (Some MacOS) p = ''.log'' \<and>
       take (length (filename_of (Some MacOS) ''logs/App'')) (filename_of (Some MacOS) p) =
         filename_of (Some MacOS) ''logs/App''} = {''/w/App.log''}"
    by (auto simp: isf app_names)
  with collected_files [OF sample_os_reliable d, of "sample_host (Some MacOS)" "''logs/App''"]
  show ?thesis by simp
qed

section \<open>Archives are never left open\<close>

text \<open>
  What libzip documents of the life of an archive: a successful open adds a handle, a successful
  close and a discard end it, and nothing else touches it. \<open>open_archives\<close> is the set of
  handles.
\<close>

definition zip_laws :: "'z libzip \<Rightarrow> ('z \<Rightarrow> nat set) \<Rightarrow> bool" where
  "zip_laws lib open_archives \<longleftrightarrow>
     (\<forall>n z. case zip_open lib n z of
        (Some a, z') \<Rightarrow> a \<notin> open_archives z \<and> open_archives z' = insert a (open_archives z)
      | (None, z') \<Rightarrow> open_archives z' = open_archives z) \<and>
     (\<forall>a f z. open_archives (snd (zip_source_file lib a f z)) = open_archives z) \<and>
     (\<forall>a n s z. open_archives (snd (zip_file_add lib a n s z)) = open_archives z) \<and>
     (\<forall>s z. open_archives (zip_source_free lib s z) = open_archives z) \<and>
     (\<forall>a z. open_archives (snd (zip_close lib a z)) =
        (if fst (zip_close lib a z) = 0 then open_archives z - {a} else open_archives z)) \<and>
     (\<forall>a z. open_archives (zip_discard lib a z) = open_archives z - {a})"

lemma zip_lawsD:
  assumes "zip_laws lib A"
  shows "zip_open lib n z = (Some a, z') \<Longrightarrow> a \<notin> A z \<and> A z' = insert a (A z)"
    "zip_open lib n z = (None, z') \<Longrightarrow> A z' = A z"
    "zip_source_file lib a f z = (s, z') \<Longrightarrow> A z' = A z" "zip_file_add lib a m t z = (i, z') \<Longrightarrow> A z' = A z"
    "A (zip_source_free lib t z) = A z"
    "zip_close lib a z = (r, z') \<Longrightarrow> A z' = (if r = 0 then A z - {a} else A z)"
    "A (zip_discard lib a z) = A z - {a}"
proof -
  have open_law: "case zip_open lib n z of
        (Some a, z') \<Rightarrow> a \<notin> A z \<and> A z' = insert a (A z) | (None, z') \<Rightarrow> A z' = A z"
    using conjunct1 [OF assms [unfolded zip_laws_def]] by (elim allE)
  show "zip_open lib n z = (Some a, z') \<Longrightarrow> a \<notin> A z \<and> A z' = insert a (A z)"
    "zip_open lib n z = (None, z') \<Longrightarrow> A z' = A z"
    using open_law by simp_all
  note rest = conjunct2 [OF assms [unfolded zip_laws_def]]
  have "A (snd (zip_source_file lib a f z)) = A z" using conjunct1 [OF rest] by (elim allE)
  then show "zip_source_file lib a f z = (s, z') \<Longrightarrow> A z' = A z" by simp
  have "A (snd (zip_file_add lib a m t z)) = A z" using conjunct1 [OF conjunct2 [OF rest]] by (elim allE)
  then show "zip_file_add lib a m t z = (i, z') \<Longrightarrow> A z' = A z" by simp
  show "A (zip_source_free lib t z) = A z"
    using conjunct1 [OF conjunct2 [OF conjunct2 [OF rest]]] by (elim allE)
  note last = conjunct2 [OF conjunct2 [OF conjunct2 [OF rest]]]
  have "A (snd (zip_close lib a z)) = (if fst (zip_close lib a z) = 0 then A z - {a} else A z)"
    using conjunct1 [OF last] by (elim allE)
  then show "zip_close lib a z = (r, z') \<Longrightarrow> A z' = (if r = 0 then A z - {a} else A z)" by simp
  show "A (zip_discard lib a z) = A z - {a}" using conjunct2 [OF last] by (elim allE)
qed

lemma add_files_open:
  assumes laws: "zip_laws lib A" and call: "add_files h lib archive had fs os z = (r, os', z')"
  shows "A z' = A z"
  using call
proof (induction fs arbitrary: had os z)
  case Nil
  then show ?case by simp
next
  case (Cons f fs)
  note L = zip_lawsD(3-5) [OF laws]
  obtain sz os1 where size: "fs_file_size f os = (sz, os1)" by fastforce
  show ?case
  proof (cases "sz = Inr 0 \<or> (\<exists>e. sz = Inl e)")
    case True
    with Cons size show ?thesis by auto
  next
    case False
    then obtain n where n: "sz = Inr n" "n \<noteq> 0" by (cases sz) auto
    obtain src z1 where src: "zip_source_file lib archive f z = (src, z1)" by fastforce
    show ?thesis
    proof (cases src)
      case None
      with Cons.prems size n src L(1) show ?thesis by auto
    next
      case (Some s)
      obtain i z2 where add: "zip_file_add lib archive (filename_of (host_platform h) f) s z1 = (i, z2)" by fastforce
      have A2: "A z2 = A z" using L(1) [OF src] L(2) [OF add] by simp
      with Cons.prems size n src Some add L(3) Cons.IH [of True os1 z2] show ?thesis
        by (auto split: if_splits)
    qed
  qed
qed

lemma fill_archive_closes:
  assumes laws: "zip_laws lib A" and call: "fill_archive h lib archive fs os z = (ok, os', z')"
  shows "A z' = A z - {archive}"
proof -
  note L = zip_lawsD(6,7) [OF laws]
  obtain r os1 z1 where add: "add_files h lib archive False fs os z = (r, os1, z1)" by (metis prod_cases3)
  have A1: "A z1 = A z" by (rule add_files_open [OF laws add])
  obtain res z2 where cl: "zip_close lib archive z1 = (res, z2)" by fastforce
  consider "r = None" | "r = Some False" | "r = Some True" by (cases r) auto
  then show ?thesis
  proof cases
    case 3
    then show ?thesis using call add cl L(1) [OF cl] L(2) [of archive z2] A1
      by (auto simp: fill_archive_def guard_defs split: if_splits)
  qed (use call add L(2) [of archive z1] A1 in \<open>auto simp: fill_archive_def guard_defs\<close>)
qed

lemma fill_archive_success:
  assumes "fill_archive h lib archive fs os z = (True, os', z')"
  shows "\<exists>z2. add_files h lib archive False fs os z = (Some True, os', z2) \<and> zip_close lib archive z2 = (0, z')"
proof -
  obtain r os1 z1 where add: "add_files h lib archive False fs os z = (r, os1, z1)" by (metis prod_cases3)
  obtain res z2 where cl: "zip_close lib archive z1 = (res, z2)" by fastforce
  from assms add cl show ?thesis
    by (auto simp: fill_archive_def guard_defs Let_def split: option.splits if_splits)
qed

lemma createArchive_success:
  assumes "createArchive h lib base pid ts os z = (Inr True, os', z')"
  shows "\<exists>archive fs os1 z1 z2. fs \<noteq> [] \<and> zip_open lib (archive_file_name base pid ts) z = (Some archive, z1) \<and>
     add_files h lib archive False fs os1 z1 = (Some True, os', z2) \<and> zip_close lib archive z2 = (0, z')"
proof -
  from assms obtain archive fs os1 z1 where "fs \<noteq> []" "zip_open lib (archive_file_name base pid ts) z = (Some archive, z1)"
    "fill_archive h lib archive fs os1 z1 = (True, os', z')"
    by (auto simp: createArchive_def split: if_splits sum.splits prod.splits option.splits)
  with fill_archive_success show ?thesis by metis
qed

lemma createArchive_closes:
  assumes "zip_laws lib A" "createArchive h lib base pid ts os z = (r, os', z')"
  shows "A z' = A z"
proof -
  note L = zip_lawsD(1,2) [OF assms(1)]
  obtain a z1 where op: "zip_open lib (archive_file_name base pid ts) z = (a, z1)" by fastforce
  have "z' = z \<or> (a = None \<and> z' = z1) \<or>
      (\<exists>archive fs os2 ok. a = Some archive \<and> fill_archive h lib archive fs os2 z1 = (ok, os', z'))"
    using assms(2) op
    by (auto simp: createArchive_def split: if_splits sum.splits prod.splits option.splits)
  then show ?thesis
  proof (elim disjE exE conjE)
    fix archive fs os2 ok
    assume a: "a = Some archive" and fill: "fill_archive h lib archive fs os2 z1 = (ok, os', z')"
    from L(1) [OF op [unfolded a]] fill_archive_closes [OF assms(1) fill] show ?thesis by auto
  next
    assume "a = None" "z' = z1"
    with L(2) op show ?thesis by simp
  qed simp
qed


text \<open>A libzip that works, over the archives it has open, for the witness.\<close>

definition sample_zip :: "nat list libzip" where
  "sample_zip = \<lparr>zip_open = (\<lambda>n z. (Some (Suc (fold max z 0)), Suc (fold max z 0) # z)),
     zip_source_file = (\<lambda>a f z. (Some 0, z)), zip_file_add = (\<lambda>a n s z. (0, z)),
     zip_source_free = (\<lambda>s z. z), zip_close = (\<lambda>a z. (0, filter (\<lambda>x. x \<noteq> a) z)),
     zip_discard = (\<lambda>a z. filter (\<lambda>x. x \<noteq> a) z)\<rparr>"

lemma fold_max_bound: "x \<in> set z \<Longrightarrow> x \<le> fold max z (m :: nat)" "m \<le> fold max z m"
proof (induction z arbitrary: m)
  case (Cons a z)
  {
    case 1
    then show ?case using Cons.IH(1) [of "max a m"] Cons.IH(2) [of "max a m"] by auto
  next
    case 2
    then show ?case using Cons.IH(2) [of "max a m"] by auto
  }
qed simp_all

lemma sample_zip_laws: "zip_laws sample_zip set"
proof -
  have "Suc (fold max z 0) \<notin> set z" for z :: "nat list"
    using fold_max_bound(1) [of "Suc (fold max z 0)" z 0] by auto
  then show ?thesis by (auto simp: zip_laws_def sample_zip_def)
qed



section \<open>Logs in another directory\<close>

lemma createArchive_elsewhere:
  assumes "reliable os" "os_cwd os = Some cwd" "is_directory cwd os"
    and "\<forall>p. is_file p os \<and> parent_path (host_platform h) p = cwd \<longrightarrow>
       take (length (filename_of (host_platform h) base)) (filename_of (host_platform h) p) \<noteq> filename_of (host_platform h) base"
  shows "\<exists>os'. createArchive h lib base pid ts os z = (Inr False, os', z)"
proof -
  from CollectLogFiles_reliable [OF assms(1,3), of h base] obtain files os' where
    f: "CollectLogFiles h cwd base os = (files, os')" "set files =
       {p. is_file p os \<and> parent_path (host_platform h) p = cwd \<and> p \<noteq> cwd \<and>
         extension_of (host_platform h) p = ''.log'' \<and>
         take (length (filename_of (host_platform h) base)) (filename_of (host_platform h) p) =
           filename_of (host_platform h) base}" by blast
  have "set files = {}" unfolding f(2) using assms(4) by blast
  with f(1) show ?thesis using assms(2) by (simp add: createArchive_def fs_current_path_def)
qed

end
