(* ===== verification/Archive_Content.thy ===== *)
theory Archive_Content
  imports Archive
begin

text \<open>
  What \<open>createArchive\<close> puts into its archive when the system and libzip do not fail. libzip reads
  the files when the archive is closed, so an archive is a map from the names of its entries to the
  paths they are read from.
\<close>

section \<open>What libzip documents of the contents\<close>

text \<open>
  \<open>zip_open\<close> with \<open>ZIP_TRUNCATE\<close> begins an empty archive, \<open>zip_file_add\<close> with
  \<open>ZIP_FL_OVERWRITE\<close> sets one entry to what its source reads, and \<open>zip_close\<close> writes the entries to
  the archive's file. \<open>target\<close> and \<open>held\<close> are the file name and the entries of an open archive,
  \<open>reads\<close> the path of a source and \<open>written\<close> the archives on disk.
\<close>

definition zip_writes ::
  "'z libzip \<Rightarrow> ('z \<Rightarrow> nat \<Rightarrow> string) \<Rightarrow> ('z \<Rightarrow> nat \<Rightarrow> string) \<Rightarrow> ('z \<Rightarrow> nat \<Rightarrow> string \<rightharpoonup> string) \<Rightarrow>
     ('z \<Rightarrow> string \<Rightarrow> (string \<rightharpoonup> string) option) \<Rightarrow> bool" where
  "zip_writes lib target reads held written \<longleftrightarrow>
     (\<forall>n z a z'. zip_open lib n z = (Some a, z') \<longrightarrow> target z' a = n \<and> held z' a = Map.empty) \<and>
     (\<forall>a f z s z'. zip_source_file lib a f z = (Some s, z') \<longrightarrow>
        reads z' s = f \<and> target z' a = target z a \<and> held z' a = held z a) \<and>
     (\<forall>a n s z i z'. zip_file_add lib a n s z = (i, z') \<and> 0 \<le> i \<longrightarrow>
        target z' a = target z a \<and> held z' a = (held z a)(n \<mapsto> reads z s)) \<and>
     (\<forall>a z z'. zip_close lib a z = (0, z') \<longrightarrow> written z' (target z a) = Some (held z a))"

lemma zip_writesD:
  assumes "zip_writes lib target reads held written"
  shows "zip_open lib n z = (Some a, z') \<Longrightarrow> target z' a = n \<and> held z' a = Map.empty"
    "zip_source_file lib a f z = (Some s, z') \<Longrightarrow> reads z' s = f \<and> target z' a = target z a \<and> held z' a = held z a"
    "zip_file_add lib a n s z = (i, z') \<Longrightarrow> 0 \<le> i \<Longrightarrow> target z' a = target z a \<and> held z' a = (held z a)(n \<mapsto> reads z s)"
    "zip_close lib a z = (0, z') \<Longrightarrow> written z' (target z a) = Some (held z a)"
  using assms unfolding zip_writes_def by blast+

text \<open>A libzip that does not fail: each call on an open archive succeeds.\<close>

definition zip_works :: "'z libzip \<Rightarrow> ('z \<Rightarrow> nat set) \<Rightarrow> bool" where
  "zip_works lib open_archives \<longleftrightarrow>
     (\<forall>n z. fst (zip_open lib n z) \<noteq> None) \<and>
     (\<forall>a z f. a \<in> open_archives z \<longrightarrow> fst (zip_source_file lib a f z) \<noteq> None) \<and>
     (\<forall>a z n f s z'. a \<in> open_archives z \<and> zip_source_file lib a f z = (Some s, z') \<longrightarrow>
        0 \<le> fst (zip_file_add lib a n s z')) \<and>
     (\<forall>a z. a \<in> open_archives z \<longrightarrow> fst (zip_close lib a z) = 0)"

lemma zip_worksD:
  assumes "zip_works lib A"
  shows "\<exists>a z'. zip_open lib n z = (Some a, z')"
    "a \<in> A z \<Longrightarrow> \<exists>s z'. zip_source_file lib a f z = (Some s, z')"
    "a \<in> A z \<Longrightarrow> zip_source_file lib a f z = (Some s, z') \<Longrightarrow> zip_file_add lib a n s z' = (i, z'') \<Longrightarrow> 0 \<le> i"
    "a \<in> A z \<Longrightarrow> \<exists>z'. zip_close lib a z = (0, z')"
proof -
  have w: "fst (zip_open lib n z) \<noteq> None" "a \<in> A z \<Longrightarrow> fst (zip_source_file lib a f z) \<noteq> None"
    "a \<in> A z \<Longrightarrow> zip_source_file lib a f z = (Some s, z') \<Longrightarrow> 0 \<le> fst (zip_file_add lib a n s z')"
    "a \<in> A z \<Longrightarrow> fst (zip_close lib a z) = 0"
    using assms unfolding zip_works_def by blast+
  show "\<exists>a z'. zip_open lib n z = (Some a, z')" using w(1) by (cases "zip_open lib n z") auto
  show "\<exists>s z'. zip_source_file lib a f z = (Some s, z')" if "a \<in> A z"
    using w(2) [OF that] by (cases "zip_source_file lib a f z") auto
  show "0 \<le> i" if "a \<in> A z" "zip_source_file lib a f z = (Some s, z')" "zip_file_add lib a n s z' = (i, z'')"
    using w(3) [OF that(1,2)] that(3) by simp
  show "\<exists>z'. zip_close lib a z = (0, z')" if "a \<in> A z" using w(4) [OF that] by (cases "zip_close lib a z") auto
qed

section \<open>The entries of a list of files\<close>

definition entries_of :: "platform option \<Rightarrow> string list \<Rightarrow> (string \<rightharpoonup> string) \<Rightarrow> (string \<rightharpoonup> string)" where
  "entries_of pl fs m = fold (\<lambda>f m. m(filename_of pl f \<mapsto> f)) fs m"

lemma entries_of_simps [simp]:
  "entries_of pl [] m = m"
  "entries_of pl (f # fs) m = entries_of pl fs (m(filename_of pl f \<mapsto> f))"
  by (simp_all add: entries_of_def)

lemma entries_of_Some: "entries_of pl fs m n = Some p \<Longrightarrow> m n = Some p \<or> p \<in> set fs \<and> filename_of pl p = n"
proof (induction fs arbitrary: m)
  case (Cons f fs)
  then have "entries_of pl fs (m(filename_of pl f \<mapsto> f)) n = Some p" by simp
  from Cons.IH [OF this] show ?case by (auto split: if_splits)
qed simp

lemma entries_of_keeps: "m n \<noteq> None \<Longrightarrow> entries_of pl fs m n \<noteq> None"
proof (induction fs arbitrary: m)
  case (Cons f fs)
  have "(m(filename_of pl f \<mapsto> f)) n \<noteq> None" using Cons.prems by simp
  then show ?case unfolding entries_of_simps by (rule Cons.IH)
qed simp

lemma entries_of_name: "f \<in> set fs \<Longrightarrow> entries_of pl fs m (filename_of pl f) \<noteq> None"
proof (induction fs arbitrary: m)
  case (Cons g fs)
  then show ?case using entries_of_keeps [of "m(filename_of pl g \<mapsto> g)" "filename_of pl g" pl fs] by auto
qed simp

text \<open>The loop adds exactly the files that are not empty.\<close>

abbreviation non_empty :: "'k os \<Rightarrow> string \<Rightarrow> bool" where
  "non_empty os f \<equiv> file_content f os \<noteq> Some []"

lemma add_files_holds:
  assumes laws: "zip_laws lib A" "zip_writes lib target reads held written" "zip_works lib A"
    and "reliable os" "list_all (\<lambda>f. is_file f os) fs" "a \<in> A z"
  shows "\<exists>os' z'. add_files h lib a had fs os z = (Some (had \<or> filter (non_empty os) fs \<noteq> []), os', z') \<and>
     a \<in> A z' \<and> target z' a = target z a \<and>
     held z' a = entries_of (host_platform h) (filter (non_empty os) fs) (held z a) \<and>
     (\<forall>q. file_content q os' = file_content q os)"
  using assms(4-6)
proof (induction fs arbitrary: had os z)
  case Nil
  then show ?case by simp
next
  case (Cons f fs)
  let ?n = "filename_of (host_platform h) f"
  from Cons.prems(2) obtain c where c: "file_content f os = Some c" by (auto simp: is_file_content)
  from file_size_reliable [OF Cons.prems(1) c] obtain os1 where
    size: "fs_file_size f os = (Inr (length c), os1)" "same_system os os1" "\<forall>q. file_content q os1 = file_content q os"
    by blast
  have r: "reliable os1" "list_all (\<lambda>f. is_file f os1) fs"
    using Cons.prems(1,2) same_system_keeps(1) [OF size(2)] size(3) by (simp_all add: is_file_content)
  have same: "filter (non_empty os1) fs = filter (non_empty os) fs" by (simp add: size(3))
  show ?case
  proof (cases "c = []")
    case True
    from Cons.IH [OF r Cons.prems(3), of had] show ?thesis
      using size(1,3) c True unfolding same by simp
  next
    case False
    from zip_worksD(2) [OF laws(3) Cons.prems(3), of f] obtain s z1 where
      s: "zip_source_file lib a f z = (Some s, z1)" by blast
    obtain i z2 where i: "zip_file_add lib a ?n s z1 = (i, z2)" by fastforce
    have pos: "0 \<le> i" by (rule zip_worksD(3) [OF laws(3) Cons.prems(3) s i])
    have open2: "a \<in> A z2" using Cons.prems(3) zip_lawsD(3) [OF laws(1) s] zip_lawsD(4) [OF laws(1) i] by simp
    have h2: "target z2 a = target z a" "held z2 a = (held z a)(?n \<mapsto> f)"
      using zip_writesD(2) [OF laws(2) s] zip_writesD(3) [OF laws(2) i pos] by simp_all
    from Cons.IH [OF r open2, of True] obtain os' z' where
      "add_files h lib a True fs os1 z2 = (Some True, os', z')" "a \<in> A z'" "target z' a = target z2 a"
      "held z' a = entries_of (host_platform h) (filter (non_empty os) fs) (held z2 a)"
      "\<forall>q. file_content q os' = file_content q os1" unfolding same by auto
    then show ?thesis using size c False s i pos h2 by simp
  qed
qed

section \<open>The archive\<close>

text \<open>A regular file of the directory that is named like a log of the base and is not empty.\<close>

definition log_to_keep :: "'k host \<Rightarrow> string \<Rightarrow> string \<Rightarrow> 'k os \<Rightarrow> string \<Rightarrow> bool" where
  "log_to_keep h dir base os p \<longleftrightarrow>
     is_file p os \<and> non_empty os p \<and> parent_path (host_platform h) p = dir \<and> p \<noteq> dir \<and>
     extension_of (host_platform h) p = ''.log'' \<and>
     take (length (filename_of (host_platform h) base)) (filename_of (host_platform h) p) = filename_of (host_platform h) base"

lemma fill_archive_holds:
  assumes laws: "zip_laws lib A" "zip_writes lib target reads held written" "zip_works lib A"
    and os: "reliable os" "list_all (\<lambda>f. is_file f os) fs" and a: "a \<in> A z" "held z a = Map.empty"
  shows "\<exists>os' z'. fill_archive h lib a fs os z = (filter (non_empty os) fs \<noteq> [], os', z') \<and>
     (filter (non_empty os) fs \<noteq> [] \<longrightarrow>
        written z' (target z a) = Some (entries_of (host_platform h) (filter (non_empty os) fs) Map.empty)) \<and>
     (\<forall>q. file_content q os' = file_content q os)"
proof -
  from add_files_holds [OF laws os a(1), of h False] obtain os1 z1 where
    add: "add_files h lib a False fs os z = (Some (filter (non_empty os) fs \<noteq> []), os1, z1)" "a \<in> A z1"
      "target z1 a = target z a" "held z1 a = entries_of (host_platform h) (filter (non_empty os) fs) Map.empty"
      "\<forall>q. file_content q os1 = file_content q os" unfolding a(2) by auto
  from zip_worksD(4) [OF laws(3) add(2)] obtain z2 where cl: "zip_close lib a z1 = (0, z2)" by blast
  from zip_writesD(4) [OF laws(2) cl] add(3,4)
  have w: "written z2 (target z a) = Some (entries_of (host_platform h) (filter (non_empty os) fs) Map.empty)" by simp
  show ?thesis
    using add(1,5) cl w by (cases "filter (non_empty os) fs = []") (simp_all add: fill_archive_def guard_defs)
qed

text \<open>
  C30: the archive is complete: when neither the system nor libzip fails, \<open>createArchive\<close> answers
  \<open>true\<close> exactly when the current directory has a log of the base that is not empty; then the archive
  of the promised name has an entry for each of them and no other entry, each reads a file
  of that name, and no file of the directory has been changed.
\<close>

theorem archive_is_complete:
  assumes "zip_laws lib A" "zip_writes lib target reads held written" "zip_works lib A"
    and "reliable os" "os_cwd os = Some cwd" "is_directory cwd os" "ts \<noteq> []" "base \<noteq> []"
  shows "\<exists>ok os' z'. createArchive h lib base pid ts os z = (Inr ok, os', z') \<and>
     (ok \<longleftrightarrow> (\<exists>p. log_to_keep h cwd base os p)) \<and>
     (ok \<longrightarrow> (\<exists>m. written z' (archive_file_name base pid ts) = Some m \<and>
        (\<forall>n p. m n = Some p \<longrightarrow> log_to_keep h cwd base os p \<and> filename_of (host_platform h) p = n) \<and>
        (\<forall>p. log_to_keep h cwd base os p \<longrightarrow> m (filename_of (host_platform h) p) \<noteq> None))) \<and>
     (\<forall>q. file_content q os' = file_content q os)"
proof -
  from CollectLogFiles_reliable [OF assms(4,6), of h base] obtain fs os1 where
    f: "CollectLogFiles h cwd base os = (fs, os1)" "same_system os os1" "\<forall>q. file_content q os1 = file_content q os"
    and set: "set fs = {p. is_file p os \<and> parent_path (host_platform h) p = cwd \<and> p \<noteq> cwd \<and>
       extension_of (host_platform h) p = ''.log'' \<and>
       take (length (filename_of (host_platform h) base)) (filename_of (host_platform h) p) =
         filename_of (host_platform h) base}" by blast
  let ?fs = "filter (non_empty os) fs"
  have keep: "set ?fs = {p. log_to_keep h cwd base os p}" by (auto simp: set log_to_keep_def)
  have none: "?fs = [] \<longleftrightarrow> \<not> (\<exists>p. log_to_keep h cwd base os p)" using keep by (metis Collect_empty_eq set_empty)
  show ?thesis
  proof (cases "fs = []")
    case True
    with f none assms(5,7,8) show ?thesis
      by (intro exI [of _ False] exI [of _ os1] exI [of _ z]) (simp add: createArchive_def fs_current_path_def)
  next
    case False
    from zip_worksD(1) [OF assms(3)] obtain a z1 where o: "zip_open lib (archive_file_name base pid ts) z = (Some a, z1)"
      by metis
    from zip_lawsD(1) [OF assms(1) o] zip_writesD(1) [OF assms(2) o]
    have a: "a \<in> A z1" "target z1 a = archive_file_name base pid ts" "held z1 a = Map.empty" by simp_all
    have r: "reliable os1" "list_all (\<lambda>f. is_file f os1) fs"
      using assms(4) same_system_keeps(1) [OF f(2)] f(3) set by (simp_all add: list_all_iff is_file_content)
    have same: "filter (non_empty os1) fs = ?fs" by (simp add: f(3))
    from fill_archive_holds [OF assms(1-3) r a(1,3), of h] obtain os' z' where
      fill: "fill_archive h lib a fs os1 z1 = (?fs \<noteq> [], os', z')"
        "?fs \<noteq> [] \<longrightarrow> written z' (archive_file_name base pid ts) = Some (entries_of (host_platform h) ?fs Map.empty)"
        "\<forall>q. file_content q os' = file_content q os1" unfolding same a(2) by blast
    have "createArchive h lib base pid ts os z = (Inr (?fs \<noteq> []), os', z')"
      using assms(5,7,8) f(1) False o fill(1) by (simp add: createArchive_def fs_current_path_def)
    moreover have "entries_of (host_platform h) ?fs Map.empty n = Some p \<Longrightarrow>
        log_to_keep h cwd base os p \<and> filename_of (host_platform h) p = n" for n p
      using entries_of_Some [of "host_platform h" ?fs Map.empty n p] keep by auto
    moreover have "log_to_keep h cwd base os p \<Longrightarrow>
        entries_of (host_platform h) ?fs Map.empty (filename_of (host_platform h) p) \<noteq> None" for p
      using entries_of_name [of p ?fs] keep by blast
    ultimately show ?thesis using fill(2,3) f(3) none
      by (intro exI [of _ "?fs \<noteq> []"] exI [of _ os'] exI [of _ z']) auto
  qed
qed

text \<open>
  A libzip that works, for the witness: the open archives with their names and entries, the paths of
  the sources handed out, and the archives written.
\<close>

type_synonym zip_state = "(nat \<times> string \<times> (string \<rightharpoonup> string)) list \<times> string list \<times> (string \<rightharpoonup> (string \<rightharpoonup> string))"

definition open_entry :: "zip_state \<Rightarrow> nat \<Rightarrow> string \<times> (string \<rightharpoonup> string)" where
  "open_entry z a = (case map_of (fst z) a of None \<Rightarrow> ([], Map.empty) | Some e \<Rightarrow> e)"

definition without :: "nat \<Rightarrow> (nat \<times> 'e) list \<Rightarrow> (nat \<times> 'e) list" where
  "without a xs = filter (\<lambda>x. fst x \<noteq> a) xs"

lemma without_keys: "fst ` set (without a xs) = fst ` set xs - {a}"
  by (auto simp: without_def)

definition disk_zip :: "zip_state libzip" where
  "disk_zip = \<lparr>
     zip_open = (\<lambda>n z. (Some (fresh (fst z)), ((fresh (fst z), n, Map.empty) # fst z, snd z))),
     zip_source_file = (\<lambda>a f z. (Some (length (fst (snd z))), (fst z, fst (snd z) @ [f], snd (snd z)))),
     zip_file_add = (\<lambda>a n s z.
        if a \<in> fst ` set (fst z)
        then (0, ((a, fst (open_entry z a), (snd (open_entry z a))(n \<mapsto> fst (snd z) ! s)) # without a (fst z), snd z))
        else (-1, z)),
     zip_source_free = (\<lambda>s z. z),
     zip_close = (\<lambda>a z.
        if a \<in> fst ` set (fst z)
        then (0, (without a (fst z), fst (snd z), (snd (snd z))(fst (open_entry z a) \<mapsto> snd (open_entry z a))))
        else (-1, z)),
     zip_discard = (\<lambda>a z. (without a (fst z), snd z))\<rparr>"

lemma disk_zip_laws:
  "zip_laws disk_zip (\<lambda>z. fst ` set (fst z))"
  "zip_writes disk_zip (\<lambda>z a. fst (open_entry z a)) (\<lambda>z s. fst (snd z) ! s) (\<lambda>z a. snd (open_entry z a)) (\<lambda>z. snd (snd z))"
  "zip_works disk_zip (\<lambda>z. fst ` set (fst z))"
proof -
  show "zip_laws disk_zip (\<lambda>z. fst ` set (fst z))"
    using fresh_new by (auto simp: zip_laws_def disk_zip_def without_keys)
  show "zip_writes disk_zip (\<lambda>z a. fst (open_entry z a)) (\<lambda>z s. fst (snd z) ! s) (\<lambda>z a. snd (open_entry z a)) (\<lambda>z. snd (snd z))"
    by (auto simp: zip_writes_def disk_zip_def open_entry_def split: if_splits)
  show "zip_works disk_zip (\<lambda>z. fst ` set (fst z))"
    by (auto simp: zip_works_def disk_zip_def)
qed

text \<open>A log that is not empty, an empty one, and a file that is no log.\<close>

theorem archive_is_complete_witness:
  "\<exists>os z m. createArchive (sample_host (Some MacOS)) disk_zip ''App'' 7 ''2024''
       (sample_os [(''/w/App.log'', ''a''), (''/w/AppX.log'', []), (''/w/App.txt'', ''b'')] [''/w'']) ([], [], Map.empty) =
       (Inr True, os, z) \<and>
     snd (snd z) (archive_file_name ''App'' 7 ''2024'') = Some m \<and> m ''App.log'' = Some ''/w/App.log'' \<and> dom m = {''App.log''}"
proof -
  let ?os = "sample_os [(''/w/App.log'', ''a''), (''/w/AppX.log'', []), (''/w/App.txt'', ''b'')] [''/w'']"
  let ?h = "sample_host (Some MacOS)"
  have d: "os_cwd ?os = Some ''/w''" "is_directory ''/w'' ?os" by (simp_all add: is_directory_def sample_os_def)
  have content: "file_content p ?os = (if p = ''/w/App.log'' then Some ''a'' else if p = ''/w/AppX.log'' then Some []
      else if p = ''/w/App.txt'' then Some ''b'' else None)" for p
    by (simp add: file_content_def sample_os_def)
  have keep: "log_to_keep ?h ''/w'' ''App'' ?os p = (p = ''/w/App.log'')" for p
    by (auto simp: log_to_keep_def is_file_content content app_names split: if_splits)
  have given: "''2024'' \<noteq> []" "''App'' \<noteq> []" by simp_all
  note complete = archive_is_complete [OF disk_zip_laws sample_os_reliable d given, of ?h 7 "([], [], Map.empty)",
      unfolded keep sample_host_platform]
  obtain ok os z where r: "createArchive ?h disk_zip ''App'' 7 ''2024'' ?os ([], [], Map.empty) = (Inr ok, os, z)"
    and ok: "ok \<longleftrightarrow> (\<exists>p. p = ''/w/App.log'')"
    and entries: "ok \<longrightarrow> (\<exists>m. snd (snd z) (archive_file_name ''App'' 7 ''2024'') = Some m \<and>
       (\<forall>n p. m n = Some p \<longrightarrow> p = ''/w/App.log'' \<and> filename_of (Some MacOS) p = n) \<and>
       (\<forall>p. p = ''/w/App.log'' \<longrightarrow> m (filename_of (Some MacOS) p) \<noteq> None))"
    using complete by (elim exE conjE) (rule that; assumption)
  have ok: ok using ok by simp
  with entries obtain m where w: "snd (snd z) (archive_file_name ''App'' 7 ''2024'') = Some m"
    and m: "\<forall>n p. m n = Some p \<longrightarrow> p = ''/w/App.log'' \<and> filename_of (Some MacOS) p = n"
      "m (filename_of (Some MacOS) ''/w/App.log'') \<noteq> None" by blast
  have one: "m ''App.log'' = Some ''/w/App.log''" using m unfolding app_names(3) by blast
  have "n = ''App.log''" if "m n = Some p" for n p using m(1) that app_names(3) by metis
  then have "dom m = {''App.log''}" using one by blast
  with r w one ok show ?thesis by (simp only:) blast
qed

end
