(* ===== verification/Async_Logger.thy ===== *)
theory Async_Logger
  imports Async_Queue Ring_Buffer File_Rotate Crash_Handler
begin

text \<open>
  The class \<open>AsyncLogger\<close> of \<open>async_logger.h\<close> and \<open>async_logger.cpp\<close>, which puts the queue, the
  fallback buffer, the file manager and the crash handler together. Each method is one step
  here, and so is each pass of the writer thread between two waits; the interleaving inside
  the queue's methods is the subject of theory \<open>Mpsc\<close>.
\<close>

section \<open>State\<close>

text \<open>
  What ends a call other than by returning: undefined behaviour, a wait that never ends, a
  failed assertion, an exception.
\<close>

datatype fault = Undefined | Hangs | Aborts | Throws exn

text \<open>The writer thread: none, at the test of its loop, at \<open>acquire\<close>, woken up, finished.\<close>

datatype writer = W_none | W_check | W_acquire | W_woken | W_done

record AsyncLogger =
  al_file :: "FileManager option"
  al_queue :: "LogEntry AsyncQueue option"
  al_ring :: "LogEntry RingBuffer option"
  al_crash_handler :: bool
  al_writer :: writer
  al_stop :: bool
  al_sem :: nat
  al_min_level :: LogLevel
  al_process_id :: ProcessIdType
  al_initialized :: bool
  al_queue_size :: size_t

record 'k world =
  w_os :: "'k os"
  w_crash :: crash_state
  w_memory :: memory

text \<open>
  What the environment decides: the host, the formatter's environment, the process id, the
  largest count \<open>counting_semaphore<1>\<close> can hold (at least 1, chosen by the library), whether
  assertions are compiled in, and a number that identifies the object.
\<close>

record 'k logger_env =
  le_host :: "'k host"
  le_format :: format_env
  le_process_id :: ProcessIdType
  le_sem_max :: nat
  le_asserts :: bool
  le_id :: nat

text \<open>
  The identifiers and the time come from the system: what it answers are the arguments here. The
  clock counts \<open>ticks_per_ms\<close> ticks in a millisecond, and \<open>duration_cast\<close> rounds towards zero.
\<close>

definition getProcessId :: "platform option \<Rightarrow> ProcessIdType \<Rightarrow> ProcessIdType \<Rightarrow> ProcessIdType" where
  "getProcessId pl current_process_id pid = (if pl = Some Windows then current_process_id else pid)"

definition getThreadId :: "platform option \<Rightarrow> 32 word \<Rightarrow> nat \<Rightarrow> ThreadIdType" where
  "getThreadId pl current_thread_id tid =
     (if pl = Some Windows then Dword current_thread_id else Std_thread_id tid)"

definition getTimestamp :: "int \<Rightarrow> int \<Rightarrow> int" where
  "getTimestamp ticks_per_ms ticks = quot_trunc ticks ticks_per_ms"

text \<open>Later calls have later time stamps, and since the epoch a time stamp is the past millisecond.\<close>

lemma getTimestamp_after_epoch:
  "0 < p \<Longrightarrow> 0 \<le> t \<Longrightarrow> getTimestamp p t = t div p \<and> p * getTimestamp p t \<le> t \<and> t < p * (getTimestamp p t + 1)"
proof -
  assume "0 < p" "0 \<le> t"
  then have "getTimestamp p t = t div p" by (cases "t = 0") (simp_all add: getTimestamp_def quot_trunc_def)
  moreover have "p * (t div p) \<le> t \<and> t < p * (t div p) + p"
    using pos_mod_bound [OF \<open>0 < p\<close>, of t] pos_mod_sign [OF \<open>0 < p\<close>, of t] mult_div_mod_eq [of p t] by linarith
  ultimately show ?thesis by (simp add: distrib_left)
qed

lemma getTimestamp_mono:
  assumes "0 < p" "t \<le> u"
  shows "getTimestamp p t \<le> getTimestamp p u"
proof -
  have neg: "getTimestamp p x = - (- x div p)" if "x < 0" for x
    using assms(1) that by (simp add: getTimestamp_def quot_trunc_def)
  have pos: "0 \<le> getTimestamp p x" "getTimestamp p x = x div p" if "0 \<le> x" for x
    using assms(1) that by (cases "x = 0"; simp add: getTimestamp_def quot_trunc_def pos_imp_zdiv_nonneg_iff)+
  consider "0 \<le> t" | "t < 0" "0 \<le> u" | "u < 0" "t < 0" using assms(2) by linarith
  then show ?thesis
  proof cases
    case 1
    with assms pos show ?thesis by (simp add: zdiv_mono1)
  next
    case 2
    have "0 \<le> - t div p" using 2(1) assms(1) by (simp add: pos_imp_zdiv_nonneg_iff)
    with 2 pos(1) [of u] neg [of t] show ?thesis by simp
  next
    case 3
    with assms neg zdiv_mono1 [of "- u" "- t" p] show ?thesis by simp
  qed
qed

definition AsyncLogger_ctor :: "'k logger_env \<Rightarrow> AsyncLogger" where
  "AsyncLogger_ctor env =
     \<lparr>al_file = None, al_queue = None, al_ring = None, al_crash_handler = False, al_writer = W_none,
      al_stop = False, al_sem = 0, al_min_level = kLogLevelDebug, al_process_id = le_process_id env,
      al_initialized = False, al_queue_size = 0\<rparr>"

section \<open>Writing and flushing\<close>

fun write_entries ::
  "'k logger_env \<Rightarrow> memory \<Rightarrow> LogEntry list \<Rightarrow> FileManager \<Rightarrow> 'k os \<Rightarrow> fault + FileManager \<times> 'k os" where
  "write_entries env m [] fm os = Inr (fm, os)"
| "write_entries env m (e # es) fm os =
     (case formatLogEntry (le_format env) m e of
        None \<Rightarrow> Inl Undefined
      | Some formatted \<Rightarrow>
          (case Write (le_host env) formatted fm os of
             (ok, fm, os) \<Rightarrow> write_entries env m es fm os))"

definition writeEntries ::
  "'k logger_env \<Rightarrow> LogEntry list \<Rightarrow> AsyncLogger \<Rightarrow> 'k world \<Rightarrow> fault + AsyncLogger \<times> 'k world" where
  "writeEntries env es al w =
     (case al_file al of
        None \<Rightarrow> Inr (al, w)
      | Some fm \<Rightarrow>
          (case write_entries env (w_memory w) es fm (w_os w) of
             Inl f \<Rightarrow> Inl f
           | Inr (fm, os) \<Rightarrow> Inr (al\<lparr>al_file := Some fm\<rparr>, w\<lparr>w_os := os\<rparr>)))"

text \<open>The two \<open>popAll\<close> calls; the pointers are null before \<open>initialize\<close>.\<close>

definition pop_queue :: "AsyncLogger \<Rightarrow> fault + LogEntry list \<times> AsyncLogger" where
  "pop_queue al =
     (case al_queue al of
        None \<Rightarrow> Inl Undefined
      | Some q \<Rightarrow>
          (case popAll q of
             None \<Rightarrow> Inl Hangs
           | Some (es, q) \<Rightarrow> Inr (es, al\<lparr>al_queue := Some q\<rparr>)))"

definition pop_ring :: "AsyncLogger \<Rightarrow> fault + LogEntry list \<times> AsyncLogger" where
  "pop_ring al =
     (case al_ring al of
        None \<Rightarrow> Inl Undefined
      | Some b \<Rightarrow> (case rb_popAll b of (es, b) \<Rightarrow> Inr (es, al\<lparr>al_ring := Some b\<rparr>)))"

definition al_flush :: "'k logger_env \<Rightarrow> AsyncLogger \<Rightarrow> 'k world \<Rightarrow> fault + AsyncLogger \<times> 'k world" where
  "al_flush env al w =
     (case pop_queue al of
        Inl f \<Rightarrow> Inl f
      | Inr (queue_entries, al) \<Rightarrow>
          (case pop_ring al of
             Inl f \<Rightarrow> Inl f
           | Inr (ring_entries, al) \<Rightarrow>
               (case writeEntries env queue_entries al w of
                  Inl f \<Rightarrow> Inl f
                | Inr (al, w) \<Rightarrow> writeEntries env ring_entries al w)))"

definition al_emergencyFlush :: "'k logger_env \<Rightarrow> AsyncLogger \<Rightarrow> 'k world \<Rightarrow> fault + AsyncLogger \<times> 'k world" where
  "al_emergencyFlush env al w =
     (case pop_queue al of
        Inl f \<Rightarrow> Inl f
      | Inr (queue_entries, al) \<Rightarrow>
          (case writeEntries env queue_entries al w of
             Inl f \<Rightarrow> Inl f
           | Inr (al, w) \<Rightarrow>
               (case pop_ring al of
                  Inl f \<Rightarrow> Inl f
                | Inr (ring_entries, al) \<Rightarrow>
                    (case writeEntries env ring_entries al w of
                       Inl f \<Rightarrow> Inl f
                     | Inr (al, w) \<Rightarrow>
                         (case al_file al of
                            None \<Rightarrow> Inr (al, w)
                          | Some fm \<Rightarrow>
                              (case Flush (le_host env) fm (w_os w) of
                                 (ok, fm, os) \<Rightarrow> Inr (al\<lparr>al_file := Some fm\<rparr>, w\<lparr>w_os := os\<rparr>)))))))"

section \<open>Logging\<close>

text \<open>\<open>release\<close> beyond the largest count is undefined behaviour.\<close>

definition sem_release :: "'k logger_env \<Rightarrow> AsyncLogger \<Rightarrow> fault + AsyncLogger" where
  "sem_release env al =
     (if al_sem al < le_sem_max env then Inr (al\<lparr>al_sem := al_sem al + 1\<rparr>) else Inl Undefined)"

definition setLogLevel :: "LogLevel \<Rightarrow> AsyncLogger \<Rightarrow> AsyncLogger" where
  "setLogLevel level al = al\<lparr>al_min_level := level\<rparr>"

definition getLogLevel :: "AsyncLogger \<Rightarrow> LogLevel" where
  "getLogLevel al = al_min_level al"

text \<open>
  \<open>log\<close>: the addresses of the caller's two strings, the time and the thread are arguments. The
  entry refers to the strings, it does not copy them.
\<close>

definition log_entry :: "AsyncLogger \<Rightarrow> memory \<Rightarrow> LogLevel \<Rightarrow> nat \<Rightarrow> nat \<Rightarrow> int \<Rightarrow> ThreadIdType \<Rightarrow> LogEntry" where
  "log_entry al m level tag message ts tid =
     LogEntry_ctor level ts (al_process_id al) tid (view_of m tag) (view_of m message)"

definition al_log ::
  "'k logger_env \<Rightarrow> LogLevel \<Rightarrow> nat \<Rightarrow> nat \<Rightarrow> int \<Rightarrow> ThreadIdType \<Rightarrow> AsyncLogger \<Rightarrow> 'k world \<Rightarrow>
     fault + AsyncLogger \<times> 'k world" where
  "al_log env level tag message ts tid al w =
     (if \<not> shouldLog level (al_min_level al) then Inr (al, w)
      else if \<not> al_initialized al then Inr (al, w)
      else
        let entry = log_entry al (w_memory w) level tag message ts tid
        in case al_queue al of
             None \<Rightarrow> Inl Undefined
           | Some q \<Rightarrow>
               (case tryPush_rvalue entry q of
                  None \<Rightarrow> Inl Hangs
                | Some (True, q) \<Rightarrow>
                    (case sem_release env (al\<lparr>al_queue := Some q\<rparr>) of
                       Inl f \<Rightarrow> Inl f
                     | Inr al \<Rightarrow> Inr (al, w))
                | Some (False, q) \<Rightarrow>
                    (let al = al\<lparr>al_queue := Some q\<rparr>
                     in case al_ring al of
                          None \<Rightarrow> Inl Undefined
                        | Some b \<Rightarrow>
                            (case rb_tryPush entry b of
                               (False, b) \<Rightarrow> Inr (al\<lparr>al_ring := Some b\<rparr>, w)
                             | (True, b) \<Rightarrow> al_flush env (al\<lparr>al_ring := Some b\<rparr>) w))))"

section \<open>The writer thread\<close>

text \<open>One pass of the writer thread; \<open>acquire\<close> waits, that is nothing changes, while the count is 0.\<close>

definition writerThread_step :: "'k logger_env \<Rightarrow> AsyncLogger \<Rightarrow> 'k world \<Rightarrow> fault + AsyncLogger \<times> 'k world" where
  "writerThread_step env al w =
     (case al_writer al of
        W_check \<Rightarrow> Inr (al\<lparr>al_writer := if \<not> al_stop al then W_acquire else W_done\<rparr>, w)
      | W_acquire \<Rightarrow>
          Inr (if al_sem al = 0 then al else al\<lparr>al_sem := al_sem al - 1, al_writer := W_woken\<rparr>, w)
      | W_woken \<Rightarrow>
          (case al_flush env al w of
             Inl f \<Rightarrow> Inl f
           | Inr (al', w) \<Rightarrow> Inr (al'\<lparr>al_writer := if al_stop al then W_done else W_check\<rparr>, w))
      | _ \<Rightarrow> Inr (al, w))"

text \<open>\<open>join\<close>: the thread runs until it has finished; three steps are enough after a stop request.\<close>

fun run_writer :: "nat \<Rightarrow> 'k logger_env \<Rightarrow> AsyncLogger \<Rightarrow> 'k world \<Rightarrow> fault + AsyncLogger \<times> 'k world" where
  "run_writer 0 env al w = (if al_writer al = W_done then Inr (al, w) else Inl Hangs)"
| "run_writer (Suc n) env al w =
     (if al_writer al = W_done then Inr (al, w)
      else case writerThread_step env al w of
             Inl f \<Rightarrow> Inl f
           | Inr (al, w) \<Rightarrow> run_writer n env al w)"

definition join_writer :: "'k logger_env \<Rightarrow> AsyncLogger \<Rightarrow> 'k world \<Rightarrow> fault + AsyncLogger \<times> 'k world" where
  "join_writer env al w =
     (if al_writer al = W_none then Inr (al, w)
      else case run_writer 3 env al w of
             Inl f \<Rightarrow> Inl f
           | Inr (al, w) \<Rightarrow> Inr (al\<lparr>al_writer := W_none\<rparr>, w))"

section \<open>Beginning and end\<close>

text \<open>An exception leaves the object as it is then, so it comes with the state.\<close>

definition initializeComponents ::
  "'k logger_env \<Rightarrow> string \<Rightarrow> size_t \<Rightarrow> AsyncLogger \<Rightarrow> 'k world \<Rightarrow> (fault + bool) \<times> AsyncLogger \<times> 'k world" where
  "initializeComponents env base_name queue_size al w =
     (let al = al\<lparr>al_file := Some (FileManager_ctor base_name)\<rparr>
      in case AsyncQueue_ctor (le_asserts env) queue_size of
           None \<Rightarrow> (Inl Aborts, al, w)
         | Some q \<Rightarrow>
             let al = al\<lparr>al_queue := Some q, al_ring := Some (LogRing_ctor queue_size), al_crash_handler := True\<rparr>;
                 w = w\<lparr>w_crash := CrashHandler_ctor (host_platform (le_host env)) (le_id env) (w_crash w)\<rparr>
             in case Initialize (le_host env) (al_process_id al) (FileManager_ctor base_name) (w_os w) of
                  (Inl e, fm, os) \<Rightarrow> (Inl (Throws e), al\<lparr>al_file := Some fm\<rparr>, w\<lparr>w_os := os\<rparr>)
                | (Inr False, fm, os) \<Rightarrow> (Inr False, al\<lparr>al_file := Some fm\<rparr>, w\<lparr>w_os := os\<rparr>)
                | (Inr True, fm, os) \<Rightarrow>
                    (Inr True, al\<lparr>al_file := Some fm, al_writer := W_check\<rparr>,
                     w\<lparr>w_os := os, w_crash := setFlushCallback (le_id env) (w_crash w)\<rparr>))"

definition al_initialize ::
  "'k logger_env \<Rightarrow> string \<Rightarrow> size_t \<Rightarrow> AsyncLogger \<Rightarrow> 'k world \<Rightarrow> (fault + bool) \<times> AsyncLogger \<times> 'k world" where
  "al_initialize env base_name queue_size al w =
     (if al_initialized al then (Inr True, al, w)
      else case initializeComponents env base_name queue_size (al\<lparr>al_queue_size := queue_size\<rparr>) w of
             (Inl f, al, w) \<Rightarrow> (Inl f, al, w)
           | (Inr False, al, w) \<Rightarrow> (Inr False, al\<lparr>al_initialized := False\<rparr>, w)
           | (Inr True, al, w) \<Rightarrow> (Inr True, al\<lparr>al_initialized := True\<rparr>, w))"

definition deinitialize :: "'k logger_env \<Rightarrow> AsyncLogger \<Rightarrow> 'k world \<Rightarrow> fault + AsyncLogger \<times> 'k world" where
  "deinitialize env al w =
     (if \<not> al_initialized al then Inr (al, w)
      else case sem_release env (al\<lparr>al_stop := True\<rparr>) of
             Inl f \<Rightarrow> Inl f
           | Inr al \<Rightarrow>
               (case join_writer env al w of
                  Inl f \<Rightarrow> Inl f
                | Inr (al, w) \<Rightarrow>
                    (case al_flush env al w of
                       Inl f \<Rightarrow> Inl f
                     | Inr (al, w) \<Rightarrow> Inr (al\<lparr>al_initialized := False\<rparr>, w))))"

text \<open>
  The destructor: \<open>deinitialize\<close>, then the members in reverse order. The crash handler's
  destructor waits for its monitor and leaves the static callback set.
\<close>

definition AsyncLogger_dtor :: "'k logger_env \<Rightarrow> AsyncLogger \<Rightarrow> 'k world \<Rightarrow> fault + 'k world" where
  "AsyncLogger_dtor env al w =
     (case deinitialize env al w of
        Inl f \<Rightarrow> Inl f
      | Inr (al, w) \<Rightarrow>
          (case (if al_crash_handler al
                 then CrashHandler_dtor_wait (host_platform (le_host env)) (le_id env) (w_crash w)
                 else Some (w_crash w)) of
             None \<Rightarrow> Inl Hangs
           | Some crash \<Rightarrow>
               Inr (w\<lparr>w_crash := crash,
                      w_os := (case al_file al of None \<Rightarrow> w_os w
                        | Some fm \<Rightarrow> snd (FileManager_dtor (le_host env) fm (w_os w)))\<rparr>)))"

definition create ::
  "'k logger_env \<Rightarrow> string \<Rightarrow> size_t \<Rightarrow> 'k world \<Rightarrow> fault + AsyncLogger option \<times> 'k world" where
  "create env base_name queue_size w =
     (case al_initialize env base_name queue_size (AsyncLogger_ctor env) w of
        (Inl f, al, w) \<Rightarrow> Inl f
      | (Inr True, al, w) \<Rightarrow> Inr (Some al, w)
      | (Inr False, al, w) \<Rightarrow>
          (case AsyncLogger_dtor env al w of Inl f \<Rightarrow> Inl f | Inr w \<Rightarrow> Inr (None, w)))"

end
