(* ===== verification/Logger_Delivery.thy ===== *)
theory Logger_Delivery
  imports Async_Logger
begin

text \<open>
  What the logger as a whole delivers: every entry that passes the level filter reaches the file,
  once and in order, whatever the capacity of the buffers and however logging, flushing and
  the writer thread alternate, as long as the callers' strings live and the semaphore's count
  stays within its bound.
\<close>

section \<open>Writing a list of entries\<close>

definition line_of :: "'k logger_env \<Rightarrow> memory \<Rightarrow> LogEntry \<Rightarrow> string" where
  "line_of env m e = (case formatLogEntry (le_format env) m e of None \<Rightarrow> [] | Some s \<Rightarrow> s)"

definition readable :: "'k logger_env \<Rightarrow> memory \<Rightarrow> LogEntry \<Rightarrow> bool" where
  "readable env m e \<longleftrightarrow> formatLogEntry (le_format env) m e \<noteq> None"

lemma write_entries_list:
  "list_all (readable env m) es \<Longrightarrow>
     write_entries env m es fm os = Inr (snd (write_list (fm_write (le_host env)) (map (line_of env m) es) (fm, os)))"
proof (induction es arbitrary: fm os)
  case Nil
  then show ?case by simp
next
  case (Cons e es)
  then obtain s where "formatLogEntry (le_format env) m e = Some s" by (auto simp: readable_def)
  moreover obtain ok fm1 os1 where "Write (le_host env) s fm os = (ok, fm1, os1)" by (metis prod_cases3)
  ultimately show ?case using Cons by (simp add: line_of_def fm_write_pair split_def Let_def)
qed

lemma write_entries_content:
  assumes "fm_ready (fm, os)" "fm_content (fm, os) = Some c" "list_all (readable env m) es"
  shows "\<exists>fm' os'. write_entries env m es fm os = Inr (fm', os') \<and> fm_ready (fm', os') \<and>
     fm_content (fm', os') = Some (c @ text_bytes (le_host env) (concat (map (line_of env m) es)))"
proof -
  from sink.write_list_content [OF assms(1,2), of "le_host env" "map (line_of env m) es"] obtain s' where
    "write_list (fm_write (le_host env)) (map (line_of env m) es) (fm, os) = (replicate (length (map (line_of env m) es)) True, s')"
    "fm_ready s'" "fm_content s' = Some (c @ text_bytes (le_host env) (concat (map (line_of env m) es)))" by blast
  then show ?thesis using write_entries_list [OF assms(3)] by (cases s') simp
qed

lemma writeEntries_content:
  assumes "al_file al = Some fm" "fm_ready (fm, w_os w)" "fm_content (fm, w_os w) = Some c"
    "list_all (readable env (w_memory w)) es"
  shows "\<exists>fm' os'. writeEntries env es al w = Inr (al\<lparr>al_file := Some fm'\<rparr>, w\<lparr>w_os := os'\<rparr>) \<and> fm_ready (fm', os') \<and>
     fm_content (fm', os') = Some (c @ text_bytes (le_host env) (concat (map (line_of env (w_memory w)) es)))"
proof -
  from write_entries_content [OF assms(2-4)] obtain fm' os' where
    "write_entries env (w_memory w) es fm (w_os w) = Inr (fm', os')" "fm_ready (fm', os')"
    "fm_content (fm', os') = Some (c @ text_bytes (le_host env) (concat (map (line_of env (w_memory w)) es)))"
    by blast
  with assms(1) show ?thesis
    by (intro exI [of _ fm'] exI [of _ os']) (simp add: writeEntries_def)
qed

section \<open>The invariant\<close>

text \<open>
  \<open>parts\<close> names the components; \<open>logger_ok env n c0 acc\<close> says that of the entries \<open>acc\<close> accepted
  since the file held \<open>c0\<close>, a first part is in the file and the rest in the queue, that the
  fallback buffer is empty, and that \<open>n\<close> more calls stay within the bounds of the counters.
\<close>

definition parts :: "AsyncLogger \<Rightarrow> FileManager \<Rightarrow> LogEntry AsyncQueue \<Rightarrow> LogEntry RingBuffer \<Rightarrow> bool" where
  "parts al fm q b \<longleftrightarrow> al_file al = Some fm \<and> al_queue al = Some q \<and> al_ring al = Some b"

definition buffers_ok :: "'k logger_env \<Rightarrow> nat \<Rightarrow> LogEntry AsyncQueue \<Rightarrow> LogEntry RingBuffer \<Rightarrow> bool" where
  "buffers_ok env n q b \<longleftrightarrow> aq_inv q \<and> n \<le> aq_budget q \<and> rb_inv b \<and> n \<le> rb_budget b"

definition logger_ok ::
  "'k logger_env \<Rightarrow> nat \<Rightarrow> string \<Rightarrow> LogEntry list \<Rightarrow> AsyncLogger \<Rightarrow> 'k world \<Rightarrow> bool" where
  "logger_ok env n c0 acc al w \<longleftrightarrow> al_initialized al \<and> al_sem al + n \<le> le_sem_max env \<and>
     list_all (readable env (w_memory w)) acc \<and>
     (\<exists>fm q b written. parts al fm q b \<and> buffers_ok env n q b \<and> rb_contents b = [] \<and>
        fm_ready (fm, w_os w) \<and> acc = written @ aq_contents q \<and>
        fm_content (fm, w_os w) =
          Some (c0 @ text_bytes (le_host env) (concat (map (line_of env (w_memory w)) written))))"

lemma logger_okI:
  assumes "al_initialized al" "al_sem al + n \<le> le_sem_max env" "list_all (readable env (w_memory w)) acc"
    "parts al fm q b" "buffers_ok env n q b" "rb_contents b = []" "fm_ready (fm, w_os w)" "acc = written @ aq_contents q"
    "fm_content (fm, w_os w) = Some (c0 @ text_bytes (le_host env) (concat (map (line_of env (w_memory w)) written)))"
  shows "logger_ok env n c0 acc al w"
  using assms unfolding logger_ok_def by blast

lemma logger_okE:
  assumes "logger_ok env n c0 acc al w"
  obtains fm q b written where "al_initialized al" "al_sem al + n \<le> le_sem_max env"
    "list_all (readable env (w_memory w)) acc" "parts al fm q b" "buffers_ok env n q b" "rb_contents b = []"
    "fm_ready (fm, w_os w)" "acc = written @ aq_contents q"
    "fm_content (fm, w_os w) = Some (c0 @ text_bytes (le_host env) (concat (map (line_of env (w_memory w)) written)))"
  using assms unfolding logger_ok_def by blast

lemma buffers_ok_less: "buffers_ok env n q b \<Longrightarrow> n' \<le> n \<Longrightarrow> buffers_ok env n' q b"
  by (auto simp: buffers_ok_def)

lemma logger_ok_less:
  assumes "logger_ok env n c0 acc al w" "n' \<le> n"
  shows "logger_ok env n' c0 acc al w"
  using assms(1)
proof (rule logger_okE)
  fix fm q b written
  assume p: "al_initialized al" "al_sem al + n \<le> le_sem_max env"
    "list_all (readable env (w_memory w)) acc" "parts al fm q b" "buffers_ok env n q b" "rb_contents b = []"
    "fm_ready (fm, w_os w)" "acc = written @ aq_contents q"
    "fm_content (fm, w_os w) = Some (c0 @ text_bytes (le_host env) (concat (map (line_of env (w_memory w)) written)))"
  have "al_sem al + n' \<le> le_sem_max env" using p(2) assms(2) by simp
  from p(1) this p(3,4) buffers_ok_less [OF p(5) assms(2)] p(6-9) show ?thesis by (rule logger_okI)
qed

text \<open>A flush moves everything, the queue first, to the file.\<close>

lemma flush_moves:
  assumes p: "parts al fm q b" "buffers_ok env n q b" "fm_ready (fm, w_os w)" "fm_content (fm, w_os w) = Some c"
    and r: "list_all (readable env (w_memory w)) (aq_contents q @ rb_contents b)"
  shows "\<exists>fm' q' b' os'. al_flush env al w =
       Inr (al\<lparr>al_file := Some fm', al_queue := Some q', al_ring := Some b'\<rparr>, w\<lparr>w_os := os'\<rparr>) \<and>
     buffers_ok env n q' b' \<and> aq_contents q' = [] \<and> rb_contents b' = [] \<and> fm_ready (fm', os') \<and>
     aq_cap q' = aq_cap q \<and> rb_cap b' = rb_cap b \<and>
     fm_content (fm', os') = Some (c @ text_bytes (le_host env)
       (concat (map (line_of env (w_memory w)) (aq_contents q @ rb_contents b))))"
proof -
  from p have q: "aq_inv q" "n \<le> aq_budget q" and b: "rb_inv b" "n \<le> rb_budget b"
    and al: "al_file al = Some fm" "al_queue al = Some q" "al_ring al = Some b"
    by (simp_all add: parts_def buffers_ok_def)
  from aq.pop_all_drains [OF q(1)] obtain q' where
    q': "popAll q = Some (aq_contents q, q')" "aq_inv q'" "aq_contents q' = []" "aq_cap q' = aq_cap q"
      "aq_budget q' = aq_budget q" by blast
  from rb_pop_drains [OF b(1)] obtain b' where
    b': "rb_popAll b = (rb_contents b, b')" "rb_inv b'" "rb_contents b' = []" "rb_cap b' = rb_cap b"
      "rb_budget b' = rb_budget b" by blast
  let ?al = "al\<lparr>al_queue := Some q', al_ring := Some b'\<rparr>"
  from writeEntries_content [of ?al fm w c env "aq_contents q"] al p r obtain fm1 os1 where
    w1: "writeEntries env (aq_contents q) ?al w = Inr (?al\<lparr>al_file := Some fm1\<rparr>, w\<lparr>w_os := os1\<rparr>)"
      "fm_ready (fm1, os1)" "fm_content (fm1, os1) =
        Some (c @ text_bytes (le_host env) (concat (map (line_of env (w_memory w)) (aq_contents q))))"
    by auto
  from writeEntries_content [of "?al\<lparr>al_file := Some fm1\<rparr>" fm1 "w\<lparr>w_os := os1\<rparr>" _ env "rb_contents b"] w1(2,3) r
  obtain fm2 os2 where
    w2: "writeEntries env (rb_contents b) (?al\<lparr>al_file := Some fm1\<rparr>) (w\<lparr>w_os := os1\<rparr>) =
        Inr (?al\<lparr>al_file := Some fm2\<rparr>, w\<lparr>w_os := os2\<rparr>)" "fm_ready (fm2, os2)"
      "fm_content (fm2, os2) = Some ((c @ text_bytes (le_host env) (concat (map (line_of env (w_memory w)) (aq_contents q)))) @
        text_bytes (le_host env) (concat (map (line_of env (w_memory w)) (rb_contents b))))"
    by auto
  have "al_flush env al w = Inr (?al\<lparr>al_file := Some fm2\<rparr>, w\<lparr>w_os := os2\<rparr>)"
    using al q'(1) b'(1) w1(1) w2(1) by (simp add: al_flush_def pop_queue_def pop_ring_def)
  then show ?thesis using q b q' b' w2(2,3)
    by (intro exI [of _ fm2] exI [of _ q'] exI [of _ b'] exI [of _ os2])
      (simp add: buffers_ok_def text_bytes_append)
qed

lemma logger_ok_flush:
  assumes "logger_ok env n c0 acc al w"
  shows "\<exists>fm q b os. al_flush env al w = Inr (al\<lparr>al_file := Some fm, al_queue := Some q, al_ring := Some b\<rparr>, w\<lparr>w_os := os\<rparr>) \<and>
     logger_ok env n c0 acc (al\<lparr>al_file := Some fm, al_queue := Some q, al_ring := Some b\<rparr>) (w\<lparr>w_os := os\<rparr>) \<and>
     fm_ready (fm, os) \<and>
     fm_content (fm, os) = Some (c0 @ text_bytes (le_host env) (concat (map (line_of env (w_memory w)) acc)))"
proof -
  from assms obtain fm q b written where
    i: "al_initialized al" "al_sem al + n \<le> le_sem_max env" "list_all (readable env (w_memory w)) acc"
    and p: "parts al fm q b" "buffers_ok env n q b" "rb_contents b = []" "fm_ready (fm, w_os w)"
      "acc = written @ aq_contents q" "fm_content (fm, w_os w) =
          Some (c0 @ text_bytes (le_host env) (concat (map (line_of env (w_memory w)) written)))"
    by (rule logger_okE)
  have "list_all (readable env (w_memory w)) (aq_contents q @ rb_contents b)" using i(3) p(3,5) by simp
  from flush_moves [OF p(1,2,4,6) this] obtain fm' q' b' os' where
    f: "al_flush env al w = Inr (al\<lparr>al_file := Some fm', al_queue := Some q', al_ring := Some b'\<rparr>, w\<lparr>w_os := os'\<rparr>)"
      "buffers_ok env n q' b'" "aq_contents q' = []" "rb_contents b' = []" "fm_ready (fm', os')"
      "fm_content (fm', os') = Some ((c0 @ text_bytes (le_host env) (concat (map (line_of env (w_memory w)) written))) @
        text_bytes (le_host env) (concat (map (line_of env (w_memory w)) (aq_contents q @ rb_contents b))))"
    by blast
  have "fm_content (fm', os') = Some (c0 @ text_bytes (le_host env) (concat (map (line_of env (w_memory w)) acc)))"
    using f(6) p(3,5) by (simp add: text_bytes_append)
  moreover from this have "logger_ok env n c0 acc
      (al\<lparr>al_file := Some fm', al_queue := Some q', al_ring := Some b'\<rparr>) (w\<lparr>w_os := os'\<rparr>)"
    using i f(2-5) by (auto simp: logger_ok_def parts_def)
  ultimately show ?thesis using f(1,5) by blast
qed


section \<open>One call\<close>

lemma entry_readable:
  assumes "m tag \<noteq> None" "m message \<noteq> None"
  shows "readable env m (log_entry al m level tag message ts tid)"
  using assms by (auto simp: readable_def formatLogEntry_def log_entry_def LogEntry_ctor_def c_string_def view_of_def)

text \<open>When the queue is full the entry goes through the fallback buffer and everything is flushed.\<close>

lemma log_full:
  assumes ok: "logger_ok env (Suc n) c0 acc al w" and p: "parts al fm q b"
    and full: "\<not> length (aq_contents q) < aq_cap q"
    and r: "readable env (w_memory w) e" and pass: "shouldLog level (al_min_level al)"
    and e: "e = log_entry al (w_memory w) level tag message ts tid"
  shows "\<exists>al' w'. al_log env level tag message ts tid al w = Inr (al', w') \<and> w_memory w' = w_memory w \<and>
     al_min_level al' = al_min_level al \<and> al_process_id al' = al_process_id al \<and> al_writer al' = al_writer al \<and>
     logger_ok env n c0 (acc @ [e]) al' w'"
proof -
  from ok obtain fm2 q2 b2 written where
    i: "al_initialized al" "al_sem al + Suc n \<le> le_sem_max env" "list_all (readable env (w_memory w)) acc"
    and p2: "parts al fm2 q2 b2" "buffers_ok env (Suc n) q2 b2" "rb_contents b2 = []" "fm_ready (fm2, w_os w)"
      "acc = written @ aq_contents q2" "fm_content (fm2, w_os w) =
          Some (c0 @ text_bytes (le_host env) (concat (map (line_of env (w_memory w)) written)))"
    by (rule logger_okE)
  have same: "fm2 = fm" "q2 = q" "b2 = b" using p p2(1) by (simp_all add: parts_def)
  note p2 = p2 [unfolded same]
  have inv: "aq_inv q" "rb_inv b" "0 < rb_budget b" "Suc n \<le> rb_budget b" using p2(2) by (simp_all add: buffers_ok_def)
  have "length (rb_contents b) < rb_cap b" using p2(3) rb_invD(2) [OF inv(2)] by simp
  from rb_push_room [OF inv(2,3) this, of e] p2(3) obtain b1 where
    b1: "rb_tryPush e b = (True, b1)" "rb_inv b1" "rb_contents b1 = [e]" "rb_budget b \<le> Suc (rb_budget b1)" by auto
  have push: "tryPush_rvalue e q = Some (False, q)"
    using aq.push_full [OF inv(1) full] by (simp add: tryPush_rvalue_def)
  let ?al = "al\<lparr>al_queue := Some q, al_ring := Some b1\<rparr>"
  have log: "al_log env level tag message ts tid al w = al_flush env ?al w"
    using i(1) pass p push b1(1) by (simp add: al_log_def e [symmetric] parts_def)
  have "parts ?al fm q b1" using p by (simp add: parts_def)
  moreover have "buffers_ok env n q b1"
    using p2(2) b1(2,4) by (auto simp: buffers_ok_def)
  moreover have "list_all (readable env (w_memory w)) (aq_contents q @ rb_contents b1)"
    using i(3) p2(5) b1(3) r by simp
  ultimately obtain fm' q' b' os' where
    f: "al_flush env ?al w = Inr (?al\<lparr>al_file := Some fm', al_queue := Some q', al_ring := Some b'\<rparr>, w\<lparr>w_os := os'\<rparr>)"
      "buffers_ok env n q' b'" "aq_contents q' = []" "rb_contents b' = []" "fm_ready (fm', os')"
      "fm_content (fm', os') = Some ((c0 @ text_bytes (le_host env) (concat (map (line_of env (w_memory w)) written))) @
        text_bytes (le_host env) (concat (map (line_of env (w_memory w)) (aq_contents q @ rb_contents b1))))"
    using flush_moves [of ?al fm q b1 env n w] p2(4,6) by blast
  let ?al' = "?al\<lparr>al_file := Some fm', al_queue := Some q', al_ring := Some b'\<rparr>" and ?w' = "w\<lparr>w_os := os'\<rparr>"
  have "logger_ok env n c0 (acc @ [e]) ?al' ?w'"
  proof (rule logger_okI)
    show "parts ?al' fm' q' b'" by (simp add: parts_def)
    show "acc @ [e] = (acc @ [e]) @ aq_contents q'" using f(3) by simp
    show "fm_content (fm', w_os ?w') =
        Some (c0 @ text_bytes (le_host env) (concat (map (line_of env (w_memory ?w')) (acc @ [e]))))"
      using f(6) p2(5) b1(3) by (simp add: text_bytes_append)
  qed (use i f(2,4,5) r in simp_all)
  with log f(1) show ?thesis by auto
qed


lemma log_room:
  assumes ok: "logger_ok env (Suc n) c0 acc al w" and p: "parts al fm q b"
    and room: "length (aq_contents q) < aq_cap q"
    and r: "readable env (w_memory w) e" and pass: "shouldLog level (al_min_level al)"
    and e: "e = log_entry al (w_memory w) level tag message ts tid"
  shows "\<exists>al'. al_log env level tag message ts tid al w = Inr (al', w) \<and>
     al_min_level al' = al_min_level al \<and> al_process_id al' = al_process_id al \<and> al_writer al' = al_writer al \<and>
     logger_ok env n c0 (acc @ [e]) al' w"
proof -
  from ok obtain fm2 q2 b2 written where
    i: "al_initialized al" "al_sem al + Suc n \<le> le_sem_max env" "list_all (readable env (w_memory w)) acc"
    and p2: "parts al fm2 q2 b2" "buffers_ok env (Suc n) q2 b2" "rb_contents b2 = []" "fm_ready (fm2, w_os w)"
      "acc = written @ aq_contents q2" "fm_content (fm2, w_os w) =
          Some (c0 @ text_bytes (le_host env) (concat (map (line_of env (w_memory w)) written)))"
    by (rule logger_okE)
  have same: "fm2 = fm" "q2 = q" "b2 = b" using p p2(1) by (simp_all add: parts_def)
  note p2 = p2 [unfolded same]
  have inv: "aq_inv q" "0 < aq_budget q" "Suc n \<le> aq_budget q" using p2(2) by (simp_all add: buffers_ok_def)
  from aq.push_room [OF inv(1,2) room, of e] obtain q1 where
    q1: "tryPush e q = Some (True, q1)" "aq_inv q1" "aq_contents q1 = aq_contents q @ [e]"
      "aq_budget q \<le> Suc (aq_budget q1)" by blast
  let ?al = "al\<lparr>al_queue := Some q1, al_sem := al_sem al + 1\<rparr>"
  have "al_log env level tag message ts tid al w = Inr (?al, w)"
    using i(1,2) pass p q1(1)
    by (simp add: al_log_def e [symmetric] parts_def tryPush_rvalue_def sem_release_def)
  moreover have "logger_ok env n c0 (acc @ [e]) ?al w"
  proof (rule logger_okI)
    show "parts ?al fm q1 b" using p by (simp add: parts_def)
    show "buffers_ok env n q1 b" using p2(2) q1(2,4) by (auto simp: buffers_ok_def)
    show "acc @ [e] = written @ aq_contents q1" using p2(5) q1(3) by simp
  qed (use i r p2(3,4,6) in simp_all)
  ultimately show ?thesis by auto
qed

lemma logger_ok_parts: "logger_ok env n c0 acc al w \<Longrightarrow> \<exists>fm q b. parts al fm q b"
  unfolding logger_ok_def by blast

lemma log_ok:
  assumes ok: "logger_ok env (Suc n) c0 acc al w"
    and live: "w_memory w tag \<noteq> None" "w_memory w message \<noteq> None"
  shows "\<exists>al' w'. al_log env level tag message ts tid al w = Inr (al', w') \<and> w_memory w' = w_memory w \<and>
     al_min_level al' = al_min_level al \<and> al_process_id al' = al_process_id al \<and> al_writer al' = al_writer al \<and>
     logger_ok env n c0 (acc @ (if shouldLog level (al_min_level al)
        then [log_entry al (w_memory w) level tag message ts tid] else [])) al' w'"
proof (cases "shouldLog level (al_min_level al)")
  case False
  with logger_ok_less [OF ok, of n] show ?thesis by (simp add: al_log_def)
next
  case True
  let ?e = "log_entry al (w_memory w) level tag message ts tid"
  have r: "readable env (w_memory w) ?e" by (rule entry_readable [OF live])
  from logger_ok_parts [OF ok] obtain fm q b where p: "parts al fm q b" by blast
  show ?thesis
  proof (cases "length (aq_contents q) < aq_cap q")
    case room: True
    from log_room [OF ok p room r True refl] True show ?thesis by simp blast
  next
    case full: False
    from log_full [OF ok p full r True refl] True show ?thesis by simp
  qed
qed

section \<open>Any sequence of calls\<close>

text \<open>
  What threads do with a logger: log, set the level, flush, and the writer thread's passes; the
  string addresses are those of the callers' strings.
\<close>

datatype logger_event =
    E_log LogLevel nat nat int ThreadIdType
  | E_level LogLevel
  | E_flush
  | E_writer

fun exec_logger :: "'k logger_env \<Rightarrow> logger_event \<Rightarrow> AsyncLogger \<Rightarrow> 'k world \<Rightarrow> fault + AsyncLogger \<times> 'k world" where
  "exec_logger env (E_log level tag message ts tid) al w = al_log env level tag message ts tid al w"
| "exec_logger env (E_level level) al w = Inr (setLogLevel level al, w)"
| "exec_logger env E_flush al w = al_flush env al w"
| "exec_logger env E_writer al w = writerThread_step env al w"

fun run_logger :: "'k logger_env \<Rightarrow> logger_event list \<Rightarrow> AsyncLogger \<Rightarrow> 'k world \<Rightarrow> fault + AsyncLogger \<times> 'k world" where
  "run_logger env [] al w = Inr (al, w)"
| "run_logger env (ev # evs) al w =
     (case exec_logger env ev al w of Inl f \<Rightarrow> Inl f | Inr (al, w) \<Rightarrow> run_logger env evs al w)"

text \<open>The entries that pass the filter, in the order of their calls.\<close>

fun accepted :: "ProcessIdType \<Rightarrow> memory \<Rightarrow> LogLevel \<Rightarrow> logger_event list \<Rightarrow> LogEntry list" where
  "accepted pid m min_level [] = []"
| "accepted pid m min_level (E_log level tag message ts tid # evs) =
     (if shouldLog level min_level then [LogEntry_ctor level ts pid tid (view_of m tag) (view_of m message)] else []) @
       accepted pid m min_level evs"
| "accepted pid m min_level (E_level level # evs) = accepted pid m level evs"
| "accepted pid m min_level (E_flush # evs) = accepted pid m min_level evs"
| "accepted pid m min_level (E_writer # evs) = accepted pid m min_level evs"

fun live_event :: "memory \<Rightarrow> logger_event \<Rightarrow> bool" where
  "live_event m (E_log level tag message ts tid) \<longleftrightarrow> m tag \<noteq> None \<and> m message \<noteq> None"
| "live_event m _ \<longleftrightarrow> True"

lemma logger_ok_update:
  assumes "logger_ok env n c0 acc al w" "al_sem al' \<le> al_sem al" "al_initialized al' = al_initialized al"
    "al_file al' = al_file al" "al_queue al' = al_queue al" "al_ring al' = al_ring al"
  shows "logger_ok env n c0 acc al' w"
  using assms unfolding logger_ok_def parts_def by simp

lemma writer_step_ok:
  assumes ok: "logger_ok env n c0 acc al w"
  shows "\<exists>al' w'. writerThread_step env al w = Inr (al', w') \<and> w_memory w' = w_memory w \<and>
     al_min_level al' = al_min_level al \<and> al_process_id al' = al_process_id al \<and> al_stop al' = al_stop al \<and>
     logger_ok env n c0 acc al' w' \<and>
     (al_stop al \<longrightarrow> (al_writer al = W_check \<longrightarrow> al_writer al' = W_done) \<and>
        (al_writer al = W_acquire \<and> al_sem al > 0 \<longrightarrow> al_writer al' = W_woken) \<and>
        (al_writer al = W_woken \<longrightarrow> al_writer al' = W_done))"
proof (cases "al_writer al")
  case W_woken
  from logger_ok_flush [OF ok] obtain fm q b os where
    f: "al_flush env al w = Inr (al\<lparr>al_file := Some fm, al_queue := Some q, al_ring := Some b\<rparr>, w\<lparr>w_os := os\<rparr>)"
      "logger_ok env n c0 acc (al\<lparr>al_file := Some fm, al_queue := Some q, al_ring := Some b\<rparr>) (w\<lparr>w_os := os\<rparr>)" by blast
  have "logger_ok env n c0 acc (al\<lparr>al_file := Some fm, al_queue := Some q, al_ring := Some b,
      al_writer := if al_stop al then W_done else W_check\<rparr>) (w\<lparr>w_os := os\<rparr>)"
    by (rule logger_ok_update [OF f(2)]) simp_all
  with f(1) W_woken show ?thesis by (simp add: writerThread_step_def)
qed (use ok in \<open>auto simp: writerThread_step_def intro!: logger_ok_update [OF ok]\<close>)

text \<open>
  The abstract side of a call: the entries accepted so far and the minimum level. The logger stands
  in this relation to it as long as it satisfies the invariant.
\<close>

fun accept_event :: "ProcessIdType \<Rightarrow> memory \<Rightarrow> logger_event \<Rightarrow> LogEntry list \<times> LogLevel \<Rightarrow> LogEntry list \<times> LogLevel" where
  "accept_event pid m (E_log level tag message ts tid) (acc, l) =
     (if shouldLog level l then acc @ [LogEntry_ctor level ts pid tid (view_of m tag) (view_of m message)] else acc, l)"
| "accept_event pid m (E_level level) (acc, l) = (acc, level)"
| "accept_event pid m E_flush a = a"
| "accept_event pid m E_writer a = a"

lemma accept_events: "fst (fold (accept_event pid m) evs (acc, l)) = acc @ accepted pid m l evs"
proof (induction evs arbitrary: acc l)
  case (Cons ev evs)
  then show ?case by (cases ev) simp_all
qed simp

definition keeps_for ::
  "'k logger_env \<Rightarrow> string \<Rightarrow> ProcessIdType \<Rightarrow> memory \<Rightarrow> nat \<Rightarrow> AsyncLogger \<times> 'k world \<Rightarrow> LogEntry list \<times> LogLevel \<Rightarrow> bool" where
  "keeps_for env c0 pid m n s a \<longleftrightarrow>
     (case s of (al, w) \<Rightarrow> logger_ok env n c0 (fst a) al w \<and> w_memory w = m \<and> al_process_id al = pid \<and> al_min_level al = snd a)"

lemma exec_logger_ok:
  assumes "keeps_for env c0 pid m (Suc n) (al, w) a" "live_event m ev"
  shows "\<exists>s'. exec_logger env ev al w = Inr s' \<and> keeps_for env c0 pid m n s' (accept_event pid m ev a)"
proof -
  obtain acc l where a: "a = (acc, l)" by fastforce
  have ok: "logger_ok env (Suc n) c0 acc al w" and same: "w_memory w = m" "al_process_id al = pid" "al_min_level al = l"
    using assms(1) a by (simp_all add: keeps_for_def)
  note ok' = logger_ok_less [OF ok, of n, simplified]
  show ?thesis
  proof (cases ev)
    case (E_log level tag message ts tid)
    with assms(2) same have "w_memory w tag \<noteq> None" "w_memory w message \<noteq> None" by simp_all
    from log_ok [OF ok this, of level ts tid] E_log a same show ?thesis by (auto simp: keeps_for_def log_entry_def)
  next
    case (E_level level)
    have "logger_ok env n c0 acc (setLogLevel level al) w"
      by (rule logger_ok_update [OF ok']) (simp_all add: setLogLevel_def)
    with E_level a same show ?thesis by (simp add: keeps_for_def setLogLevel_def)
  next
    case E_flush
    from logger_ok_flush [OF ok'] E_flush a same show ?thesis by (auto simp: keeps_for_def)
  next
    case E_writer
    from writer_step_ok [OF ok'] E_writer a same show ?thesis by (auto simp: keeps_for_def)
  qed
qed

interpretation calls: budgeted_refinement
  "\<lambda>ev s. exec_logger env ev (fst s) (snd s)" "accept_event pid m" "keeps_for env c0 pid m" "live_event m"
  for env :: "'k logger_env" and c0 pid m
  by unfold_locales (metis exec_logger_ok prod.collapse)

lemma run_logger_all: "run_logger env evs al w = run_all (\<lambda>ev s. exec_logger env ev (fst s) (snd s)) evs (al, w)"
  by (induction evs arbitrary: al w) (auto split: sum.splits)

lemma run_logger_ok:
  assumes "logger_ok env (length evs + n) c0 acc al w" "list_all (live_event (w_memory w)) evs"
  shows "\<exists>al' w'. run_logger env evs al w = Inr (al', w') \<and> w_memory w' = w_memory w \<and>
     al_process_id al' = al_process_id al \<and>
     logger_ok env n c0 (acc @ accepted (al_process_id al) (w_memory w) (al_min_level al) evs) al' w'"
proof -
  have "keeps_for env c0 (al_process_id al) (w_memory w) (length evs + n) (al, w) (acc, al_min_level al)"
    using assms(1) by (simp add: keeps_for_def)
  from calls.run_related [OF this assms(2)] show ?thesis
    by (auto simp: run_logger_all keeps_for_def accept_events)
qed

section \<open>The end\<close>

lemma run_writer_done: "al_writer al = W_done \<Longrightarrow> run_writer n env al w = Inr (al, w)"
  by (cases n) simp_all

lemma run_writer_ok:
  assumes ok: "logger_ok env n c0 acc al w" and stop: "al_stop al"
    and some: "al_writer al \<noteq> W_none" "al_writer al = W_acquire \<longrightarrow> al_sem al > 0"
  shows "\<exists>al' w'. run_writer 3 env al w = Inr (al', w') \<and> w_memory w' = w_memory w \<and> logger_ok env n c0 acc al' w'"
proof -
  have one: "\<exists>al' w'. run_writer (Suc m) env al w = Inr (al', w') \<and> w_memory w' = w_memory w \<and> logger_ok env n c0 acc al' w'"
    if "logger_ok env n c0 acc al w" "al_stop al" "al_writer al = W_check \<or> al_writer al = W_woken \<or> al_writer al = W_done"
    for m al w
  proof (cases "al_writer al = W_done")
    case True
    then show ?thesis using that(1) by simp
  next
    case False
    from writer_step_ok [OF that(1)] that(2,3) False obtain al1 w1 where
      s: "writerThread_step env al w = Inr (al1, w1)" "w_memory w1 = w_memory w"
      "logger_ok env n c0 acc al1 w1" "al_writer al1 = W_done" by auto
    then have "run_writer (Suc m) env al w = Inr (al1, w1)" using False run_writer_done by simp
    with s show ?thesis by blast
  qed
  show ?thesis
  proof (cases "al_writer al = W_acquire")
    case True
    from writer_step_ok [OF ok] stop True some(2) obtain al1 w1 where
      s: "writerThread_step env al w = Inr (al1, w1)" "w_memory w1 = w_memory w"
      "logger_ok env n c0 acc al1 w1" "al_writer al1 = W_woken" "al_stop al1" by auto
    from one [OF s(3,5), of 1] s(4) obtain al2 w2 where
      "run_writer (Suc 1) env al1 w1 = Inr (al2, w2)" "w_memory w2 = w_memory w1" "logger_ok env n c0 acc al2 w2"
      by auto
    with s(1,2) True show ?thesis by (simp add: numeral_3_eq_3)
  next
    case False
    then have "al_writer al = W_check \<or> al_writer al = W_woken \<or> al_writer al = W_done"
      using some(1) by (cases "al_writer al") auto
    from one [OF ok stop this, of 2] show ?thesis by (simp add: numeral_3_eq_3 numeral_2_eq_2)
  qed
qed

lemma deinitialize_ok:
  assumes ok: "logger_ok env (Suc n) c0 acc al w"
  shows "\<exists>al' w' fm. deinitialize env al w = Inr (al', w') \<and> \<not> al_initialized al' \<and> al_file al' = Some fm \<and>
     fm_ready (fm, w_os w') \<and>
     fm_content (fm, w_os w') = Some (c0 @ text_bytes (le_host env) (concat (map (line_of env (w_memory w)) acc)))"
proof -
  have i: "al_initialized al" "al_sem al + Suc n \<le> le_sem_max env" using ok by (auto elim: logger_okE)
  let ?al = "al\<lparr>al_stop := True, al_sem := al_sem al + 1\<rparr>"
  have rel: "sem_release env (al\<lparr>al_stop := True\<rparr>) = Inr ?al" using i(2) by (simp add: sem_release_def)
  have ok1: "logger_ok env n c0 acc ?al w"
  proof -
    from ok obtain fm q b written where p: "al_initialized al" "al_sem al + Suc n \<le> le_sem_max env"
      "list_all (readable env (w_memory w)) acc" "parts al fm q b" "buffers_ok env (Suc n) q b" "rb_contents b = []"
      "fm_ready (fm, w_os w)" "acc = written @ aq_contents q"
      "fm_content (fm, w_os w) = Some (c0 @ text_bytes (le_host env) (concat (map (line_of env (w_memory w)) written)))"
      by (rule logger_okE)
    have "parts ?al fm q b" using p(4) by (simp add: parts_def)
    from logger_okI [OF _ _ p(3) this buffers_ok_less [OF p(5)] p(6-9), of n] p(1,2) show ?thesis by simp
  qed
  have "\<exists>al2 w2. join_writer env ?al w = Inr (al2, w2) \<and> w_memory w2 = w_memory w \<and> logger_ok env n c0 acc al2 w2"
  proof (cases "al_writer al = W_none")
    case True
    then show ?thesis using ok1 by (simp add: join_writer_def)
  next
    case False
    from run_writer_ok [OF ok1] False obtain al2 w2 where
      r: "run_writer 3 env ?al w = Inr (al2, w2)" "w_memory w2 = w_memory w" "logger_ok env n c0 acc al2 w2" by auto
    have "logger_ok env n c0 acc (al2\<lparr>al_writer := W_none\<rparr>) w2" by (rule logger_ok_update [OF r(3)]) simp_all
    with r(1,2) False show ?thesis by (simp add: join_writer_def)
  qed
  then obtain al2 w2 where j: "join_writer env ?al w = Inr (al2, w2)" "w_memory w2 = w_memory w" "logger_ok env n c0 acc al2 w2"
    by blast
  from logger_ok_flush [OF j(3)] obtain fm q b os where
    f: "al_flush env al2 w2 = Inr (al2\<lparr>al_file := Some fm, al_queue := Some q, al_ring := Some b\<rparr>, w2\<lparr>w_os := os\<rparr>)"
      "fm_ready (fm, os)"
      "fm_content (fm, os) = Some (c0 @ text_bytes (le_host env) (concat (map (line_of env (w_memory w2)) acc)))"
    by blast
  let ?al' = "al2\<lparr>al_file := Some fm, al_queue := Some q, al_ring := Some b, al_initialized := False\<rparr>"
  have "deinitialize env al w = Inr (?al', w2\<lparr>w_os := os\<rparr>)"
    using i(1) rel j(1) f(1) by (simp add: deinitialize_def)
  with f(2,3) j(2) show ?thesis
    by (intro exI [of _ ?al'] exI [of _ "w2\<lparr>w_os := os\<rparr>"] exI [of _ fm]) simp
qed

section \<open>From the first call to the last\<close>

text \<open>
  Whatever sequence of calls is run on a working logger and however small its buffers are, no
  call ends in a fault, and after \<open>deinitialize\<close> the file holds what it held before followed by
  the lines of the accepted entries in order. The properties of theory \<open>Logger_Faults\<close> rest on it.
\<close>

lemma logger_delivers_in_order:
  assumes "logger_ok env (length evs + 1) c0 [] al w" "list_all (live_event (w_memory w)) evs"
  shows "\<exists>al1 w1 al2 w2 fm. run_logger env evs al w = Inr (al1, w1) \<and> deinitialize env al1 w1 = Inr (al2, w2) \<and>
     \<not> al_initialized al2 \<and> al_file al2 = Some fm \<and>
     fm_content (fm, w_os w2) = Some (c0 @ text_bytes (le_host env)
       (concat (map (line_of env (w_memory w)) (accepted (al_process_id al) (w_memory w) (al_min_level al) evs))))"
proof -
  from run_logger_ok [OF assms] obtain al1 w1 where
    r: "run_logger env evs al w = Inr (al1, w1)" "w_memory w1 = w_memory w"
      "logger_ok env 1 c0 (accepted (al_process_id al) (w_memory w) (al_min_level al) evs) al1 w1" by auto
  from deinitialize_ok [of env 0] r(3) have "\<exists>al2 w2 fm. deinitialize env al1 w1 = Inr (al2, w2) \<and>
     \<not> al_initialized al2 \<and> al_file al2 = Some fm \<and>
     fm_content (fm, w_os w2) = Some (c0 @ text_bytes (le_host env)
       (concat (map (line_of env (w_memory w1)) (accepted (al_process_id al) (w_memory w) (al_min_level al) evs))))"
    by simp blast
  with r(1,2) show ?thesis by auto
qed

end
