(* ===== verification/Logger_Faults.thy ===== *)
theory Logger_Faults
  imports Logger_Delivery
begin

text \<open>
  The logger from its creation on: a created logger satisfies the invariant of theory
  \<open>Logger_Delivery\<close>, what the emergency flush saves, what a failed creation leaves behind, and
  the calls that do not do what the documentation says.
\<close>

section \<open>Creation\<close>

lemma fresh_queue:
  assumes "0 < unat cap" "unat cap < 2 ^ 62"
  shows "\<exists>q. AsyncQueue_ctor asserts cap = Some q \<and> aq_inv q \<and> aq_contents q = [] \<and> aq_cap q = unat cap \<and>
     2 ^ 63 \<le> aq_budget (q :: LogEntry AsyncQueue)"
proof -
  from AsyncQueue_ctor_ok [OF assms(1,2)] obtain q :: "LogEntry AsyncQueue" where
    q: "AsyncQueue_ctor asserts cap = Some q" "aq_inv q" "aq_contents q = []" "aq_cap q = unat cap"
    by blast
  then have "aq_tail q = 0" by (auto simp: AsyncQueue_ctor_def split: if_splits)
  with assms q(4) have "2 ^ 63 \<le> aq_budget q" by (simp add: aq_budget_def)
  with q show ?thesis by blast
qed

lemma fresh_ring:
  assumes "0 < unat cap" "unat cap < 2 ^ 62" "n < 2 ^ 63"
  shows "rb_inv (LogRing_ctor cap)" "rb_contents (LogRing_ctor cap) = []" "n \<le> rb_budget (LogRing_ctor cap)"
  using rb_ctor_ok [of cap LogEntry_default] assms by (simp_all add: LogRing_ctor_def)

text \<open>
  What creation needs of the system; the log file's directory may be missing, none of its parents may
  be a file, and on Windows the name has to survive its conversion.
\<close>

definition can_create :: "'k logger_env \<Rightarrow> string \<Rightarrow> 'k world \<Rightarrow> bool" where
  "can_create env base w \<longleftrightarrow> (\<exists>full. can_open (le_host env) (le_process_id env) base full (w_os w))"

lemma create_ok:
  assumes can: "can_create env base w" and cap: "0 < unat cap" "unat cap < 2 ^ 62"
    and n: "n < 2 ^ 63" "n \<le> le_sem_max env"
  shows "\<exists>al w' fm q. create env base cap w = Inr (Some al, w') \<and> w_memory w' = w_memory w \<and> al_file al = Some fm \<and>
     al_queue al = Some q \<and> aq_contents q = [] \<and> aq_cap q = unat cap \<and> 2 ^ 63 \<le> aq_budget q \<and>
     al_process_id al = le_process_id env \<and> al_min_level al = kLogLevelDebug \<and> al_writer al = W_check \<and> al_sem al = 0 \<and>
     al_ring al = Some (LogRing_ctor cap) \<and> \<not> al_stop al \<and>
     logger_ok env n (text_at (fm_name fm) (w_os w)) [] al w'"
proof -
  let ?h = "le_host env"
  let ?fm0 = "FileManager_ctor base"
  from can can_open_Initialize obtain fm os where
    i: "Initialize ?h (le_process_id env) ?fm0 (w_os w) = (Inr True, fm, os)" "fm_ready (fm, os)"
      "fm_content (fm, os) = Some (text_at (fm_name fm) (w_os w))"
    unfolding can_create_def by blast
  from fresh_queue [OF cap] obtain q :: "LogEntry AsyncQueue" where
    q: "AsyncQueue_ctor (le_asserts env) cap = Some q" "aq_inv q" "aq_contents q = []" "2 ^ 63 \<le> aq_budget q"
    "aq_cap q = unat cap" by blast
  note b = fresh_ring [OF cap n(1)]
  let ?al = "(AsyncLogger_ctor env)\<lparr>al_queue_size := cap, al_file := Some fm, al_queue := Some q,
      al_ring := Some (LogRing_ctor cap), al_crash_handler := True, al_writer := W_check, al_initialized := True\<rparr>"
  let ?w = "w\<lparr>w_os := os, w_crash := setFlushCallback (le_id env) (CrashHandler_ctor (host_platform ?h) (le_id env) (w_crash w))\<rparr>"
  have "create env base cap w = Inr (Some ?al, ?w)"
    using i(1) q(1)
    by (simp add: create_def al_initialize_def initializeComponents_def AsyncLogger_ctor_def Let_def)
  moreover have "logger_ok env n (text_at (fm_name fm) (w_os w)) [] ?al ?w"
  proof (rule logger_okI)
    show "parts ?al fm q (LogRing_ctor cap)" by (simp add: parts_def)
    show "buffers_ok env n q (LogRing_ctor cap)" using q b n(1) by (simp add: buffers_ok_def)
    show "[] = [] @ aq_contents q" using q(3) by simp
    show "fm_content (fm, w_os ?w) = Some (text_at (fm_name fm) (w_os w) @
        text_bytes ?h (concat (map (line_of env (w_memory ?w)) [])))"
      using i(3) by (simp add: text_bytes_nil)
  qed (use i(2) b(2) n(2) in \<open>simp_all add: AsyncLogger_ctor_def\<close>)
  ultimately show ?thesis using q(3-5)
    by (intro exI [of _ ?al] exI [of _ ?w] exI [of _ fm] exI [of _ q]) (simp add: AsyncLogger_ctor_def)
qed


text \<open>A concrete environment for the witnesses: macOS, two live strings, a semaphore that counts to 9.\<close>

definition sample_logger :: "sample_ipc logger_env" where
  "sample_logger = \<lparr>le_host = sample_host (Some MacOS), le_format = sample_env\<lparr>fe_platform := MacOS\<rparr>,
     le_process_id = 7, le_sem_max = 9, le_asserts = True, le_id = 0\<rparr>"

definition sample_world :: "sample_ipc world" where
  "sample_world = \<lparr>w_os = sample_os [] [''/w''], w_crash = crash_init, w_memory = sample_memory\<rparr>"

lemma sample_logger_simps [simp]:
  "le_host sample_logger = sample_host (Some MacOS)" "logger_env.le_process_id sample_logger = 7"
  "le_sem_max sample_logger = 9" "le_asserts sample_logger = True"
  "le_format sample_logger = sample_env\<lparr>fe_platform := MacOS\<rparr>"
  "w_memory sample_world = sample_memory"
  "w_os sample_world = sample_os [] [''/w'']"
  by (simp_all add: sample_logger_def sample_world_def)

lemma sample_base: "absolute_base (sample_host (Some MacOS)) ''/w'' ''/w/App'' = ''/w/App''"
  by (simp add: absolute_base_def is_absolute_def is_sep_def)

lemma sample_usable: "usable_base (Some MacOS) ''/w/App''"
  by (simp add: usable_base_def is_absolute_def is_sep_def filename_of_def last_part_def root_length_def root_name_length_def)

lemma sample_can_create: "can_create sample_logger ''/w/App'' sample_world"
proof -
  have "os_cwd (w_os sample_world) = Some ''/w''"
    by (simp add: sample_os_def)
  moreover have "\<forall>d \<in> set (ancestors (Some MacOS) (parent_path (Some MacOS) ''/w/App'')). \<not> is_file d (w_os sample_world)"
    by (simp add: is_file_def sample_os_def)
  moreover have "\<not> is_directory (GenerateFileName (sample_host (Some MacOS)) first
      ((FileManager_ctor ''/w/App'')\<lparr>fm_base_name := ''/w/App'', fm_process_id := 7\<rparr>)) (w_os sample_world)" for first
    by (simp add: GenerateFileName_def is_directory_def sample_os_def)
  ultimately show ?thesis
    unfolding can_create_def can_open_def Let_def sample_logger_simps sample_host_platform
    by (intro exI [of _ "''/w/App''"]) (simp add: sample_os_reliable sample_base sample_usable openable_posix)
qed

definition sample_events :: "logger_event list" where
  "sample_events = [E_log kLogLevelInfo 1 2 12345 (Std_thread_id 3), E_log kLogLevelError 2 1 12346 (Std_thread_id 3),
     E_writer, E_level kLogLevelError, E_log kLogLevelInfo 1 2 12347 (Std_thread_id 4), E_writer]"

definition sample_text :: string where
  "sample_text =
     ''[INFO] 1970-01-01 00:00:12.345 [7, 0x3] [Network]: Connected'' @ [CHR 0x0A] @
     ''[ERROR] 1970-01-01 00:00:12.346 [7, 0x3] [Connected]: Network'' @ [CHR 0x0A]"

lemma sample_accepted:
  "concat (map (line_of sample_logger sample_memory) (accepted 7 sample_memory kLogLevelDebug sample_events)) = sample_text"
  by (simp add: sample_events_def sample_text_def shouldLog_def level_int8_def level_defs line_of_def formatLogEntry_def
      format_line_def c_string_def view_of_def sample_defs levelToString_def format_thread_id_def pid_value_def
      format_timestamp_def quot_trunc_def rem_trunc_def decimal_eval)


text \<open>
  C17: a logger stays well formed: any single call or pass of the writer thread on a logger within
  its bounds returns without a fault and leaves a logger that satisfies the invariant again: its
  buffers are sound, the fallback buffer is empty, the file is open, and what was accepted is in
  the file or in the queue, in order, with the new entry at the end.
\<close>

theorem logger_stays_well_formed:
  assumes "logger_ok env (Suc n) c0 acc al w" "live_event (w_memory w) ev"
  shows "\<exists>al' w'. exec_logger env ev al w = Inr (al', w') \<and> w_memory w' = w_memory w \<and>
     logger_ok env n c0 (acc @ accepted (al_process_id al) (w_memory w) (al_min_level al) [ev]) al' w'"
proof -
  have "logger_ok env (length [ev] + n) c0 acc al w" "list_all (live_event (w_memory w)) [ev]" using assms by simp_all
  from run_logger_ok [OF this] show ?thesis by (auto split: sum.splits)
qed

section \<open>Strings that do not live long enough\<close>

lemma write_entries_unreadable:
  "\<not> list_all (readable env m) es \<Longrightarrow> write_entries env m es fm os = Inl Undefined"
proof (induction es arbitrary: fm os)
  case (Cons e es)
  show ?case
  proof (cases "formatLogEntry (le_format env) m e")
    case (Some s)
    obtain ok fm1 os1 where "Write (le_host env) s fm os = (ok, fm1, os1)" by (metis prod_cases3)
    then show ?thesis using Cons Some by (simp add: readable_def)
  qed simp
qed simp

lemma flush_unreadable:
  assumes "parts al fm q b" "aq_inv q" "\<not> list_all (readable env (w_memory w)) (aq_contents q)"
  shows "al_flush env al w = Inl Undefined"
proof -
  from aq.pop_all_drains [OF assms(2)] obtain q' where "popAll q = Some (aq_contents q, q')" by blast
  moreover obtain es b' where "rb_popAll b = (es, b')" by fastforce
  ultimately show ?thesis
    using assms(1) write_entries_unreadable [OF assms(3)]
    by (simp add: al_flush_def pop_queue_def pop_ring_def writeEntries_def parts_def)
qed

text \<open>The room in the queue, as the logger holds it.\<close>

definition queue_has_room :: "AsyncLogger \<Rightarrow> bool" where
  "queue_has_room al = (case al_queue al of None \<Rightarrow> False | Some q \<Rightarrow> length (aq_contents q) < aq_cap q)"

lemma log_into_queue:
  assumes "al_initialized al" "shouldLog level (al_min_level al)" "al_sem al < le_sem_max env"
    and "al_queue al = Some q" "aq_inv q" "0 < aq_budget q" "length (aq_contents q) < aq_cap q"
  shows "\<exists>q'. al_log env level tag message ts tid al w = Inr (al\<lparr>al_queue := Some q', al_sem := al_sem al + 1\<rparr>, w) \<and>
     aq_inv q' \<and> aq_contents q' = aq_contents q @ [log_entry al (w_memory w) level tag message ts tid] \<and>
     aq_cap q' = aq_cap q \<and> aq_budget q \<le> Suc (aq_budget q')"
proof -
  from aq.push_room [OF assms(5-7), of "log_entry al (w_memory w) level tag message ts tid"] obtain q' where
    "tryPush (log_entry al (w_memory w) level tag message ts tid) q = Some (True, q')" "aq_inv q'"
    "aq_contents q' = aq_contents q @ [log_entry al (w_memory w) level tag message ts tid]"
    "aq_cap q' = aq_cap q" "aq_budget q \<le> Suc (aq_budget q')" by blast
  then show ?thesis using assms(1-4)
    by (intro exI [of _ q']) (simp add: al_log_def Let_def tryPush_rvalue_def sem_release_def)
qed

text \<open>
  C32: the entry only refers to the caller's strings. A log call with a temporary message returns
  normally, and once the message has been destroyed the next flush, by whoever makes it, and so
  the next pass of the writer thread, reads freed memory: undefined behaviour.
\<close>

theorem temporary_message_dangles:
  assumes "logger_ok env 1 c0 acc al w" "shouldLog level (al_min_level al)" "queue_has_room al"
  shows "\<exists>al'. al_log env level tag message ts tid al w = Inr (al', w) \<and>
     (let w' = w\<lparr>w_memory := (w_memory w)(message := None)\<rparr>
      in al_flush env al' w' = Inl Undefined \<and>
         writerThread_step env (al'\<lparr>al_writer := W_woken\<rparr>) w' = Inl Undefined)"
proof -
  let ?e = "log_entry al (w_memory w) level tag message ts tid"
  from assms(1) obtain fm q b where i: "al_initialized al" "al_sem al < le_sem_max env" "parts al fm q b"
    "aq_inv q" "0 < aq_budget q" by (auto simp: buffers_ok_def elim: logger_okE)
  have q: "al_queue al = Some q" "length (aq_contents q) < aq_cap q"
    using i(3) assms(3) by (simp_all add: parts_def queue_has_room_def)
  from log_into_queue [OF i(1) assms(2) i(2) q(1) i(4,5) q(2)] obtain q' where
    l: "al_log env level tag message ts tid al w = Inr (al\<lparr>al_queue := Some q', al_sem := al_sem al + 1\<rparr>, w)"
      "aq_inv q'" "aq_contents q' = aq_contents q @ [?e]" by blast
  let ?al = "al\<lparr>al_queue := Some q', al_sem := al_sem al + 1\<rparr>"
  let ?w = "w\<lparr>w_memory := (w_memory w)(message := None)\<rparr>"
  have bad: "\<not> list_all (readable env (w_memory ?w)) (aq_contents q')"
    using l(3) by (auto simp: readable_def formatLogEntry_def log_entry_def LogEntry_ctor_def c_string_def
        view_of_def split: option.splits)
  have "parts ?al fm q' b" "parts (?al\<lparr>al_writer := W_woken\<rparr>) fm q' b" using i(3) by (simp_all add: parts_def)
  with flush_unreadable [OF _ l(2) bad] have "al_flush env ?al ?w = Inl Undefined"
    "al_flush env (?al\<lparr>al_writer := W_woken\<rparr>) ?w = Inl Undefined" by blast+
  then show ?thesis using l(1) by (simp add: writerThread_step_def)
qed

lemma sample_created:
  assumes "0 < unat cap" "unat cap < 2 ^ 62" "n \<le> 9"
  shows "\<exists>al w fm q. create sample_logger ''/w/App'' cap sample_world = Inr (Some al, w) \<and> w_memory w = sample_memory \<and>
     al_file al = Some fm \<and> al_queue al = Some q \<and> aq_contents q = [] \<and> aq_cap q = unat cap \<and>
     al_min_level al = kLogLevelDebug \<and> logger_ok sample_logger n [] [] al w"
proof -
  have none: "text_at p (w_os sample_world) = []" for p by (simp add: text_at_def file_content_def sample_os_def)
  have "n < 2 ^ 63" "n \<le> le_sem_max sample_logger" using assms(3) by simp_all
  from create_ok [OF sample_can_create assms(1,2) this] show ?thesis unfolding none by auto
qed

theorem logger_stays_well_formed_witness:
  "\<exists>al w al' w'. create sample_logger ''/w/App'' 1 sample_world = Inr (Some al, w) \<and>
     exec_logger sample_logger (E_log kLogLevelError 1 2 0 (Std_thread_id 3)) al w = Inr (al', w') \<and>
     logger_ok sample_logger 4 [] (accepted (al_process_id al) sample_memory kLogLevelDebug
       [E_log kLogLevelError 1 2 0 (Std_thread_id 3)]) al' w'"
proof -
  from sample_created [of 1 "Suc 4"] obtain al w where
    c: "create sample_logger ''/w/App'' 1 sample_world = Inr (Some al, w)" "w_memory w = sample_memory"
      "al_min_level al = kLogLevelDebug" "logger_ok sample_logger (Suc 4) [] [] al w" by auto
  have "live_event (w_memory w) (E_log kLogLevelError 1 2 0 (Std_thread_id 3))" using c(2) by (simp add: sample_memory_def)
  from logger_stays_well_formed [OF c(4) this] c(1) show ?thesis unfolding c(2,3) append_Nil by blast
qed

theorem temporary_message_dangles_witness:
  "\<exists>al w al'. create sample_logger ''/w/App'' 8 sample_world = Inr (Some al, w) \<and>
     al_log sample_logger kLogLevelInfo 1 2 12345 (Std_thread_id 3) al w = Inr (al', w) \<and>
     al_flush sample_logger al' (w\<lparr>w_memory := (w_memory w)(2 := None)\<rparr>) = Inl Undefined"
proof -
  from sample_created [of 8 1] obtain al w q where
    c: "create sample_logger ''/w/App'' 8 sample_world = Inr (Some al, w)" "al_queue al = Some q"
      "aq_contents q = []" "aq_cap q = 8" "al_min_level al = kLogLevelDebug" "logger_ok sample_logger 1 [] [] al w" by auto
  have "shouldLog kLogLevelInfo (al_min_level al)" "queue_has_room al"
    using c(2-5) by (simp_all add: shouldLog_def level_int8_def level_defs queue_has_room_def)
  from temporary_message_dangles [OF c(6) this] c(1) show ?thesis unfolding Let_def by blast
qed

section \<open>The semaphore\<close>

lemma burst_overflows:
  assumes "al_initialized al" "shouldLog level (al_min_level al)" "al_queue al = Some q" "aq_inv q" "Suc n \<le> aq_budget q"
    and "length (aq_contents q) + Suc n \<le> aq_cap q" "al_sem al + n = le_sem_max env"
  shows "run_logger env (replicate (Suc n) (E_log level tag message ts tid)) al w = Inl Undefined"
  using assms
proof (induction n arbitrary: al q)
  case 0
  from aq.push_room [of q "log_entry al (w_memory w) level tag message ts tid"] 0 obtain q' where
    "tryPush (log_entry al (w_memory w) level tag message ts tid) q = Some (True, q')" by auto
  then show ?case using 0 by (simp add: al_log_def Let_def tryPush_rvalue_def sem_release_def)
next
  case (Suc n)
  have "al_sem al < le_sem_max env" "0 < aq_budget q" "length (aq_contents q) < aq_cap q" using Suc.prems by simp_all
  from log_into_queue [OF Suc.prems(1,2) this(1) Suc.prems(3,4) this(2,3)] obtain q' where
    l: "al_log env level tag message ts tid al w = Inr (al\<lparr>al_queue := Some q', al_sem := al_sem al + 1\<rparr>, w)"
      "aq_inv q'" "aq_contents q' = aq_contents q @ [log_entry al (w_memory w) level tag message ts tid]"
      "aq_cap q' = aq_cap q" "aq_budget q \<le> Suc (aq_budget q')" by blast
  let ?al = "al\<lparr>al_queue := Some q', al_sem := al_sem al + 1\<rparr>"
  have "run_logger env (replicate (Suc n) (E_log level tag message ts tid)) ?al w = Inl Undefined"
    using Suc.prems l(2-5) by (intro Suc.IH [of ?al q']) simp_all
  then show ?case using l(1) by simp
qed

text \<open>
  C33: \<open>log\<close> releases the semaphore once per entry, and it was declared to count to 1: in a
  logger whose queue has more room than the semaphore counts, one log call more than the
  library's largest count (with the documented minimum, the second call) before the writer
  thread has acquired it is undefined behaviour.
\<close>

theorem log_burst_overflows_semaphore:
  assumes "can_create env base w" "le_sem_max env < unat cap" "unat cap < 2 ^ 62" "shouldLog level kLogLevelDebug"
  shows "\<exists>al w1. create env base cap w = Inr (Some al, w1) \<and>
     run_logger env (replicate (Suc (le_sem_max env)) (E_log level tag message ts tid)) al w1 = Inl Undefined"
proof -
  have cap: "0 < unat cap" and n: "le_sem_max env < 2 ^ 63" using assms(2,3) by simp_all
  from create_ok [OF assms(1) cap assms(3) n order_refl] obtain al w1 q where
    c: "create env base cap w = Inr (Some al, w1)" "al_queue al = Some q" "aq_contents q = []" "aq_cap q = unat cap"
      "2 ^ 63 \<le> aq_budget q" "al_min_level al = kLogLevelDebug" "al_sem al = 0"
      "\<exists>c0. logger_ok env (le_sem_max env) c0 [] al w1" by blast
  have i: "al_initialized al" "aq_inv q" using c(2,8) by (auto simp: parts_def buffers_ok_def elim: logger_okE)
  have "Suc (le_sem_max env) \<le> aq_budget q" using c(5) n by simp
  moreover have "shouldLog level (al_min_level al)" "length (aq_contents q) + Suc (le_sem_max env) \<le> aq_cap q"
    "al_sem al + le_sem_max env = le_sem_max env"
    using c(3,4,6,7) assms(2,4) by simp_all
  ultimately have "run_logger env (replicate (Suc (le_sem_max env)) (E_log level tag message ts tid)) al w1 = Inl Undefined"
    using i c(2) by (intro burst_overflows)
  with c(1) show ?thesis by blast
qed

theorem log_burst_overflows_semaphore_witness:
  "\<exists>al w1. create (sample_logger\<lparr>le_sem_max := 1\<rparr>) ''/w/App'' 8 sample_world = Inr (Some al, w1) \<and>
     run_logger (sample_logger\<lparr>le_sem_max := 1\<rparr>)
       [E_log kLogLevelInfo 1 2 12345 (Std_thread_id 3), E_log kLogLevelInfo 1 2 12345 (Std_thread_id 3)] al w1 = Inl Undefined"
proof -
  let ?env = "sample_logger\<lparr>le_sem_max := 1\<rparr>"
  have 1: "can_create ?env ''/w/App'' sample_world" using sample_can_create by (simp add: can_create_def)
  have 2: "le_sem_max ?env < unat (8 :: size_t)" "unat (8 :: size_t) < 2 ^ 62" "shouldLog kLogLevelInfo kLogLevelDebug"
    by (simp_all add: shouldLog_def level_int8_def level_defs)
  from log_burst_overflows_semaphore [OF 1 2, of 1 2 12345 "Std_thread_id 3"] show ?thesis by (simp add: numeral_2_eq_2)
qed

section \<open>The emergency flush\<close>

lemma emergency_flush_ok:
  assumes "logger_ok env n c0 acc al w"
  shows "\<exists>al' w' fm f text. al_emergencyFlush env al w = Inr (al', w') \<and> al_file al' = Some fm \<and> fm_file fm = Some f \<and>
     text = c0 @ text_bytes (le_host env) (concat (map (line_of env (w_memory w)) acc)) \<and>
     file_content (f_path f) (w_os w') = Some text \<and>
     (on_windows (le_host env) \<or> os_durable (w_os w') (f_path f) = length text)"
proof -
  from assms obtain fm q b written where
    i: "list_all (readable env (w_memory w)) acc" "parts al fm q b" "buffers_ok env n q b" "rb_contents b = []"
      "fm_ready (fm, w_os w)" "acc = written @ aq_contents q" "fm_content (fm, w_os w) =
          Some (c0 @ text_bytes (le_host env) (concat (map (line_of env (w_memory w)) written)))"
    by (rule logger_okE)
  let ?text = "c0 @ text_bytes (le_host env) (concat (map (line_of env (w_memory w)) acc))"
  have al: "al_file al = Some fm" "al_queue al = Some q" "al_ring al = Some b" using i(2) by (simp_all add: parts_def)
  from aq.pop_all_drains [of q] i(3) obtain q' where q': "popAll q = Some (aq_contents q, q')"
    by (auto simp: buffers_ok_def)
  from rb_pop_drains [of b] i(3,4) obtain b' where b': "rb_popAll b = ([], b')" by (auto simp: buffers_ok_def)
  let ?al = "al\<lparr>al_queue := Some q'\<rparr>"
  from writeEntries_content [of ?al fm w _ env "aq_contents q"] al(1) i(1,5,6,7) obtain fm1 os1 where
    w1: "writeEntries env (aq_contents q) ?al w = Inr (?al\<lparr>al_file := Some fm1\<rparr>, w\<lparr>w_os := os1\<rparr>)"
      "fm_ready (fm1, os1)" "fm_content (fm1, os1) = Some ?text"
    by (auto simp: text_bytes_append)
  obtain ok fm2 os2 where fl: "Flush (le_host env) fm1 os1 = (ok, fm2, os2)" by (metis prod_cases3)
  note F = Flush_total [OF w1(3) fl]
  have disk: "fm_on_disk (fm2, os2) = Some ?text"
    "\<not> on_windows (le_host env) \<longrightarrow> (\<forall>f. fm_file fm2 = Some f \<longrightarrow> os_durable os2 (f_path f) = length ?text)"
    using F w1(2) by simp_all
  then obtain f where f: "fm_file fm2 = Some f" "file_content (f_path f) os2 = Some ?text"
    by (auto simp: fm_on_disk_def split: option.splits)
  let ?al' = "al\<lparr>al_queue := Some q', al_ring := Some b', al_file := Some fm2\<rparr>"
  have "al_emergencyFlush env al w = Inr (?al', w\<lparr>w_os := os2\<rparr>)"
    using al q' b' w1(1) fl by (simp add: al_emergencyFlush_def pop_queue_def pop_ring_def writeEntries_def)
  with f disk(2) show ?thesis
    by (intro exI [of _ ?al'] exI [of _ "w\<lparr>w_os := os2\<rparr>"] exI [of _ fm2] exI [of _ f] exI [of _ ?text]) auto
qed



section \<open>The end, twice\<close>

text \<open>
  C16: \<open>deinitialize\<close> always comes to its end on a working logger, wherever the writer thread
  stands: neither the thread nor the join nor the last flush waits for ever, and a second call
  finds nothing to do.
\<close>

theorem deinitialize_terminates:
  assumes "logger_ok env 1 c0 acc al w"
  shows "\<exists>al' w'. deinitialize env al w = Inr (al', w') \<and> \<not> al_initialized al' \<and> deinitialize env al' w' = Inr (al', w')"
proof -
  from assms have "logger_ok env (Suc 0) c0 acc al w" by simp
  from deinitialize_ok [OF this] obtain al' w' where "deinitialize env al w = Inr (al', w')" "\<not> al_initialized al'"
    by blast
  then show ?thesis by (simp add: deinitialize_def [of env al'])
qed

theorem deinitialize_terminates_witness:
  "\<exists>al w al' w'. create sample_logger ''/w/App'' 8 sample_world = Inr (Some al, w) \<and>
     deinitialize sample_logger al w = Inr (al', w') \<and> deinitialize sample_logger al' w' = Inr (al', w')"
proof -
  from sample_created [of 8 1] obtain al w where
    c: "create sample_logger ''/w/App'' 8 sample_world = Inr (Some al, w)" "logger_ok sample_logger 1 [] [] al w" by auto
  from deinitialize_terminates [OF c(2)] c(1) show ?thesis by blast
qed

section \<open>The log file never changes\<close>

definition log_path :: "AsyncLogger \<Rightarrow> (string \<times> string option) option" where
  "log_path al = map_option (\<lambda>fm. (fm_name fm, map_option f_path (fm_file fm))) (al_file al)"

lemma log_path_update [simp]:
  "log_path (al\<lparr>al_queue := q\<rparr>) = log_path al" "log_path (al\<lparr>al_ring := b\<rparr>) = log_path al"
  "log_path (al\<lparr>al_sem := n\<rparr>) = log_path al" "log_path (al\<lparr>al_stop := s\<rparr>) = log_path al"
  "log_path (al\<lparr>al_writer := t\<rparr>) = log_path al" "log_path (al\<lparr>al_min_level := l\<rparr>) = log_path al"
  "log_path (al\<lparr>al_initialized := i\<rparr>) = log_path al"
  by (simp_all add: log_path_def)

lemma fwrite_path: "f_path (fst (snd (fwrite h d f os))) = f_path f"
  by (simp add: fwrite_def Let_def split_def)

lemma fflush_path: "f_path (fst (snd (fflush f os))) = f_path f"
  by (simp add: fflush_def Let_def split_def)

lemma FlushToFile_path: "f_path (fst (snd (FlushToFile h f os))) = f_path f"
  using fflush_path [of f os] by (auto simp: FlushToFile_def split: prod.splits bool.splits)

lemma Write_path:
  assumes "Write h d fm os = (ok, fm', os')"
  shows "fm_name fm' = fm_name fm \<and> map_option f_path (fm_file fm') = map_option f_path (fm_file fm)"
proof (cases "fm_file fm")
  case (Some f)
  obtain n f1 os1 where w: "fwrite h d f os = (n, f1, os1)" by (metis prod_cases3)
  obtain b f2 os2 where fl: "FlushToFile h f1 os1 = (b, f2, os2)" by (metis prod_cases3)
  have "f_path f1 = f_path f" "f_path f2 = f_path f1"
    using fwrite_path [of h d f os] FlushToFile_path [of h f1 os1] w fl by simp_all
  with assms Some w fl show ?thesis by (simp add: Write_def Let_def split: if_splits) force+
qed (use assms in \<open>simp add: Write_def\<close>)

lemma write_entries_path:
  "write_entries env m es fm os = Inr (fm', os') \<Longrightarrow>
     fm_name fm' = fm_name fm \<and> map_option f_path (fm_file fm') = map_option f_path (fm_file fm)"
proof (induction es arbitrary: fm os)
  case (Cons e es)
  from Cons.prems obtain s where s: "formatLogEntry (le_format env) m e = Some s" by (auto split: option.splits)
  obtain ok fm1 os1 where w: "Write (le_host env) s fm os = (ok, fm1, os1)" by (metis prod_cases3)
  from Cons.IH [of fm1 os1] Cons.prems Write_path [OF w] s w show ?case by simp
qed simp

lemma writeEntries_path: "writeEntries env es al w = Inr (al', w') \<Longrightarrow> log_path al' = log_path al"
  by (auto simp: writeEntries_def log_path_def dest!: write_entries_path split: option.splits sum.splits prod.splits)

lemma flush_path: "al_flush env al w = Inr (al', w') \<Longrightarrow> log_path al' = log_path al"
  by (auto simp: al_flush_def pop_queue_def pop_ring_def dest!: writeEntries_path
      split: option.splits sum.splits prod.splits)

lemma log_path_kept: "al_log env level tag message ts tid al w = Inr (al', w') \<Longrightarrow> log_path al' = log_path al"
  by (auto simp: al_log_def sem_release_def Let_def dest!: flush_path
      split: if_splits option.splits sum.splits prod.splits bool.splits)

lemma writer_path: "writerThread_step env al w = Inr (al', w') \<Longrightarrow> log_path al' = log_path al"
  by (auto simp: writerThread_step_def dest!: flush_path split: writer.splits sum.splits prod.splits)

lemma run_writer_path: "run_writer n env al w = Inr (al', w') \<Longrightarrow> log_path al' = log_path al"
proof (induction n arbitrary: al w)
  case (Suc n)
  then show ?case by (auto dest!: writer_path split: if_splits sum.splits prod.splits)
qed (simp split: if_splits)

lemma deinitialize_path: "deinitialize env al w = Inr (al', w') \<Longrightarrow> log_path al' = log_path al"
  by (auto simp: deinitialize_def sem_release_def join_writer_def dest!: flush_path run_writer_path
      split: if_splits sum.splits prod.splits)

lemma run_logger_path: "run_logger env evs al w = Inr (al', w') \<Longrightarrow> log_path al' = log_path al"
proof (induction evs arbitrary: al w)
  case (Cons ev evs)
  from Cons.prems obtain al1 w1 where
    e: "exec_logger env ev al w = Inr (al1, w1)" "run_logger env evs al1 w1 = Inr (al', w')"
    by (auto split: sum.splits)
  have "log_path al1 = log_path al"
    using e(1) by (cases ev) (auto simp: setLogLevel_def dest: log_path_kept flush_path writer_path)
  with Cons.IH [OF e(2)] show ?case by simp
qed simp

text \<open>
  The logger never rotates, whatever size limit its file manager has: through any calls and the
  deinitialization after them it writes to the one file it opened, under the same name, and that
  file holds everything ever accepted, so it grows without bound.
\<close>

theorem logger_never_rotates:
  assumes "logger_ok env (length evs + 1) c0 [] al w" "list_all (live_event (w_memory w)) evs" "al_file al = Some fm"
  shows "\<exists>al1 w1 al2 w2 fm2. run_logger env evs al w = Inr (al1, w1) \<and> deinitialize env al1 w1 = Inr (al2, w2) \<and>
     al_file al2 = Some fm2 \<and> GetLogFileName fm2 = GetLogFileName fm \<and>
     map_option f_path (fm_file fm2) = map_option f_path (fm_file fm) \<and>
     fm_content (fm2, w_os w2) = Some (c0 @ text_bytes (le_host env)
       (concat (map (line_of env (w_memory w)) (accepted (al_process_id al) (w_memory w) (al_min_level al) evs))))"
proof -
  from logger_delivers_in_order [OF assms(1,2)] obtain al1 w1 al2 w2 fm2 where
    r: "run_logger env evs al w = Inr (al1, w1)"
    and d: "deinitialize env al1 w1 = Inr (al2, w2)" "al_file al2 = Some fm2" "fm_content (fm2, w_os w2) =
       Some (c0 @ text_bytes (le_host env) (concat (map (line_of env (w_memory w))
         (accepted (al_process_id al) (w_memory w) (al_min_level al) evs))))" by blast
  have "log_path al2 = log_path al" using run_logger_path [OF r] deinitialize_path [OF d(1)] by simp
  with assms(3) d(2) have "GetLogFileName fm2 = GetLogFileName fm"
    "map_option f_path (fm_file fm2) = map_option f_path (fm_file fm)"
    by (simp_all add: log_path_def GetLogFileName_def)
  with r d show ?thesis by blast
qed

theorem logger_never_rotates_witness:
  "\<exists>al w fm al1 w1 al2 w2 fm2. create sample_logger ''/w/App'' 1 sample_world = Inr (Some al, w) \<and> al_file al = Some fm \<and>
     run_logger sample_logger sample_events al w = Inr (al1, w1) \<and>
     deinitialize sample_logger al1 w1 = Inr (al2, w2) \<and> al_file al2 = Some fm2 \<and>
     GetLogFileName fm2 = GetLogFileName fm"
proof -
  from sample_created [of 1 "length sample_events + 1"] obtain al w fm where
    c: "create sample_logger ''/w/App'' 1 sample_world = Inr (Some al, w)" "w_memory w = sample_memory" "al_file al = Some fm"
      "logger_ok sample_logger (length sample_events + 1) [] [] al w" by (auto simp: sample_events_def)
  have "list_all (live_event (w_memory w)) sample_events" using c(2) by (simp add: sample_events_def sample_memory_def)
  from logger_never_rotates [OF c(4) this c(3)] c(1,3) show ?thesis by blast
qed

end
