(* ===== verification/Logger_Threads.thy ===== *)
theory Logger_Threads
  imports Logger_Faults
begin

text \<open>
  The logger under concurrency: the methods of \<open>async_logger.cpp\<close> broken into the accesses to the
  buffers, the semaphore and the file, with any number of threads interleaved in any order. Thread
  0 is the writer thread, the others call the logger. The accesses to a buffer are single steps
  here; theories \<open>Mpsc\<close> and \<open>Ring_Race\<close> look inside them.

  Theory \<open>Logger_Spec\<close> says what the logger is meant to be at this level, an abstract machine over plain
  lists; theory \<open>Threads_Refine\<close> shows that the detailed steps implement it.
\<close>

section \<open>Program counters\<close>

text \<open>Where a flush was called from, which decides what comes after it.\<close>

datatype flush_caller = By_client | By_writer | By_writer_last | By_deinitialize

datatype thread_pc =
    T_idle
  | T_push LogEntry                        \<comment> \<open>in \<open>log\<close>, about to push into the queue\<close>
  | T_release                              \<comment> \<open>in \<open>log\<close>, about to wake the writer\<close>
  | T_ring LogEntry                        \<comment> \<open>in \<open>log\<close>, about to push into the fallback buffer\<close>
  | T_pop_queue flush_caller               \<comment> \<open>at the beginning of \<open>flush\<close>\<close>
  | T_pop_ring flush_caller "LogEntry list"
  | T_write flush_caller "LogEntry list"   \<comment> \<open>in \<open>writeEntries\<close>, with the entries to come\<close>
  | T_stop                                 \<comment> \<open>in \<open>deinitialize\<close>, about to request the stop\<close>
  | T_wake                                 \<comment> \<open>in \<open>deinitialize\<close>, about to release the semaphore\<close>
  | T_join                                 \<comment> \<open>in \<open>deinitialize\<close>, waiting for the writer\<close>
  | T_test                                 \<comment> \<open>the writer at the condition of its loop\<close>
  | T_acquire
  | T_woken
  | T_finished

fun after_flush :: "flush_caller \<Rightarrow> thread_pc" where
  "after_flush By_client = T_idle"
| "after_flush By_writer = T_test"
| "after_flush By_writer_last = T_finished"
| "after_flush By_deinitialize = T_idle"

text \<open>The state; the last two components are history.\<close>

record 'k threads =
  lt_al :: AsyncLogger
  lt_world :: "'k world"
  lt_pcs :: "thread_pc list"
  lt_written :: "LogEntry list"      \<comment> \<open>in the order of the writes\<close>
  lt_accepted :: "LogEntry list"     \<comment> \<open>in the order of the successful pushes\<close>

definition goto :: "nat \<Rightarrow> thread_pc \<Rightarrow> 'k threads \<Rightarrow> 'k threads" where
  "goto t pc s = s\<lparr>lt_pcs := (lt_pcs s)[t := pc]\<rparr>"

section \<open>The steps\<close>

definition step_push :: "nat \<Rightarrow> LogEntry \<Rightarrow> 'k threads \<Rightarrow> fault + 'k threads" where
  "step_push t e s =
     (case al_queue (lt_al s) of
        None \<Rightarrow> Inl Undefined
      | Some q \<Rightarrow>
          (case tryPush_rvalue e q of
             None \<Rightarrow> Inl Hangs
           | Some (True, q) \<Rightarrow>
               Inr (goto t T_release (s\<lparr>lt_al := (lt_al s)\<lparr>al_queue := Some q\<rparr>, lt_accepted := lt_accepted s @ [e]\<rparr>))
           | Some (False, q) \<Rightarrow> Inr (goto t (T_ring e) (s\<lparr>lt_al := (lt_al s)\<lparr>al_queue := Some q\<rparr>\<rparr>))))"

definition step_release :: "'k logger_env \<Rightarrow> nat \<Rightarrow> thread_pc \<Rightarrow> 'k threads \<Rightarrow> fault + 'k threads" where
  "step_release env t pc s =
     (case sem_release env (lt_al s) of Inl f \<Rightarrow> Inl f | Inr al \<Rightarrow> Inr (goto t pc (s\<lparr>lt_al := al\<rparr>)))"

definition step_ring :: "nat \<Rightarrow> LogEntry \<Rightarrow> 'k threads \<Rightarrow> fault + 'k threads" where
  "step_ring t e s =
     (case al_ring (lt_al s) of
        None \<Rightarrow> Inl Undefined
      | Some b \<Rightarrow>
          (case rb_tryPush e b of
             (False, b) \<Rightarrow> Inr (goto t T_idle (s\<lparr>lt_al := (lt_al s)\<lparr>al_ring := Some b\<rparr>\<rparr>))
           | (True, b) \<Rightarrow>
               Inr (goto t (T_pop_queue By_client)
                 (s\<lparr>lt_al := (lt_al s)\<lparr>al_ring := Some b\<rparr>, lt_accepted := lt_accepted s @ [e]\<rparr>))))"

definition step_pop_queue :: "nat \<Rightarrow> flush_caller \<Rightarrow> 'k threads \<Rightarrow> fault + 'k threads" where
  "step_pop_queue t c s =
     (case pop_queue (lt_al s) of
        Inl f \<Rightarrow> Inl f
      | Inr (queue_entries, al) \<Rightarrow> Inr (goto t (T_pop_ring c queue_entries) (s\<lparr>lt_al := al\<rparr>)))"

definition step_pop_ring :: "nat \<Rightarrow> flush_caller \<Rightarrow> LogEntry list \<Rightarrow> 'k threads \<Rightarrow> fault + 'k threads" where
  "step_pop_ring t c queue_entries s =
     (case pop_ring (lt_al s) of
        Inl f \<Rightarrow> Inl f
      | Inr (ring_entries, al) \<Rightarrow> Inr (goto t (T_write c (queue_entries @ ring_entries)) (s\<lparr>lt_al := al\<rparr>)))"

text \<open>One turn of the loop of \<open>writeEntries\<close>, and the end of a flush.\<close>

fun step_write :: "'k logger_env \<Rightarrow> nat \<Rightarrow> flush_caller \<Rightarrow> LogEntry list \<Rightarrow> 'k threads \<Rightarrow> fault + 'k threads" where
  "step_write env t c [] s =
     Inr (goto t (after_flush c)
       (if c = By_deinitialize then s\<lparr>lt_al := (lt_al s)\<lparr>al_initialized := False\<rparr>\<rparr> else s))"
| "step_write env t c (e # es) s =
     (case writeEntries env [e] (lt_al s) (lt_world s) of
        Inl f \<Rightarrow> Inl f
      | Inr (al, w) \<Rightarrow>
          Inr (goto t (T_write c es) (s\<lparr>lt_al := al, lt_world := w, lt_written := lt_written s @ [e]\<rparr>)))"

definition thread_step :: "'k logger_env \<Rightarrow> nat \<Rightarrow> 'k threads \<Rightarrow> fault + 'k threads" where
  "thread_step env t s =
     (case lt_pcs s ! t of
        T_idle \<Rightarrow> Inr s
      | T_push e \<Rightarrow> step_push t e s
      | T_release \<Rightarrow> step_release env t T_idle s
      | T_ring e \<Rightarrow> step_ring t e s
      | T_pop_queue c \<Rightarrow> step_pop_queue t c s
      | T_pop_ring c es \<Rightarrow> step_pop_ring t c es s
      | T_write c es \<Rightarrow> step_write env t c es s
      | T_stop \<Rightarrow> Inr (goto t T_wake (s\<lparr>lt_al := (lt_al s)\<lparr>al_stop := True\<rparr>\<rparr>))
      | T_wake \<Rightarrow> step_release env t T_join s
      | T_join \<Rightarrow> Inr (if lt_pcs s ! 0 = T_finished then goto t (T_pop_queue By_deinitialize) s else s)
      | T_test \<Rightarrow> Inr (goto t (if al_stop (lt_al s) then T_finished else T_acquire) s)
      | T_acquire \<Rightarrow>
          Inr (if al_sem (lt_al s) = 0 then s
               else goto t T_woken (s\<lparr>lt_al := (lt_al s)\<lparr>al_sem := al_sem (lt_al s) - 1\<rparr>\<rparr>))
      | T_woken \<Rightarrow> Inr (goto t (T_pop_queue (if al_stop (lt_al s) then By_writer_last else By_writer)) s)
      | T_finished \<Rightarrow> Inr s)"

section \<open>Schedules\<close>

text \<open>
  What a thread that is not in a call may begin, and the next step of a thread. A second
  \<open>deinitialize\<close> does not begin while one is under way: both would pass the test of \<open>initialized_\<close> and
  use the one \<open>std::jthread\<close> at the same time, which is undefined. The push of the queue may be refused
  without need, when others push and pop between its loads of \<open>tail_\<close> and \<open>head_\<close> (\<open>spurious_full\<close> in
  theory \<open>Queue_Faults\<close>).
\<close>

fun closing :: "thread_pc \<Rightarrow> bool" where
  "closing (T_pop_queue c) \<longleftrightarrow> c = By_deinitialize"
| "closing (T_pop_ring c es) \<longleftrightarrow> c = By_deinitialize"
| "closing (T_write c es) \<longleftrightarrow> c = By_deinitialize"
| "closing pc \<longleftrightarrow> pc = T_stop \<or> pc = T_wake \<or> pc = T_join"

datatype thread_event =
    Begin_log nat LogLevel nat nat int ThreadIdType
  | Begin_flush nat
  | Begin_deinitialize nat
  | Set_level LogLevel
  | Refuse nat     \<comment> \<open>\<open>tryPush\<close> answers false although there is room\<close>
  | Step nat

fun thread_exec :: "'k logger_env \<Rightarrow> thread_event \<Rightarrow> 'k threads \<Rightarrow> fault + 'k threads" where
  "thread_exec env (Begin_log t level tag message ts tid) s =
     Inr (if t < length (lt_pcs s) \<and> lt_pcs s ! t = T_idle \<and> shouldLog level (al_min_level (lt_al s)) \<and> al_initialized (lt_al s)
          then goto t (T_push (log_entry (lt_al s) (w_memory (lt_world s)) level tag message ts tid)) s else s)"
| "thread_exec env (Begin_flush t) s =
     Inr (if t < length (lt_pcs s) \<and> lt_pcs s ! t = T_idle then goto t (T_pop_queue By_client) s else s)"
| "thread_exec env (Begin_deinitialize t) s =
     Inr (if t < length (lt_pcs s) \<and> lt_pcs s ! t = T_idle \<and> al_initialized (lt_al s) \<and> \<not> list_ex closing (lt_pcs s)
          then goto t T_stop s else s)"
| "thread_exec env (Set_level level) s = Inr (s\<lparr>lt_al := setLogLevel level (lt_al s)\<rparr>)"
| "thread_exec env (Refuse t) s =
     Inr (if t < length (lt_pcs s) then (case lt_pcs s ! t of T_push e \<Rightarrow> goto t (T_ring e) s | _ \<Rightarrow> s) else s)"
| "thread_exec env (Step t) s = (if t < length (lt_pcs s) then thread_step env t s else Inr s)"

fun run_threads :: "'k logger_env \<Rightarrow> thread_event list \<Rightarrow> 'k threads \<Rightarrow> fault + 'k threads" where
  "run_threads env [] s = Inr s"
| "run_threads env (ev # evs) s =
     (case thread_exec env ev s of Inl f \<Rightarrow> Inl f | Inr s \<Rightarrow> run_threads env evs s)"

text \<open>A created logger, its writer thread started, and \<open>n\<close> client threads.\<close>

definition threads_init :: "nat \<Rightarrow> AsyncLogger \<Rightarrow> 'k world \<Rightarrow> 'k threads" where
  "threads_init n al w =
     \<lparr>lt_al = al, lt_world = w, lt_pcs = T_test # replicate n T_idle, lt_written = [], lt_accepted = []\<rparr>"

end
