(* ===== verification/Logger_Alone.thy ===== *)
theory Logger_Alone
  imports Logger_Threads
begin

text \<open>
  The methods of theory \<open>Async_Logger\<close>, each a single step, are what the interleaved steps of theory
  \<open>Logger_Threads\<close> compute when no other thread runs: the two models of the logger agree, in every
  state and with the same faults.
\<close>

text \<open>What can be seen of a state: everything but the history.\<close>

fun outcome :: "fault + 'k threads \<Rightarrow> fault + AsyncLogger \<times> 'k world \<times> thread_pc list" where
  "outcome (Inl f) = Inl f"
| "outcome (Inr s) = Inr (lt_al s, lt_world s, lt_pcs s)"

definition returning :: "thread_pc list \<Rightarrow> fault + AsyncLogger \<times> 'k world \<Rightarrow> fault + AsyncLogger \<times> 'k world \<times> thread_pc list" where
  "returning pcs r = (case r of Inl f \<Rightarrow> Inl f | Inr (al, w) \<Rightarrow> Inr (al, w, pcs))"

lemma returning_simps [simp]:
  "returning pcs (Inl f) = Inl f" "returning pcs (Inr (al, w)) = Inr (al, w, pcs)"
  by (simp_all add: returning_def)

lemma write_entries_append:
  "write_entries env m (xs @ ys) fm os =
     (case write_entries env m xs fm os of Inl f \<Rightarrow> Inl f | Inr (fm, os) \<Rightarrow> write_entries env m ys fm os)"
proof (induction xs arbitrary: fm os)
  case (Cons x xs)
  show ?case
  proof (cases "formatLogEntry (le_format env) m x")
    case (Some s)
    obtain ok fm1 os1 where "Write (le_host env) s fm os = (ok, fm1, os1)" by (metis prod_cases3)
    with Some Cons show ?thesis by simp
  qed simp
qed simp

lemma writeEntries_append:
  "writeEntries env (xs @ ys) al w =
     (case writeEntries env xs al w of Inl f \<Rightarrow> Inl f | Inr (al, w) \<Rightarrow> writeEntries env ys al w)"
  by (auto simp: writeEntries_def write_entries_append split: option.splits sum.splits)

lemma writeEntries_nil: "writeEntries env [] al w = Inr (al, w)"
  by (simp add: writeEntries_def split: option.splits)

lemma steps_idle: "t < length (lt_pcs s) \<Longrightarrow> lt_pcs s ! t = T_idle \<Longrightarrow> run_threads env (replicate n (Step t)) s = Inr s"
  by (induction n) (simp_all add: thread_step_def)

text \<open>A thread in \<open>writeEntries\<close>, and one at the beginning of \<open>flush\<close>.\<close>

lemma writes_alone:
  assumes "t < length (lt_pcs s)" "lt_pcs s ! t = T_write By_client es"
  shows "outcome (run_threads env (replicate (length es + 1) (Step t)) s) =
     returning ((lt_pcs s)[t := T_idle]) (writeEntries env es (lt_al s) (lt_world s))"
  using assms
proof (induction es arbitrary: s)
  case Nil
  then show ?case by (simp add: thread_step_def goto_def writeEntries_nil)
next
  case (Cons e es)
  note app = writeEntries_append [of env "[e]" es, unfolded append_Cons append_Nil]
  show ?case
  proof (cases "writeEntries env [e] (lt_al s) (lt_world s)")
    case (Inl f)
    with Cons.prems show ?thesis by (simp add: thread_step_def app)
  next
    case (Inr r)
    then obtain al w where r: "writeEntries env [e] (lt_al s) (lt_world s) = Inr (al, w)" by (cases r) simp
    define s1 where "s1 = goto t (T_write By_client es) (s\<lparr>lt_al := al, lt_world := w, lt_written := lt_written s @ [e]\<rparr>)"
    have s1: "t < length (lt_pcs s1)" "lt_pcs s1 ! t = T_write By_client es" "lt_al s1 = al" "lt_world s1 = w"
      "(lt_pcs s1)[t := T_idle] = (lt_pcs s)[t := T_idle]"
      using Cons.prems(1) by (simp_all add: s1_def goto_def)
    have "thread_exec env (Step t) s = Inr s1" using Cons.prems r by (simp add: thread_step_def s1_def)
    then have "run_threads env (replicate (length (e # es) + 1) (Step t)) s = run_threads env (replicate (length es + 1) (Step t)) s1"
      by simp
    then show ?thesis using Cons.IH [OF s1(1,2)] unfolding s1(3-5) by (simp only: app r sum.case prod.case)
  qed
qed

lemma flush_alone:
  assumes "t < length (lt_pcs s)" "lt_pcs s ! t = T_pop_queue By_client"
  shows "\<exists>n. outcome (run_threads env (replicate n (Step t)) s) =
     returning ((lt_pcs s)[t := T_idle]) (al_flush env (lt_al s) (lt_world s))"
proof (cases "pop_queue (lt_al s)")
  case (Inl f)
  with assms show ?thesis
    by (intro exI [of _ 1]) (simp add: thread_step_def step_pop_queue_def al_flush_def)
next
  case (Inr r)
  then obtain qs al where q: "pop_queue (lt_al s) = Inr (qs, al)" by (cases r) simp
  define s1 where "s1 = goto t (T_pop_ring By_client qs) (s\<lparr>lt_al := al\<rparr>)"
  have s1: "thread_exec env (Step t) s = Inr s1" using assms q by (simp add: thread_step_def step_pop_queue_def s1_def)
  have pc1: "t < length (lt_pcs s1)" "lt_pcs s1 ! t = T_pop_ring By_client qs" "lt_al s1 = al"
    using assms(1) by (simp_all add: s1_def goto_def)
  show ?thesis
  proof (cases "pop_ring al")
    case (Inl f)
    have "run_threads env (replicate 2 (Step t)) s = Inl f"
      using s1 pc1 Inl by (simp add: numeral_2_eq_2 thread_step_def step_pop_ring_def del: thread_exec.simps)
        (simp add: thread_step_def step_pop_ring_def)
    with q Inl show ?thesis by (intro exI [of _ 2]) (simp add: al_flush_def)
  next
    case (Inr r)
    then obtain rs al2 where r: "pop_ring al = Inr (rs, al2)" by (cases r) simp
    define s2 where "s2 = goto t (T_write By_client (qs @ rs)) (s1\<lparr>lt_al := al2\<rparr>)"
    have s2: "thread_exec env (Step t) s1 = Inr s2" using pc1 r by (simp add: thread_step_def step_pop_ring_def s2_def)
    have pc2: "t < length (lt_pcs s2)" "lt_pcs s2 ! t = T_write By_client (qs @ rs)" "lt_al s2 = al2"
      "lt_world s2 = lt_world s" "(lt_pcs s2)[t := T_idle] = (lt_pcs s)[t := T_idle]"
      using assms(1) by (simp_all add: s1_def s2_def goto_def)
    have "al_flush env (lt_al s) (lt_world s) = writeEntries env (qs @ rs) al2 (lt_world s)"
      using q r by (simp add: al_flush_def writeEntries_append)
    moreover have "run_threads env (replicate (Suc (Suc (length (qs @ rs) + 1))) (Step t)) s =
        run_threads env (replicate (length (qs @ rs) + 1) (Step t)) s2"
      using s1 s2 by (simp only: replicate_Suc run_threads.simps sum.case)
    ultimately show ?thesis
      using writes_alone [OF pc2(1,2), of env] unfolding pc2(3-5)
      by (intro exI [of _ "Suc (Suc (length (qs @ rs) + 1))"]) (simp only:)
  qed
qed

text \<open>A thread that has built its entry.\<close>

definition push_result :: "'k logger_env \<Rightarrow> LogEntry \<Rightarrow> AsyncLogger \<Rightarrow> 'k world \<Rightarrow> fault + AsyncLogger \<times> 'k world" where
  "push_result env e al w =
     (case al_queue al of
        None \<Rightarrow> Inl Undefined
      | Some q \<Rightarrow>
          (case tryPush_rvalue e q of
             None \<Rightarrow> Inl Hangs
           | Some (True, q) \<Rightarrow>
               (case sem_release env (al\<lparr>al_queue := Some q\<rparr>) of Inl f \<Rightarrow> Inl f | Inr al \<Rightarrow> Inr (al, w))
           | Some (False, q) \<Rightarrow>
               (case al_ring al of
                  None \<Rightarrow> Inl Undefined
                | Some b \<Rightarrow>
                    (case rb_tryPush e b of
                       (False, b) \<Rightarrow> Inr (al\<lparr>al_queue := Some q, al_ring := Some b\<rparr>, w)
                     | (True, b) \<Rightarrow> al_flush env (al\<lparr>al_queue := Some q, al_ring := Some b\<rparr>) w))))"

lemma al_log_push:
  "al_log env level tag message ts tid al w =
     (if shouldLog level (al_min_level al) \<and> al_initialized al
      then push_result env (log_entry al (w_memory w) level tag message ts tid) al w else Inr (al, w))"
  by (auto simp: al_log_def push_result_def Let_def split: option.splits bool.splits)

lemma one_step:
  "t < length (lt_pcs s) \<Longrightarrow> run_threads env (replicate (Suc n) (Step t)) s =
     (case thread_step env t s of Inl f \<Rightarrow> Inl f | Inr s \<Rightarrow> run_threads env (replicate n (Step t)) s)"
  by simp

lemma push_alone:
  assumes t: "t < length (lt_pcs s)" and pc: "lt_pcs s ! t = T_push e"
  shows "\<exists>n. outcome (run_threads env (replicate n (Step t)) s) =
     returning ((lt_pcs s)[t := T_idle]) (push_result env e (lt_al s) (lt_world s))"
proof (cases "step_push t e s")
  case (Inl f)
  then have "push_result env e (lt_al s) (lt_world s) = Inl f"
    by (auto simp: step_push_def push_result_def split: option.splits bool.splits)
  with Inl t pc show ?thesis by (intro exI [of _ "Suc 0"]) (simp add: one_step thread_step_def)
next
  case (Inr s1)
  then obtain q b q' where q: "al_queue (lt_al s) = Some q" "tryPush_rvalue e q = Some (b, q')"
    by (auto simp: step_push_def split: option.splits bool.splits)
  have first: "run_threads env (replicate (Suc n) (Step t)) s = run_threads env (replicate n (Step t)) s1" for n
    using t pc Inr by (simp add: thread_step_def)
  show ?thesis
  proof (cases b)
    case True
    with Inr q have s1: "s1 = goto t T_release (s\<lparr>lt_al := (lt_al s)\<lparr>al_queue := Some q'\<rparr>, lt_accepted := lt_accepted s @ [e]\<rparr>)"
      by (simp add: step_push_def)
    have "outcome (run_threads env (replicate (Suc (Suc 0)) (Step t)) s) =
        returning ((lt_pcs s)[t := T_idle]) (push_result env e (lt_al s) (lt_world s))"
      unfolding first using t q True
      by (simp add: s1 goto_def thread_step_def step_release_def push_result_def split: sum.splits)
    then show ?thesis by blast
  next
    case False
    with Inr q have s1: "s1 = goto t (T_ring e) (s\<lparr>lt_al := (lt_al s)\<lparr>al_queue := Some q'\<rparr>\<rparr>)"
      by (simp add: step_push_def)
    have t1: "t < length (lt_pcs s1)" "lt_pcs s1 ! t = T_ring e" using t by (simp_all add: s1 goto_def)
    have ring: "al_ring (lt_al s1) = al_ring (lt_al s)" by (simp add: s1 goto_def)
    show ?thesis
    proof (cases "al_ring (lt_al s)")
      case None
      with ring t1 have "run_threads env (replicate (Suc (Suc 0)) (Step t)) s = Inl Undefined"
        unfolding first by (simp add: one_step thread_step_def step_ring_def)
      with None q False show ?thesis by (intro exI [of _ "Suc (Suc 0)"]) (simp only: outcome.simps push_result_def returning_simps option.case prod.case bool.case)
    next
      case (Some b1)
      obtain c b2 where b2: "rb_tryPush e b1 = (c, b2)" by fastforce
      define s2 where "s2 = goto t (if c then T_pop_queue By_client else T_idle)
        (s1\<lparr>lt_al := (lt_al s1)\<lparr>al_ring := Some b2\<rparr>, lt_accepted := lt_accepted s1 @ (if c then [e] else [])\<rparr>)"
      have step2: "thread_step env t s1 = Inr s2"
        using t1 ring Some b2 by (cases c) (simp_all add: thread_step_def step_ring_def s2_def)
      have second: "run_threads env (replicate (Suc (Suc n)) (Step t)) s = run_threads env (replicate n (Step t)) s2" for n
        unfolding first using t1(1) step2 by simp
      have s2: "lt_al s2 = (lt_al s)\<lparr>al_queue := Some q', al_ring := Some b2\<rparr>" "lt_world s2 = lt_world s"
        "(lt_pcs s2)[t := T_idle] = (lt_pcs s)[t := T_idle]" "t < length (lt_pcs s2)"
        using t by (simp_all add: s2_def s1 goto_def)
      show ?thesis
      proof (cases c)
        case True
        have "lt_pcs s2 ! t = T_pop_queue By_client" using t True by (simp add: s2_def s1 goto_def)
        from flush_alone [OF s2(4) this] obtain n where
          "outcome (run_threads env (replicate n (Step t)) s2) =
             returning ((lt_pcs s)[t := T_idle]) (al_flush env (lt_al s2) (lt_world s2))"
          unfolding s2(3) by blast
        moreover have "push_result env e (lt_al s) (lt_world s) = al_flush env (lt_al s2) (lt_world s2)"
          using q False Some b2 True by (simp add: push_result_def s2(1,2))
        ultimately show ?thesis unfolding second [symmetric] by metis
      next
        case c: False
        have "lt_pcs s2 = (lt_pcs s)[t := T_idle]" using c by (simp add: s2_def s1 goto_def)
        with c q False Some b2 show ?thesis
          using second [of 0] by (intro exI [of _ "Suc (Suc 0)"]) (simp only: run_threads.simps replicate_0 outcome.simps
              push_result_def returning_simps option.case prod.case bool.case s2(1,2))
      qed
    qed
  qed
qed

text \<open>
  C13: the two models of the logger agree: a call of \<open>log\<close>, or of \<open>flush\<close>, broken into its accesses
  and run with no other thread in between, ends after finitely many of them in the state, the world
  and the fault of the method as a single step, with its thread idle again and all others where
  they were; and this holds in every state, well formed or not.
\<close>

theorem calls_run_alone:
  assumes "t < length (lt_pcs s)" "lt_pcs s ! t = T_idle"
  shows "(\<exists>n. outcome (run_threads env (Begin_log t level tag message ts tid # replicate n (Step t)) s) =
       returning (lt_pcs s) (al_log env level tag message ts tid (lt_al s) (lt_world s))) \<and>
     (\<exists>n. outcome (run_threads env (Begin_flush t # replicate n (Step t)) s) =
       returning (lt_pcs s) (al_flush env (lt_al s) (lt_world s)))"
proof
  have same: "(lt_pcs s)[t := T_idle] = lt_pcs s" using assms(2) by (metis list_update_id)
  have pcs: "(lt_pcs (goto t pc s))[t := T_idle] = lt_pcs s" "t < length (lt_pcs (goto t pc s))"
    "lt_pcs (goto t pc s) ! t = pc" "lt_al (goto t pc s) = lt_al s" "lt_world (goto t pc s) = lt_world s" for pc
    using assms(1) same by (simp_all add: goto_def)
  let ?e = "log_entry (lt_al s) (w_memory (lt_world s)) level tag message ts tid"
  show "\<exists>n. outcome (run_threads env (Begin_log t level tag message ts tid # replicate n (Step t)) s) =
       returning (lt_pcs s) (al_log env level tag message ts tid (lt_al s) (lt_world s))"
  proof (cases "shouldLog level (al_min_level (lt_al s)) \<and> al_initialized (lt_al s)")
    case True
    with assms have "thread_exec env (Begin_log t level tag message ts tid) s = Inr (goto t (T_push ?e) s)" by simp
    then have "run_threads env (Begin_log t level tag message ts tid # replicate n (Step t)) s =
        run_threads env (replicate n (Step t)) (goto t (T_push ?e) s)" for n
      by (simp only: run_threads.simps sum.case)
    moreover have "al_log env level tag message ts tid (lt_al s) (lt_world s) = push_result env ?e (lt_al s) (lt_world s)"
      using True by (simp add: al_log_push)
    ultimately show ?thesis using push_alone [OF pcs(2,3) [of "T_push ?e"], of env] unfolding pcs(1,4,5) by metis
  next
    case False
    then show ?thesis by (intro exI [of _ 0]) (auto simp: al_log_push)
  qed
  have "run_threads env (Begin_flush t # replicate n (Step t)) s =
      run_threads env (replicate n (Step t)) (goto t (T_pop_queue By_client) s)" for n
    using assms by simp
  then show "\<exists>n. outcome (run_threads env (Begin_flush t # replicate n (Step t)) s) =
       returning (lt_pcs s) (al_flush env (lt_al s) (lt_world s))"
    using flush_alone [OF pcs(2,3) [of "T_pop_queue By_client"], of env] unfolding pcs(1,4,5) by metis
qed

theorem calls_run_alone_witness:
  "\<exists>al w n. create sample_logger ''/w/App'' 8 sample_world = Inr (Some al, w) \<and>
     outcome (run_threads sample_logger (Begin_log 1 kLogLevelInfo 1 2 12345 (Std_thread_id 3) # replicate n (Step 1)) (threads_init 2 al w)) =
       returning [T_test, T_idle, T_idle] (al_log sample_logger kLogLevelInfo 1 2 12345 (Std_thread_id 3) al w)"
proof -
  from sample_created [of 8 1] obtain al w where c: "create sample_logger ''/w/App'' 8 sample_world = Inr (Some al, w)" by auto
  have i: "lt_pcs (threads_init 2 al w) = [T_test, T_idle, T_idle]" "lt_al (threads_init 2 al w) = al"
    "lt_world (threads_init 2 al w) = w" by (simp_all add: threads_init_def numeral_2_eq_2)
  have "1 < length (lt_pcs (threads_init 2 al w))" "lt_pcs (threads_init 2 al w) ! 1 = T_idle" unfolding i by simp_all
  from calls_run_alone [OF this, of sample_logger kLogLevelInfo 1 2 12345 "Std_thread_id 3"] c
  show ?thesis unfolding i by blast
qed

end
