(* ===== verification/Logger_Spec.thy ===== *)
theory Logger_Spec
  imports Logger_Threads "HOL-Library.Multiset"
begin

text \<open>
  What the logger is meant to be when any number of threads use it: two bounded buffers and a file as
  plain lists, with the same program counters as theory \<open>Logger_Threads\<close> but no memory, no
  counters and no system. Nothing is lost or duplicated; the order is kept as long as only the
  writer thread flushes.
\<close>

section \<open>The abstract machine\<close>

record spec =
  sp_pcs :: "thread_pc list"
  sp_queue :: "LogEntry list"
  sp_ring :: "LogEntry list"
  sp_written :: "LogEntry list"
  sp_accepted :: "LogEntry list"
  sp_sem :: nat
  sp_stop :: bool
  sp_level :: LogLevel
  sp_init :: bool

text \<open>The capacities, and what turns a call's arguments into an entry.\<close>

record spec_env =
  se_queue_cap :: nat
  se_ring_cap :: nat
  se_process_id :: ProcessIdType
  se_memory :: memory

definition sp_goto :: "nat \<Rightarrow> thread_pc \<Rightarrow> spec \<Rightarrow> spec" where
  "sp_goto t pc v = v\<lparr>sp_pcs := (sp_pcs v)[t := pc]\<rparr>"

fun spec_write :: "nat \<Rightarrow> flush_caller \<Rightarrow> LogEntry list \<Rightarrow> spec \<Rightarrow> spec" where
  "spec_write t c [] v = sp_goto t (after_flush c) (if c = By_deinitialize then v\<lparr>sp_init := False\<rparr> else v)"
| "spec_write t c (e # es) v = sp_goto t (T_write c es) (v\<lparr>sp_written := sp_written v @ [e]\<rparr>)"

definition spec_step :: "spec_env \<Rightarrow> nat \<Rightarrow> spec \<Rightarrow> spec" where
  "spec_step se t v =
     (case sp_pcs v ! t of
        T_idle \<Rightarrow> v
      | T_push e \<Rightarrow>
          (if length (sp_queue v) < se_queue_cap se
           then sp_goto t T_release (v\<lparr>sp_queue := sp_queue v @ [e], sp_accepted := sp_accepted v @ [e]\<rparr>)
           else sp_goto t (T_ring e) v)
      | T_release \<Rightarrow> sp_goto t T_idle (v\<lparr>sp_sem := sp_sem v + 1\<rparr>)
      | T_ring e \<Rightarrow>
          (if length (sp_ring v) < se_ring_cap se
           then sp_goto t (T_pop_queue By_client) (v\<lparr>sp_ring := sp_ring v @ [e], sp_accepted := sp_accepted v @ [e]\<rparr>)
           else sp_goto t T_idle v)
      | T_pop_queue c \<Rightarrow> sp_goto t (T_pop_ring c (sp_queue v)) (v\<lparr>sp_queue := []\<rparr>)
      | T_pop_ring c es \<Rightarrow> sp_goto t (T_write c (es @ sp_ring v)) (v\<lparr>sp_ring := []\<rparr>)
      | T_write c es \<Rightarrow> spec_write t c es v
      | T_stop \<Rightarrow> sp_goto t T_wake (v\<lparr>sp_stop := True\<rparr>)
      | T_wake \<Rightarrow> sp_goto t T_join (v\<lparr>sp_sem := sp_sem v + 1\<rparr>)
      | T_join \<Rightarrow> (if sp_pcs v ! 0 = T_finished then sp_goto t (T_pop_queue By_deinitialize) v else v)
      | T_test \<Rightarrow> sp_goto t (if sp_stop v then T_finished else T_acquire) v
      | T_acquire \<Rightarrow> (if sp_sem v = 0 then v else sp_goto t T_woken (v\<lparr>sp_sem := sp_sem v - 1\<rparr>))
      | T_woken \<Rightarrow> sp_goto t (T_pop_queue (if sp_stop v then By_writer_last else By_writer)) v
      | T_finished \<Rightarrow> v)"

fun spec_exec :: "spec_env \<Rightarrow> thread_event \<Rightarrow> spec \<Rightarrow> spec" where
  "spec_exec se (Begin_log t level tag message ts tid) v =
     (if t < length (sp_pcs v) \<and> sp_pcs v ! t = T_idle \<and> shouldLog level (sp_level v) \<and> sp_init v
      then sp_goto t (T_push (LogEntry_ctor level ts (se_process_id se) tid (view_of (se_memory se) tag)
        (view_of (se_memory se) message))) v else v)"
| "spec_exec se (Begin_flush t) v =
     (if t < length (sp_pcs v) \<and> sp_pcs v ! t = T_idle then sp_goto t (T_pop_queue By_client) v else v)"
| "spec_exec se (Begin_deinitialize t) v =
     (if t < length (sp_pcs v) \<and> sp_pcs v ! t = T_idle \<and> sp_init v \<and> \<not> list_ex closing (sp_pcs v)
      then sp_goto t T_stop v else v)"
| "spec_exec se (Set_level level) v = v\<lparr>sp_level := level\<rparr>"
| "spec_exec se (Refuse t) v =
     (if t < length (sp_pcs v) then (case sp_pcs v ! t of T_push e \<Rightarrow> sp_goto t (T_ring e) v | _ \<Rightarrow> v) else v)"
| "spec_exec se (Step t) v = (if t < length (sp_pcs v) then spec_step se t v else v)"

definition spec_run :: "spec_env \<Rightarrow> thread_event list \<Rightarrow> spec \<Rightarrow> spec" where
  "spec_run se evs v = fold (spec_exec se) evs v"

lemma spec_run_simps [simp]:
  "spec_run se [] v = v" "spec_run se (ev # evs) v = spec_run se evs (spec_exec se ev v)"
  by (simp_all add: spec_run_def)

definition spec_init :: "nat \<Rightarrow> LogLevel \<Rightarrow> spec" where
  "spec_init n level = \<lparr>sp_pcs = T_test # replicate n T_idle, sp_queue = [], sp_ring = [], sp_written = [],
     sp_accepted = [], sp_sem = 0, sp_stop = False, sp_level = level, sp_init = True\<rparr>"

section \<open>Nothing is lost or duplicated\<close>

text \<open>The entries a thread has popped and not written yet.\<close>

fun in_hand :: "thread_pc \<Rightarrow> LogEntry list" where
  "in_hand (T_pop_ring c es) = es"
| "in_hand (T_write c es) = es"
| "in_hand pc = []"

definition in_flight :: "spec \<Rightarrow> LogEntry multiset" where
  "in_flight v = mset (concat (map in_hand (sp_pcs v))) + mset (sp_queue v) + mset (sp_ring v)"

definition balanced :: "spec \<Rightarrow> bool" where
  "balanced v \<longleftrightarrow> mset (sp_written v) + in_flight v = mset (sp_accepted v)"

lemma mset_concat_update:
  assumes "t < length pcs"
  shows "mset (concat (map f (pcs[t := pc]))) + mset (f (pcs ! t)) = mset (concat (map f pcs)) + mset (f pc)"
  using assms
proof (induction pcs arbitrary: t)
  case (Cons a pcs)
  then show ?case by (cases t) (simp_all add: ac_simps)
qed simp

lemma balanced_goto:
  assumes "t < length (sp_pcs v)"
    and "mset (sp_written v') + mset (in_hand pc) + mset (sp_queue v') + mset (sp_ring v') + mset (sp_accepted v) =
         mset (sp_written v) + mset (in_hand (sp_pcs v ! t)) + mset (sp_queue v) + mset (sp_ring v) + mset (sp_accepted v')"
    and "sp_pcs v' = sp_pcs v" "balanced v"
  shows "balanced (sp_goto t pc v')"
proof -
  let ?h = "\<lambda>pcs. mset (concat (map in_hand pcs))"
  have upd: "?h ((sp_pcs v)[t := pc]) + mset (in_hand (sp_pcs v ! t)) = ?h (sp_pcs v) + mset (in_hand pc)"
    by (rule mset_concat_update [OF assms(1)])
  have "mset (sp_written v) + (?h (sp_pcs v) + mset (sp_queue v) + mset (sp_ring v)) = mset (sp_accepted v)"
    using assms(4) by (simp add: balanced_def in_flight_def)
  note eqs = upd assms(2) this
  have "mset (sp_written v') + (?h ((sp_pcs v)[t := pc]) + mset (sp_queue v') + mset (sp_ring v')) = mset (sp_accepted v')"
  proof (rule multiset_eqI)
    fix x
    from eqs [THEN arg_cong, of "\<lambda>M. count M x"]
    show "count (mset (sp_written v') + (?h ((sp_pcs v)[t := pc]) + mset (sp_queue v') + mset (sp_ring v'))) x =
        count (mset (sp_accepted v')) x"
      unfolding count_union by linarith
  qed
  then show ?thesis using assms(3) by (simp add: balanced_def in_flight_def sp_goto_def)
qed

lemma balanced_step:
  assumes "balanced v" "t < length (sp_pcs v)"
  shows "balanced (spec_step se t v)"
proof -
  note go = balanced_goto [OF assms(2) _ _ assms(1)]
  show ?thesis
  proof (cases "sp_pcs v ! t")
    case (T_write c es)
    show ?thesis
    proof (cases es)
      case Nil
      with T_write show ?thesis by (cases c) (auto simp: spec_step_def intro!: go)
    next
      case (Cons e es')
      with T_write show ?thesis by (auto simp: spec_step_def intro!: go)
    qed
  next
    case (T_pop_ring c es)
    then show ?thesis by (simp add: spec_step_def) (rule go; simp add: ac_simps)
  qed (use assms(1) in \<open>auto simp: spec_step_def intro!: go\<close>)
qed

lemma balanced_exec: "balanced v \<Longrightarrow> balanced (spec_exec se ev v)"
proof (cases ev)
  case (Set_level l)
  then show "balanced v \<Longrightarrow> ?thesis" by (simp add: balanced_def in_flight_def)
qed (auto intro: balanced_goto balanced_step split: thread_pc.split)

interpretation balance: event_invariant "spec_exec se" balanced for se
  by unfold_locales (rule balanced_exec)

lemma balanced_run: "balanced v \<Longrightarrow> balanced (spec_run se evs v)"
  unfolding spec_run_def by (rule balance.inv_fold)

lemma balanced_init: "balanced (spec_init n level)"
  by (induction n) (simp_all add: balanced_def in_flight_def spec_init_def)

section \<open>Order\<close>

text \<open>
  Schedules in which nobody but the writer thread flushes, as long as the queue has room and no push
  is refused without need.
\<close>

fun only_logs :: "thread_event \<Rightarrow> bool" where
  "only_logs (Begin_flush t) = False"
| "only_logs (Begin_deinitialize t) = False"
| "only_logs (Refuse t) = False"
| "only_logs ev = True"

fun writer_pc :: "thread_pc \<Rightarrow> bool" where
  "writer_pc (T_pop_queue c) \<longleftrightarrow> c = By_writer \<or> c = By_writer_last"
| "writer_pc (T_pop_ring c es) \<longleftrightarrow> c = By_writer \<or> c = By_writer_last"
| "writer_pc (T_write c es) \<longleftrightarrow> c = By_writer \<or> c = By_writer_last"
| "writer_pc pc \<longleftrightarrow> pc = T_test \<or> pc = T_acquire \<or> pc = T_woken \<or> pc = T_finished"

fun logging_pc :: "thread_pc \<Rightarrow> bool" where
  "logging_pc (T_push e) = True"
| "logging_pc pc \<longleftrightarrow> pc = T_idle \<or> pc = T_release"

definition ordered :: "spec \<Rightarrow> bool" where
  "ordered v \<longleftrightarrow> sp_ring v = [] \<and> sp_pcs v \<noteq> [] \<and> writer_pc (sp_pcs v ! 0) \<and>
     (\<forall>t. 0 < t \<and> t < length (sp_pcs v) \<longrightarrow> logging_pc (sp_pcs v ! t)) \<and>
     sp_written v @ in_hand (sp_pcs v ! 0) @ sp_queue v = sp_accepted v"

lemma ordered_writer:
  assumes "ordered v"
  shows "ordered (spec_step se 0 v) \<and> length (sp_queue (spec_step se 0 v)) \<le> length (sp_queue v)"
proof (cases "sp_pcs v ! 0")
  case (T_write c es)
  with assms show ?thesis
    by (cases es; cases c) (auto simp: ordered_def spec_step_def sp_goto_def nth_list_update)
qed (use assms in \<open>auto simp: ordered_def spec_step_def sp_goto_def nth_list_update\<close>)

lemma ordered_client:
  assumes "ordered v" "0 < t" "t < length (sp_pcs v)" "length (sp_queue v) < se_queue_cap se"
  shows "ordered (spec_step se t v) \<and> length (sp_queue (spec_step se t v)) \<le> Suc (length (sp_queue v))"
proof -
  have "logging_pc (sp_pcs v ! t)" using assms(1-3) by (simp add: ordered_def)
  then show ?thesis
    using assms by (cases "sp_pcs v ! t") (auto simp: ordered_def spec_step_def sp_goto_def nth_list_update)
qed

lemma ordered_exec:
  assumes "ordered v" "only_logs ev" "length (sp_queue v) < se_queue_cap se"
  shows "ordered (spec_exec se ev v) \<and> length (sp_queue (spec_exec se ev v)) \<le> Suc (length (sp_queue v))"
proof (cases ev)
  case (Step t)
  with ordered_writer [OF assms(1), of se] ordered_client [OF assms(1) _ _ assms(3), of t] assms(1)
  show ?thesis by (cases "t = 0") auto
next
  case (Begin_log t level tag message ts tid)
  have "t \<noteq> 0" if "sp_pcs v ! t = T_idle" using that assms(1) by (auto simp: ordered_def intro: ccontr)
  with Begin_log assms(1) show ?thesis by (auto simp: ordered_def sp_goto_def nth_list_update)
qed (use assms in \<open>auto simp: ordered_def\<close>)

text \<open>The queue has room before each of the steps.\<close>

fun never_full :: "spec_env \<Rightarrow> thread_event list \<Rightarrow> spec \<Rightarrow> bool" where
  "never_full se [] v \<longleftrightarrow> True"
| "never_full se (ev # evs) v \<longleftrightarrow>
     length (sp_queue v) < se_queue_cap se \<and> never_full se evs (spec_exec se ev v)"

lemma ordered_run:
  "ordered v \<Longrightarrow> list_all only_logs evs \<Longrightarrow> never_full se evs v \<Longrightarrow> ordered (spec_run se evs v)"
  by (induction evs arbitrary: v) (simp_all add: ordered_exec)

text \<open>A queue with a place for each step has room.\<close>

lemma never_full_short:
  assumes "ordered v" "list_all only_logs evs" "length (sp_queue v) + length evs \<le> se_queue_cap se"
  shows "never_full se evs v"
  using assms
proof (induction evs arbitrary: v)
  case (Cons ev evs)
  then have "only_logs ev" "length (sp_queue v) < se_queue_cap se" by simp_all
  from ordered_exec [OF Cons.prems(1) this] Cons show ?case by simp
qed simp

lemma ordered_init: "ordered (spec_init n level)"
  by (auto simp: ordered_def spec_init_def gr0_conv_Suc)

section \<open>Parts of schedules\<close>

lemma spec_run_append: "spec_run se (evs @ evs') v = spec_run se evs' (spec_run se evs v)"
  by (simp add: spec_run_def)

lemma spec_writes:
  assumes "t < length (sp_pcs v)" "sp_pcs v ! t = T_write c es"
  shows "spec_run se (replicate (length es) (Step t)) v =
     v\<lparr>sp_pcs := (sp_pcs v)[t := T_write c []], sp_written := sp_written v @ es\<rparr>"
  using assms
proof (induction es arbitrary: v)
  case Nil
  then have "(sp_pcs v)[t := T_write c []] = sp_pcs v" by (metis list_update_id)
  then show ?case by simp
next
  case (Cons e es)
  let ?v = "v\<lparr>sp_pcs := (sp_pcs v)[t := T_write c es], sp_written := sp_written v @ [e]\<rparr>"
  have "spec_exec se (Step t) v = ?v" using Cons.prems by (simp add: spec_step_def sp_goto_def)
  with Cons.IH [of ?v] Cons.prems(1) show ?case by simp
qed

text \<open>A call of \<open>log\<close> by one thread while the queue has room, and several such calls.\<close>

definition log_call :: "nat \<Rightarrow> LogLevel \<Rightarrow> int \<Rightarrow> ThreadIdType \<Rightarrow> nat \<times> nat \<Rightarrow> thread_event list" where
  "log_call t level ts tid m = [Begin_log t level (fst m) (snd m) ts tid, Step t, Step t]"

definition called_entry :: "spec_env \<Rightarrow> LogLevel \<Rightarrow> int \<Rightarrow> ThreadIdType \<Rightarrow> nat \<times> nat \<Rightarrow> LogEntry" where
  "called_entry se level ts tid m =
     LogEntry_ctor level ts (se_process_id se) tid (view_of (se_memory se) (fst m)) (view_of (se_memory se) (snd m))"

definition can_log :: "nat \<Rightarrow> LogLevel \<Rightarrow> spec \<Rightarrow> bool" where
  "can_log t level v \<longleftrightarrow> t < length (sp_pcs v) \<and> sp_pcs v ! t = T_idle \<and> shouldLog level (sp_level v) \<and> sp_init v"

lemma spec_log_call:
  assumes "can_log t level v" "length (sp_queue v) < se_queue_cap se"
  shows "spec_run se (log_call t level ts tid m) v =
     v\<lparr>sp_queue := sp_queue v @ [called_entry se level ts tid m],
       sp_accepted := sp_accepted v @ [called_entry se level ts tid m], sp_sem := sp_sem v + 1\<rparr>"
proof -
  have "(sp_pcs v)[t := T_idle] = sp_pcs v" using assms(1) by (metis can_log_def list_update_id)
  then show ?thesis using assms
    by (simp add: can_log_def log_call_def called_entry_def spec_step_def sp_goto_def)
qed

lemma spec_log_calls:
  assumes "can_log t level v" "length (sp_queue v) + length ms \<le> se_queue_cap se"
  shows "spec_run se (concat (map (log_call t level ts tid) ms)) v =
     v\<lparr>sp_queue := sp_queue v @ map (called_entry se level ts tid) ms,
       sp_accepted := sp_accepted v @ map (called_entry se level ts tid) ms, sp_sem := sp_sem v + length ms\<rparr>"
  using assms
proof (induction ms arbitrary: v)
  case (Cons m ms)
  let ?e = "called_entry se level ts tid m"
  let ?v = "v\<lparr>sp_queue := sp_queue v @ [?e], sp_accepted := sp_accepted v @ [?e], sp_sem := sp_sem v + 1\<rparr>"
  have "spec_run se (log_call t level ts tid m) v = ?v" using spec_log_call [OF Cons.prems(1)] Cons.prems(2) by simp
  moreover have "can_log t level ?v" using Cons.prems(1) by (simp add: can_log_def)
  ultimately show ?case using Cons.IH [of ?v] Cons.prems(2) by (simp add: spec_run_append)
qed simp

section \<open>A flush that overtakes the writer\<close>

text \<open>
  One thread, number 1, logs; the writer thread has popped the first entry and is not yet at its
  write when the thread fills the queue and, by the next call, flushes.
\<close>

definition overtaking ::
  "LogLevel \<Rightarrow> int \<Rightarrow> ThreadIdType \<Rightarrow> nat \<times> nat \<Rightarrow> (nat \<times> nat) list \<Rightarrow> nat \<times> nat \<Rightarrow> thread_event list" where
  "overtaking level ts tid m1 middle mN =
     Step 0 # log_call 1 level ts tid m1 @ replicate 3 (Step 0) @ concat (map (log_call 1 level ts tid) middle) @
       log_call 1 level ts tid mN @ replicate (length middle + 4) (Step 1) @ replicate 3 (Step 0)"

lemma overtaking_order:
  fixes ts :: int and tid :: ThreadIdType and m1 mN :: "nat \<times> nat"
  assumes "length middle = se_queue_cap se" "0 < se_queue_cap se" "0 < se_ring_cap se" "shouldLog level l"
  defines "e \<equiv> called_entry se level ts tid"
  defines "v \<equiv> spec_run se (overtaking level ts tid m1 middle mN) (spec_init 1 l)"
  shows "sp_accepted v = e m1 # map e middle @ [e mN]" "sp_written v = map e middle @ [e mN, e m1]"
proof -
  define v1 where "v1 = (spec_init 1 l)\<lparr>sp_pcs := [T_acquire, T_idle]\<rparr>"
  have 1: "spec_exec se (Step 0) (spec_init 1 l) = v1"
    by (simp add: spec_init_def spec_step_def sp_goto_def v1_def)
  define v2 where "v2 = v1\<lparr>sp_pcs := [T_pop_ring By_writer [e m1], T_idle], sp_accepted := [e m1]\<rparr>"
  have 2: "spec_run se (replicate 3 (Step 0)) (spec_run se (log_call 1 level ts tid m1) v1) = v2"
  proof -
    have three: "replicate 3 (Step 0) = [Step 0, Step 0, Step 0]" by (simp add: numeral_3_eq_3)
    have "can_log 1 level v1" using assms(4) by (simp add: can_log_def v1_def spec_init_def)
    then show ?thesis unfolding three using assms(2)
      by (simp add: spec_log_call v1_def spec_init_def spec_step_def sp_goto_def v2_def e_def)
  qed
  define v3 where "v3 = v2\<lparr>sp_queue := map e middle, sp_accepted := e m1 # map e middle, sp_sem := length middle\<rparr>"
  have 3: "spec_run se (concat (map (log_call 1 level ts tid) middle)) v2 = v3"
  proof -
    have "can_log 1 level v2" using assms(4) by (simp add: can_log_def v1_def v2_def spec_init_def)
    from spec_log_calls [OF this, of middle se ts tid] show ?thesis
      using assms(1) by (simp add: v1_def v2_def v3_def spec_init_def e_def)
  qed
  define v4 where "v4 = v3\<lparr>sp_pcs := [T_pop_ring By_writer [e m1], T_write By_client (map e middle @ [e mN])],
    sp_queue := [], sp_accepted := e m1 # map e middle @ [e mN]\<rparr>"
  have 4: "spec_run se (log_call 1 level ts tid mN @ replicate 2 (Step 1)) v3 = v4"
  proof -
    have two: "replicate 2 (Step (Suc 0)) = [Step 1, Step 1]" by (simp add: numeral_2_eq_2)
    show ?thesis using assms(1-4) two
      by (simp add: log_call_def v1_def v2_def v3_def v4_def spec_init_def spec_step_def sp_goto_def e_def called_entry_def)
  qed
  define v5 where "v5 = v4\<lparr>sp_pcs := [T_pop_ring By_writer [e m1], T_idle], sp_written := map e middle @ [e mN]\<rparr>"
  have 5: "spec_run se (replicate (Suc (length middle)) (Step 1) @ [Step 1]) v4 = v5"
    using spec_writes [of 1 v4 By_client "map e middle @ [e mN]" se]
    by (simp add: spec_run_append v1_def v2_def v3_def v4_def v5_def spec_init_def spec_step_def sp_goto_def del: replicate_Suc)
  have tail: "replicate (length middle + 4) (Step 1) = replicate 2 (Step 1) @ replicate (Suc (length middle)) (Step 1) @ [Step 1]"
    by (simp add: replicate_append_same [symmetric] replicate_add [symmetric] numeral_2_eq_2 eval_nat_numeral)
  have "v = spec_run se (replicate 3 (Step 0)) (spec_run se (replicate (Suc (length middle)) (Step 1) @ [Step 1])
      (spec_run se (log_call 1 level ts tid mN @ replicate 2 (Step 1))
        (spec_run se (concat (map (log_call 1 level ts tid) middle))
          (spec_run se (replicate 3 (Step 0)) (spec_run se (log_call 1 level ts tid m1)
            (spec_exec se (Step 0) (spec_init 1 l)))))))"
    by (simp only: v_def overtaking_def tail spec_run_append append_assoc spec_run_simps(2))
  then have "v = spec_run se (replicate 3 (Step 0)) v5" unfolding 1 2 3 4 5 .
  then show "sp_accepted v = e m1 # map e middle @ [e mN]" "sp_written v = map e middle @ [e mN, e m1]"
    by (simp_all add: numeral_3_eq_3 v1_def v2_def v3_def v4_def v5_def spec_init_def spec_step_def sp_goto_def)
qed

end
