(* ===== verification/Threads_Refine.thy ===== *)
theory Threads_Refine
  imports Logger_Spec
begin

text \<open>
  The interleaved logger of theory \<open>Logger_Threads\<close> implements the abstract machine of theory
  \<open>Logger_Spec\<close>: every step of every thread, in any schedule, does to the buffers and the file what
  the machine does to its lists, as long as the counters and the callers' strings hold.
\<close>

section \<open>The abstraction and the invariant\<close>

definition view :: "'k threads \<Rightarrow> spec" where
  "view s =
     \<lparr>sp_pcs = lt_pcs s,
      sp_queue = (case al_queue (lt_al s) of None \<Rightarrow> [] | Some q \<Rightarrow> aq_contents q),
      sp_ring = (case al_ring (lt_al s) of None \<Rightarrow> [] | Some b \<Rightarrow> rb_contents b),
      sp_written = lt_written s, sp_accepted = lt_accepted s, sp_sem = al_sem (lt_al s),
      sp_stop = al_stop (lt_al s), sp_level = al_min_level (lt_al s), sp_init = al_initialized (lt_al s)\<rparr>"

text \<open>The entries a thread refers to, pushed or not.\<close>

fun carried :: "thread_pc \<Rightarrow> LogEntry list" where
  "carried (T_push e) = [e]"
| "carried (T_ring e) = [e]"
| "carried pc = in_hand pc"

definition file_text :: "'k logger_env \<Rightarrow> memory \<Rightarrow> string \<Rightarrow> LogEntry list \<Rightarrow> string" where
  "file_text env m c0 es = c0 @ text_bytes (le_host env) (concat (map (line_of env m) es))"

text \<open>
  \<open>n\<close> more steps stay within the bounds of the counters, the file holds \<open>c0\<close> and the lines of what
  was written, and all entries can be read.
\<close>

definition holds ::
  "'k logger_env \<Rightarrow> spec_env \<Rightarrow> nat \<Rightarrow> string \<Rightarrow> FileManager \<Rightarrow> LogEntry AsyncQueue \<Rightarrow> LogEntry RingBuffer \<Rightarrow>
     'k threads \<Rightarrow> bool" where
  "holds env se n c0 fm q b s \<longleftrightarrow>
     al_sem (lt_al s) + n \<le> le_sem_max env \<and> w_memory (lt_world s) = se_memory se \<and>
     al_process_id (lt_al s) = se_process_id se \<and>
     (\<forall>pc \<in> set (lt_pcs s). list_all (readable env (se_memory se)) (carried pc)) \<and>
     al_file (lt_al s) = Some fm \<and> al_queue (lt_al s) = Some q \<and> al_ring (lt_al s) = Some b \<and>
     aq_inv q \<and> n \<le> aq_budget q \<and> rb_inv b \<and> n \<le> rb_budget b \<and>
     aq_cap q = se_queue_cap se \<and> rb_cap b = se_ring_cap se \<and> fm_ready (fm, w_os (lt_world s)) \<and>
     fm_content (fm, w_os (lt_world s)) = Some (file_text env (se_memory se) c0 (lt_written s)) \<and>
     list_all (readable env (se_memory se)) (aq_contents q) \<and>
     list_all (readable env (se_memory se)) (rb_contents b)"

definition threads_ok :: "'k logger_env \<Rightarrow> spec_env \<Rightarrow> nat \<Rightarrow> string \<Rightarrow> 'k threads \<Rightarrow> bool" where
  "threads_ok env se n c0 s \<longleftrightarrow> (\<exists>fm q b. holds env se n c0 fm q b s)"

lemma threads_okE:
  assumes "threads_ok env se n c0 s"
  obtains fm q b where "holds env se n c0 fm q b s"
  using assms unfolding threads_ok_def by blast

lemma holdsD:
  assumes "holds env se n c0 fm q b s"
  shows "al_sem (lt_al s) + n \<le> le_sem_max env" "w_memory (lt_world s) = se_memory se"
    "al_process_id (lt_al s) = se_process_id se"
    "\<forall>pc \<in> set (lt_pcs s). list_all (readable env (se_memory se)) (carried pc)"
    "al_file (lt_al s) = Some fm" "al_queue (lt_al s) = Some q" "al_ring (lt_al s) = Some b"
    "aq_inv q" "n \<le> aq_budget q" "rb_inv b" "n \<le> rb_budget b"
    "aq_cap q = se_queue_cap se" "rb_cap b = se_ring_cap se" "fm_ready (fm, w_os (lt_world s))"
    "fm_content (fm, w_os (lt_world s)) = Some (file_text env (se_memory se) c0 (lt_written s))"
    "list_all (readable env (se_memory se)) (aq_contents q)"
    "list_all (readable env (se_memory se)) (rb_contents b)"
  using assms by (simp_all add: holds_def)

lemma threads_okI: "holds env se n c0 fm q b s \<Longrightarrow> threads_ok env se n c0 s"
  unfolding threads_ok_def by blast

lemma threads_ok_carried:
  "threads_ok env se n c0 s \<Longrightarrow> t < length (lt_pcs s) \<Longrightarrow>
     list_all (readable env (se_memory se)) (carried (lt_pcs s ! t))"
  by (auto simp: threads_ok_def holds_def)

text \<open>Changes of the state that leave the buffers and the file alone.\<close>

lemma threads_ok_update:
  assumes "threads_ok env se n c0 s" "n' \<le> n"
    and "al_sem al' + n' \<le> le_sem_max env" "al_process_id al' = al_process_id (lt_al s)"
    and "al_file al' = al_file (lt_al s)" "al_queue al' = al_queue (lt_al s)" "al_ring al' = al_ring (lt_al s)"
  shows "threads_ok env se n' c0 (s\<lparr>lt_al := al'\<rparr>)"
proof -
  from assms(1) obtain fm q b where "holds env se n c0 fm q b s" by (rule threads_okE)
  note p = holdsD [OF this]
  show ?thesis by (rule threads_okI [where fm = fm and q = q and b = b]) (use p assms(2-) in \<open>auto simp: holds_def\<close>)
qed

lemma threads_ok_less:
  assumes "threads_ok env se n c0 s" "n' \<le> n"
  shows "threads_ok env se n' c0 s"
proof -
  have "al_sem (lt_al s) + n' \<le> le_sem_max env" using assms by (auto simp: threads_ok_def holds_def)
  from threads_ok_update [OF assms this] show ?thesis by simp
qed

lemma threads_ok_goto:
  assumes "threads_ok env se n c0 s" "list_all (readable env (se_memory se)) (carried pc)"
  shows "threads_ok env se n c0 (goto t pc s)"
proof -
  from assms(1) obtain fm q b where h: "holds env se n c0 fm q b s" by (rule threads_okE)
  have "\<forall>pc' \<in> set ((lt_pcs s)[t := pc]). list_all (readable env (se_memory se)) (carried pc')"
    using holdsD(4) [OF h] assms(2) set_update_subset_insert [of "lt_pcs s" t pc] by blast
  then have "holds env se n c0 fm q b (goto t pc s)" using holdsD [OF h] by (simp add: holds_def goto_def)
  then show ?thesis by (rule threads_okI)
qed

lemma view_goto [simp]: "view (goto t pc s) = sp_goto t pc (view s)"
  by (simp add: view_def goto_def sp_goto_def)

lemma view_simps [simp]:
  "sp_pcs (view s) = lt_pcs s" "sp_written (view s) = lt_written s" "sp_accepted (view s) = lt_accepted s"
  "sp_sem (view s) = al_sem (lt_al s)" "sp_stop (view s) = al_stop (lt_al s)"
  "sp_level (view s) = al_min_level (lt_al s)" "sp_init (view s) = al_initialized (lt_al s)"
  "view (s\<lparr>lt_al := (lt_al s)\<lparr>al_stop := x\<rparr>\<rparr>) = (view s)\<lparr>sp_stop := x\<rparr>"
  "view (s\<lparr>lt_al := (lt_al s)\<lparr>al_sem := k\<rparr>\<rparr>) = (view s)\<lparr>sp_sem := k\<rparr>"
  "view (s\<lparr>lt_al := (lt_al s)\<lparr>al_min_level := l\<rparr>\<rparr>) = (view s)\<lparr>sp_level := l\<rparr>"
  "view (s\<lparr>lt_al := (lt_al s)\<lparr>al_initialized := x\<rparr>\<rparr>) = (view s)\<lparr>sp_init := x\<rparr>"
  by (simp_all add: view_def)

section \<open>The steps\<close>

definition simulated ::
  "'k logger_env \<Rightarrow> spec_env \<Rightarrow> nat \<Rightarrow> string \<Rightarrow> fault + 'k threads \<Rightarrow> spec \<Rightarrow> bool" where
  "simulated env se n c0 r v \<longleftrightarrow> (\<exists>s. r = Inr s \<and> threads_ok env se n c0 s \<and> view s = v)"

lemma simulated_same: "threads_ok env se n c0 s \<Longrightarrow> simulated env se n c0 (Inr s) (view s)"
  by (simp add: simulated_def)

lemma simulated_goto:
  assumes "threads_ok env se n c0 s" "list_all (readable env (se_memory se)) (carried pc)" "view s = v"
  shows "simulated env se n c0 (Inr (goto t pc s)) (sp_goto t pc v)"
  using threads_ok_goto [OF assms(1,2)] assms(3) by (simp add: simulated_def)

lemma push_refines:
  assumes ok: "threads_ok env se (Suc n) c0 s" and e: "readable env (se_memory se) e"
  shows "simulated env se n c0 (step_push t e s)
     (if length (sp_queue (view s)) < se_queue_cap se
      then sp_goto t T_release ((view s)\<lparr>sp_queue := sp_queue (view s) @ [e], sp_accepted := sp_accepted (view s) @ [e]\<rparr>)
      else sp_goto t (T_ring e) (view s))"
proof -
  from ok obtain fm q b where "holds env se (Suc n) c0 fm q b s" by (rule threads_okE)
  note p = holdsD [OF this]
  have "0 < aq_budget q" using p(9) by simp
  from aq.push_total [OF p(8) this, of e] obtain ok' q' where
    q': "tryPush e q = Some (ok', q')" "aq_inv q'" "aq_cap q' = aq_cap q" "aq_budget q \<le> Suc (aq_budget q')"
      "ok' = (length (aq_contents q) < aq_cap q)" "aq_contents q' = aq_contents q @ (if ok' then [e] else [])" by blast
  define s' where "s' = s\<lparr>lt_al := (lt_al s)\<lparr>al_queue := Some q'\<rparr>,
    lt_accepted := lt_accepted s @ (if ok' then [e] else [])\<rparr>"
  have "threads_ok env se n c0 s'"
    using p q' e
    by (intro threads_okI [of _ _ _ _ fm q' b]) (auto simp: holds_def s'_def)
  then show ?thesis
    using q' p(6,12) e simulated_goto [of env se n c0 s']
    by (auto simp: step_push_def tryPush_rvalue_def s'_def view_def)
qed

lemma ring_refines:
  assumes ok: "threads_ok env se (Suc n) c0 s" and e: "readable env (se_memory se) e"
  shows "simulated env se n c0 (step_ring t e s)
     (if length (sp_ring (view s)) < se_ring_cap se
      then sp_goto t (T_pop_queue By_client) ((view s)\<lparr>sp_ring := sp_ring (view s) @ [e], sp_accepted := sp_accepted (view s) @ [e]\<rparr>)
      else sp_goto t T_idle (view s))"
proof -
  from ok obtain fm q b where "holds env se (Suc n) c0 fm q b s" by (rule threads_okE)
  note p = holdsD [OF this]
  have "0 < rb_budget b" using p(11) by simp
  from rb.push_total [OF p(10) this, of e] obtain ok' b' where
    b': "rb_tryPush e b = (ok', b')" "rb_inv b'" "rb_cap b' = rb_cap b" "rb_budget b \<le> Suc (rb_budget b')"
      "ok' = (length (rb_contents b) < rb_cap b)" "rb_contents b' = rb_contents b @ (if ok' then [e] else [])" by auto
  define s' where "s' = s\<lparr>lt_al := (lt_al s)\<lparr>al_ring := Some b'\<rparr>,
    lt_accepted := lt_accepted s @ (if ok' then [e] else [])\<rparr>"
  have "threads_ok env se n c0 s'"
    using p b' e
    by (intro threads_okI [of _ _ _ _ fm q b']) (auto simp: holds_def s'_def)
  then show ?thesis
    using b' p(7,13) e simulated_goto [of env se n c0 s']
    by (auto simp: step_ring_def s'_def view_def split: if_splits)
qed

lemma pop_queue_refines:
  assumes ok: "threads_ok env se n c0 s"
  shows "simulated env se n c0 (step_pop_queue t c s)
     (sp_goto t (T_pop_ring c (sp_queue (view s))) ((view s)\<lparr>sp_queue := []\<rparr>))"
proof -
  from ok obtain fm q b where "holds env se n c0 fm q b s" by (rule threads_okE)
  note p = holdsD [OF this]
  from aq.pop_all_drains [OF p(8)] obtain q' where
    q': "popAll q = Some (aq_contents q, q')" "aq_inv q'" "aq_contents q' = []" "aq_cap q' = aq_cap q"
      "aq_budget q' = aq_budget q" by blast
  let ?s = "s\<lparr>lt_al := (lt_al s)\<lparr>al_queue := Some q'\<rparr>\<rparr>"
  have "threads_ok env se n c0 ?s"
    using p q' by (intro threads_okI [of _ _ _ _ fm q' b]) (simp add: holds_def)
  from simulated_goto [OF this, of "T_pop_ring c (aq_contents q)"] show ?thesis
    using q'(1,3) p(6,16) by (simp add: step_pop_queue_def pop_queue_def view_def)
qed

lemma pop_ring_refines:
  assumes ok: "threads_ok env se n c0 s" and es: "list_all (readable env (se_memory se)) es"
  shows "simulated env se n c0 (step_pop_ring t c es s)
     (sp_goto t (T_write c (es @ sp_ring (view s))) ((view s)\<lparr>sp_ring := []\<rparr>))"
proof -
  from ok obtain fm q b where "holds env se n c0 fm q b s" by (rule threads_okE)
  note p = holdsD [OF this]
  from rb_pop_drains [OF p(10)] obtain b' where
    b': "rb_popAll b = (rb_contents b, b')" "rb_inv b'" "rb_contents b' = []" "rb_cap b' = rb_cap b"
      "rb_budget b' = rb_budget b" by blast
  let ?s = "s\<lparr>lt_al := (lt_al s)\<lparr>al_ring := Some b'\<rparr>\<rparr>"
  have "threads_ok env se n c0 ?s"
    using p b' by (intro threads_okI [of _ _ _ _ fm q b']) (simp add: holds_def)
  from simulated_goto [OF this, of "T_write c (es @ rb_contents b)"] show ?thesis
    using b'(1,3) p(7,17) es by (simp add: step_pop_ring_def pop_ring_def view_def)
qed

lemma write_refines:
  assumes ok: "threads_ok env se n c0 s" and es: "list_all (readable env (se_memory se)) es"
  shows "simulated env se n c0 (step_write env t c es s) (spec_write t c es (view s))"
proof (cases es)
  case Nil
  have "al_sem (lt_al s) + n \<le> le_sem_max env" using ok by (auto simp: threads_ok_def holds_def)
  then have "threads_ok env se n c0 (s\<lparr>lt_al := (lt_al s)\<lparr>al_initialized := False\<rparr>\<rparr>)"
    by (intro threads_ok_update [OF ok]) simp_all
  moreover have "carried (after_flush c) = []" by (cases c) simp_all
  ultimately show ?thesis
    using Nil ok by (auto simp: view_def intro!: simulated_goto)
next
  case (Cons e es')
  from ok obtain fm q b where "holds env se n c0 fm q b s" by (rule threads_okE)
  note p = holdsD [OF this]
  have e: "list_all (readable env (w_memory (lt_world s))) [e]" using es Cons p(2) by simp
  from writeEntries_content [OF p(5,14,15) e] obtain fm' os' where
    w: "writeEntries env [e] (lt_al s) (lt_world s) =
        Inr ((lt_al s)\<lparr>al_file := Some fm'\<rparr>, (lt_world s)\<lparr>w_os := os'\<rparr>)" "fm_ready (fm', os')"
      "fm_content (fm', os') = Some (file_text env (se_memory se) c0 (lt_written s @ [e]))"
    by (auto simp: p(2) file_text_def text_bytes_append)
  let ?s = "s\<lparr>lt_al := (lt_al s)\<lparr>al_file := Some fm'\<rparr>, lt_world := (lt_world s)\<lparr>w_os := os'\<rparr>,
      lt_written := lt_written s @ [e]\<rparr>"
  have "threads_ok env se n c0 ?s"
    using p w(2,3) by (intro threads_okI [of _ _ _ _ fm' q b]) (simp add: holds_def)
  from simulated_goto [OF this, of "T_write c es'"] show ?thesis
    using Cons w(1) es by (simp add: view_def)
qed

lemma release_refines:
  assumes ok: "threads_ok env se (Suc n) c0 s" and pc: "carried pc = []"
  shows "simulated env se n c0 (step_release env t pc s)
     (sp_goto t pc ((view s)\<lparr>sp_sem := sp_sem (view s) + 1\<rparr>))"
proof -
  have sem: "al_sem (lt_al s) + Suc n \<le> le_sem_max env" using ok by (auto simp: threads_ok_def holds_def)
  then have "threads_ok env se n c0 (s\<lparr>lt_al := (lt_al s)\<lparr>al_sem := al_sem (lt_al s) + 1\<rparr>\<rparr>)"
    by (intro threads_ok_update [OF ok]) simp_all
  from simulated_goto [OF this, of pc] show ?thesis
    using pc sem by (simp add: step_release_def sem_release_def view_def)
qed

text \<open>Only some steps use up the counters: the pushes and the releases of the semaphore.\<close>

fun step_cost :: "thread_pc \<Rightarrow> nat" where
  "step_cost (T_push e) = 1"
| "step_cost (T_ring e) = 1"
| "step_cost pc = (if pc = T_release \<or> pc = T_wake then 1 else 0)"

lemma step_refines:
  assumes ok: "threads_ok env se (n + step_cost (lt_pcs s ! t)) c0 s" and t: "t < length (lt_pcs s)"
  shows "simulated env se n c0 (thread_step env t s) (spec_step se t (view s))"
proof -
  note ok' = threads_ok_less [OF ok, of n, simplified]
  have sem: "al_sem (lt_al s) + n \<le> le_sem_max env" using ok by (auto simp: threads_ok_def holds_def)
  note pc = threads_ok_carried [OF ok t]
  have upd: "threads_ok env se n c0 (s\<lparr>lt_al := (lt_al s)\<lparr>al_stop := x\<rparr>\<rparr>)"
    "threads_ok env se n c0 (s\<lparr>lt_al := (lt_al s)\<lparr>al_sem := al_sem (lt_al s) - 1\<rparr>\<rparr>)" for x
    using sem by (auto intro!: threads_ok_update [OF ok'])
  show ?thesis
  proof (cases "lt_pcs s ! t")
    case (T_push e)
    with ok pc push_refines [of env se n c0 s e t] show ?thesis by (simp add: thread_step_def spec_step_def)
  next
    case (T_ring e)
    with ok pc ring_refines [of env se n c0 s e t] show ?thesis by (simp add: thread_step_def spec_step_def)
  next
    case (T_pop_queue c)
    with pop_queue_refines [OF ok', of t c] show ?thesis by (simp add: thread_step_def spec_step_def)
  next
    case (T_pop_ring c es)
    with pc pop_ring_refines [OF ok', of es t c] show ?thesis by (simp add: thread_step_def spec_step_def)
  next
    case (T_write c es)
    with pc write_refines [OF ok', of es t c] show ?thesis by (simp add: thread_step_def spec_step_def)
  next
    case T_release
    with ok release_refines [of env se n c0 s T_idle t] show ?thesis by (simp add: thread_step_def spec_step_def)
  next
    case T_wake
    with ok release_refines [of env se n c0 s T_join t] show ?thesis by (simp add: thread_step_def spec_step_def)
  next
    case T_stop
    with simulated_goto [OF upd(1) [of True], of T_wake _ t] show ?thesis
      by (simp add: thread_step_def spec_step_def)
  next
    case T_acquire
    with simulated_goto [OF upd(2), of T_woken _ t] simulated_same [OF ok'] show ?thesis
      by (simp add: thread_step_def spec_step_def)
  qed (use ok' in \<open>auto simp: thread_step_def spec_step_def intro!: simulated_same simulated_goto\<close>)
qed

text \<open>Threads that only pop, write and wait can go on for ever.\<close>

fun quiet_pc :: "thread_pc \<Rightarrow> bool" where
  "quiet_pc (T_push e) = False"
| "quiet_pc (T_ring e) = False"
| "quiet_pc pc \<longleftrightarrow> pc \<noteq> T_release \<and> pc \<noteq> T_stop \<and> pc \<noteq> T_wake"

lemma quiet_pc_step:
  assumes "quiet_pc (sp_pcs v ! t)" "t < length (sp_pcs v)"
  shows "quiet_pc (sp_pcs (spec_step se t v) ! t) \<and> length (sp_pcs (spec_step se t v)) = length (sp_pcs v) \<and>
     sp_accepted (spec_step se t v) = sp_accepted v"
proof (cases "sp_pcs v ! t")
  case (T_write c es)
  with assms show ?thesis by (cases es; cases c) (simp_all add: spec_step_def sp_goto_def)
qed (use assms in \<open>auto simp: spec_step_def sp_goto_def\<close>)

lemma quiet_refines:
  assumes "threads_ok env se n c0 s" "t < length (lt_pcs s)" "quiet_pc (lt_pcs s ! t)"
  shows "\<exists>s'. run_threads env (replicate k (Step t)) s = Inr s' \<and> threads_ok env se n c0 s' \<and>
     view s' = spec_run se (replicate k (Step t)) (view s) \<and> lt_accepted s' = lt_accepted s"
  using assms
proof (induction k arbitrary: s)
  case 0
  then show ?case by simp
next
  case (Suc k)
  have "step_cost (lt_pcs s ! t) = 0" using Suc.prems(3) by (cases "lt_pcs s ! t") simp_all
  with step_refines [of env se n s t c0] Suc.prems(1,2) obtain s1 where
    s1: "thread_step env t s = Inr s1" "threads_ok env se n c0 s1" "view s1 = spec_step se t (view s)"
    by (auto simp: simulated_def)
  have "quiet_pc (lt_pcs s1 ! t) \<and> length (lt_pcs s1) = length (lt_pcs s) \<and> lt_accepted s1 = lt_accepted s"
    using quiet_pc_step [of "view s" t se] Suc.prems(2,3) s1(3) by (metis view_simps(1,3))
  with Suc.IH [of s1] s1 Suc.prems(2) show ?case by simp
qed

section \<open>Schedules\<close>

fun live_thread_event :: "memory \<Rightarrow> thread_event \<Rightarrow> bool" where
  "live_thread_event m (Begin_log t level tag message ts tid) \<longleftrightarrow> m tag \<noteq> None \<and> m message \<noteq> None"
| "live_thread_event m ev \<longleftrightarrow> True"

lemma exec_refines:
  assumes ok: "threads_ok env se (Suc n) c0 s" and live: "live_thread_event (se_memory se) ev"
  shows "simulated env se n c0 (thread_exec env ev s) (spec_exec se ev (view s))"
proof -
  note ok' = threads_ok_less [OF ok, of n, simplified]
  show ?thesis
  proof (cases ev)
    case (Begin_log t level tag message ts tid)
    let ?e = "log_entry (lt_al s) (w_memory (lt_world s)) level tag message ts tid"
    have same: "w_memory (lt_world s) = se_memory se" "al_process_id (lt_al s) = se_process_id se"
      using ok by (auto simp: threads_ok_def holds_def)
    have "readable env (se_memory se) ?e"
      using live Begin_log entry_readable [of "se_memory se" tag message] by (simp add: same)
    then have "simulated env se n c0 (Inr (goto t (T_push ?e) s)) (sp_goto t (T_push ?e) (view s))"
      by (intro simulated_goto [OF ok']) simp_all
    with Begin_log simulated_same [OF ok'] show ?thesis by (simp add: same log_entry_def)
  next
    case (Set_level l)
    have "al_sem (lt_al s) + n \<le> le_sem_max env" using ok by (auto simp: threads_ok_def holds_def)
    then have "threads_ok env se n c0 (s\<lparr>lt_al := (lt_al s)\<lparr>al_min_level := l\<rparr>\<rparr>)"
      by (intro threads_ok_update [OF ok']) simp_all
    from simulated_same [OF this] Set_level show ?thesis by (simp add: setLogLevel_def)
  next
    case (Step t)
    have "step_cost (lt_pcs s ! t) \<le> 1" by (cases "lt_pcs s ! t") simp_all
    with threads_ok_less [OF ok, of "n + step_cost (lt_pcs s ! t)"] step_refines [of env se n s t c0]
      simulated_same [OF ok'] Step show ?thesis by simp
  next
    case (Refuse t)
    show ?thesis
    proof (cases "t < length (lt_pcs s)")
      case True
      with Refuse threads_ok_carried [OF ok' True] show ?thesis
        by (cases "lt_pcs s ! t") (auto intro!: simulated_goto [OF ok'] simulated_same [OF ok'])
    next
      case False
      with Refuse simulated_same [OF ok'] show ?thesis by simp
    qed
  qed (use ok' in \<open>auto intro!: simulated_same simulated_goto\<close>)
qed

text \<open>So the interleaved logger refines the abstract machine, with \<open>view\<close> as the relation.\<close>

definition shows_as :: "'k logger_env \<Rightarrow> spec_env \<Rightarrow> string \<Rightarrow> nat \<Rightarrow> 'k threads \<Rightarrow> spec \<Rightarrow> bool" where
  "shows_as env se c0 n s v \<longleftrightarrow> threads_ok env se n c0 s \<and> view s = v"

interpretation threads: budgeted_refinement
  "thread_exec env" "spec_exec se" "shows_as env se c0" "live_thread_event (se_memory se)"
  for env :: "'k logger_env" and se c0
  by unfold_locales (use exec_refines in \<open>auto simp: shows_as_def simulated_def\<close>)

lemma run_threads_all: "run_threads env evs s = run_all (thread_exec env) evs s"
  by (induction evs arbitrary: s) (simp_all split: sum.splits)

lemma run_refines:
  assumes "threads_ok env se (length evs + n) c0 s" "list_all (live_thread_event (se_memory se)) evs"
  shows "simulated env se n c0 (run_threads env evs s) (spec_run se evs (view s))"
  using threads.run_related [of env se c0 evs n s "view s"] assms
  by (simp add: shows_as_def simulated_def run_threads_all spec_run_def)

end
