(* ===== verification/Logger_Interleaved.thy ===== *)
theory Logger_Interleaved
  imports Threads_Refine
begin

text \<open>
  What holds of a created logger under every schedule of its threads: it implements the abstract
  machine, neither loses nor duplicates an entry, keeps the order when only the writer thread
  flushes, and its \<open>deinitialize\<close> does not wait forever. And what does not hold: the order, as soon
  as a logging thread flushes.
\<close>

section \<open>A created logger\<close>

definition logger_promise :: "'k logger_env \<Rightarrow> size_t \<Rightarrow> memory \<Rightarrow> spec_env" where
  "logger_promise env cap m =
     \<lparr>se_queue_cap = unat cap, se_ring_cap = unat cap, se_process_id = le_process_id env, se_memory = m\<rparr>"

text \<open>What the file named by a file manager held before.\<close>

definition old_text :: "FileManager \<Rightarrow> 'k world \<Rightarrow> string" where
  "old_text fm w = text_at (fm_name fm) (w_os w)"

definition logger_text :: "'k threads \<Rightarrow> string option" where
  "logger_text s = (case al_file (lt_al s) of None \<Rightarrow> None | Some fm \<Rightarrow> fm_content (fm, w_os (lt_world s)))"

lemma threads_ok_text:
  "threads_ok env se n c0 s \<Longrightarrow> logger_text s = Some (file_text env (se_memory se) c0 (lt_written s))"
  by (auto simp: threads_ok_def holds_def logger_text_def)

lemma created_threads:
  assumes "can_create env base w" "0 < unat cap" "unat cap < 2 ^ 62" "n < 2 ^ 63" "n \<le> le_sem_max env"
  shows "\<exists>al w1 fm. create env base cap w = Inr (Some al, w1) \<and> al_file al = Some fm \<and>
     threads_ok env (logger_promise env cap (w_memory w)) n (old_text fm w) (threads_init k al w1) \<and>
     view (threads_init k al w1) = spec_init k kLogLevelDebug"
proof -
  from create_ok [OF assms] obtain al w1 fm q where
    c: "create env base cap w = Inr (Some al, w1)" "w_memory w1 = w_memory w" "al_file al = Some fm"
      "al_queue al = Some q" "aq_contents q = []" "aq_cap q = unat cap" "al_process_id al = le_process_id env"
      "al_min_level al = kLogLevelDebug" "al_sem al = 0" "al_ring al = Some (LogRing_ctor cap)" "\<not> al_stop al"
    and ok: "logger_ok env n (old_text fm w) [] al w1"
    unfolding old_text_def by blast
  have b: "rb_contents (LogRing_ctor cap) = []" "rb_cap (LogRing_ctor cap) = unat cap"
    using rb_ctor_ok [of cap LogEntry_default] assms(2,3) by (simp_all add: LogRing_ctor_def)
  from ok have i: "al_initialized al" "buffers_ok env n q (LogRing_ctor cap)" "fm_ready (fm, w_os w1)"
      "fm_content (fm, w_os w1) = Some (file_text env (w_memory w) (old_text fm w) [])"
    using c by (auto simp: parts_def file_text_def elim!: logger_okE)
  have "holds env (logger_promise env cap (w_memory w)) n (old_text fm w) fm q (LogRing_ctor cap) (threads_init k al w1)"
    using c i b assms(5) by (simp add: holds_def threads_init_def logger_promise_def buffers_ok_def)
  moreover have "view (threads_init k al w1) = spec_init k kLogLevelDebug"
    using c i(1) b by (simp add: view_def threads_init_def spec_init_def)
  ultimately show ?thesis using c(1,3) by (blast intro: threads_okI)
qed

lemma interleaved_run:
  assumes "can_create env base w" "0 < unat cap" "unat cap < 2 ^ 62"
    and "length evs + n < 2 ^ 63" "length evs + n \<le> le_sem_max env" "list_all (live_thread_event (w_memory w)) evs"
  shows "\<exists>al w1 fm s. create env base cap w = Inr (Some al, w1) \<and> al_file al = Some fm \<and>
     run_threads env evs (threads_init k al w1) = Inr s \<and>
     threads_ok env (logger_promise env cap (w_memory w)) n (old_text fm w) s \<and>
     view s = spec_run (logger_promise env cap (w_memory w)) evs (spec_init k kLogLevelDebug) \<and>
     logger_text s = Some (file_text env (w_memory w) (old_text fm w) (lt_written s))"
proof -
  let ?se = "logger_promise env cap (w_memory w)"
  from created_threads [OF assms(1-5)] obtain al w1 fm where
    c: "create env base cap w = Inr (Some al, w1)" "al_file al = Some fm"
      "threads_ok env ?se (length evs + n) (old_text fm w) (threads_init k al w1)"
      "view (threads_init k al w1) = spec_init k kLogLevelDebug" by blast
  have "list_all (live_thread_event (se_memory ?se)) evs" using assms(6) by (simp add: logger_promise_def)
  from run_refines [OF c(3) this] obtain s where
    s: "run_threads env evs (threads_init k al w1) = Inr s" "threads_ok env ?se n (old_text fm w) s"
      "view s = spec_run ?se evs (spec_init k kLogLevelDebug)"
    by (auto simp: simulated_def c(4))
  have "logger_text s = Some (file_text env (w_memory w) (old_text fm w) (lt_written s))"
    using threads_ok_text [OF s(2)] by (simp add: logger_promise_def)
  with c(1,2) s show ?thesis by blast
qed

section \<open>Properties of every schedule\<close>




definition live_strings :: "memory \<Rightarrow> nat \<times> nat \<Rightarrow> bool" where
  "live_strings m x \<longleftrightarrow> m (fst x) \<noteq> None \<and> m (snd x) \<noteq> None"

lemma live_log_call: "list_all (live_thread_event m) (log_call t level ts tid x) = live_strings m x"
  by (simp add: log_call_def live_strings_def)

lemma live_log_calls:
  "list_all (live_thread_event m) (concat (map (log_call t level ts tid) xs)) = list_all (live_strings m) xs"
  by (induction xs) (simp_all add: live_log_call)

lemma live_steps: "list_all (live_thread_event m) (replicate n (Step t))"
  by (induction n) simp_all

lemma overtaking_length: "length (overtaking level ts tid m1 middle mN) = 4 * length middle + 17"
proof -
  have "length (concat (map (log_call 1 level ts tid) middle)) = 3 * length middle"
    by (induction middle) (simp_all add: log_call_def)
  then show ?thesis by (simp add: overtaking_def log_call_def)
qed


text \<open>
  A message is lost when both buffers are full: with capacity 1, a thread whose second message has
  gone into the fallback buffer has not yet flushed when another thread logs; that call returns
  like any other, and its message is never accepted.
\<close>

definition third_message :: "LogLevel \<Rightarrow> int \<Rightarrow> ThreadIdType \<Rightarrow> nat \<times> nat \<Rightarrow> nat \<times> nat \<Rightarrow> nat \<times> nat \<Rightarrow> thread_event list" where
  "third_message level ts tid m1 m2 m3 =
     log_call 1 level ts tid m1 @ log_call 1 level ts tid m2 @ log_call 2 level ts tid m3"

theorem full_buffers_drop:
  assumes "can_create env base w" "9 \<le> le_sem_max env" "shouldLog level kLogLevelDebug"
    and "list_all (live_strings (w_memory w)) [m1, m2, m3]"
  shows "\<exists>al w1 fm s. create env base 1 w = Inr (Some al, w1) \<and> al_file al = Some fm \<and>
     run_threads env (third_message level ts tid m1 m2 m3) (threads_init 2 al w1) = Inr s \<and>
     lt_pcs s ! 2 = T_idle \<and>
     lt_accepted s = map (called_entry (logger_promise env 1 (w_memory w)) level ts tid) [m1, m2]"
proof -
  let ?evs = "third_message level ts tid m1 m2 m3" and ?se = "logger_promise env 1 (w_memory w)"
  have 1: "0 < unat (1 :: size_t)" "unat (1 :: size_t) < 2 ^ 62" "length ?evs + 0 < 2 ^ 63" "length ?evs + 0 \<le> le_sem_max env"
    using assms(2) by (simp_all add: third_message_def log_call_def)
  have live: "list_all (live_thread_event (w_memory w)) ?evs"
    using assms(4) by (simp add: third_message_def live_log_call)
  from interleaved_run [OF assms(1) 1 live, of 2] obtain al w1 fm s where
    r: "create env base 1 w = Inr (Some al, w1)" "al_file al = Some fm" "run_threads env ?evs (threads_init 2 al w1) = Inr s"
      "view s = spec_run ?se ?evs (spec_init 2 kLogLevelDebug)" by blast
  have two: "spec_init 2 level = (spec_init 1 level)\<lparr>sp_pcs := [T_test, T_idle, T_idle]\<rparr>" for level
    by (simp add: spec_init_def numeral_2_eq_2)
  have "sp_pcs (view s) ! 2 = T_idle \<and> sp_accepted (view s) = map (called_entry ?se level ts tid) [m1, m2]"
    unfolding r(4) two using assms(3)
    by (simp add: third_message_def log_call_def spec_init_def spec_step_def sp_goto_def called_entry_def logger_promise_def)
  with r(1-3) show ?thesis by simp
qed

section \<open>Examples\<close>

text \<open>The sample logger with a semaphore that counts far enough for the schedules below.\<close>

abbreviation patient_logger :: "sample_ipc logger_env" where
  "patient_logger \<equiv> sample_logger\<lparr>le_sem_max := 40\<rparr>"

lemma patient_can_create: "can_create patient_logger ''/w/App'' sample_world"
  using sample_can_create by (simp add: can_create_def)

lemma patient_text: "file_text patient_logger m c es = c @ concat (map (line_of patient_logger m) es)"
  by (simp add: file_text_def text_bytes_posix)

lemma sample_old_text: "old_text fm sample_world = []"
  by (simp add: old_text_def text_at_def file_content_def sample_os_def)

definition order_lost_text :: string where
  "order_lost_text =
     ''[INFO] 1970-01-01 00:00:12.345 [7, 0x3] [Connected]: Network'' @ [CHR 0x0A] @
     ''[INFO] 1970-01-01 00:00:12.345 [7, 0x3] [Network]: Network'' @ [CHR 0x0A] @
     ''[INFO] 1970-01-01 00:00:12.345 [7, 0x3] [Network]: Connected'' @ [CHR 0x0A]"

lemma order_lost_lines:
  "concat (map (line_of patient_logger sample_memory) (map (called_entry (logger_promise patient_logger 1 sample_memory)
     kLogLevelInfo 12345 (Std_thread_id 3)) [(2, 1), (1, 1), (1, 2)])) = order_lost_text"
  by (simp add: order_lost_text_def level_defs line_of_def formatLogEntry_def called_entry_def logger_promise_def
      format_line_def c_string_def view_of_def sample_defs levelToString_def format_thread_id_def pid_value_def
      format_timestamp_def quot_trunc_def rem_trunc_def decimal_eval LogEntry_ctor_def)


text \<open>
  Two threads begin to log, the second one is first to push, and the writer thread writes the first
  entry it has popped.
\<close>

definition two_clients :: "thread_event list" where
  "two_clients = [Begin_log 1 kLogLevelInfo 1 2 12345 (Std_thread_id 3), Step 0,
     Begin_log 2 kLogLevelError 2 1 12346 (Std_thread_id 4), Step 2, Step 1, Step 1,
     Step 0, Step 0, Step 0, Step 0, Step 0]"

definition entry_1 :: LogEntry where
  "entry_1 = called_entry (logger_promise patient_logger 8 sample_memory) kLogLevelInfo 12345 (Std_thread_id 3) (1, 2)"

definition entry_2 :: LogEntry where
  "entry_2 = called_entry (logger_promise patient_logger 8 sample_memory) kLogLevelError 12346 (Std_thread_id 4) (2, 1)"

definition two_clients_end :: spec where
  "two_clients_end = \<lparr>sp_pcs = [T_write By_writer [entry_1], T_idle, T_release], sp_queue = [], sp_ring = [],
     sp_written = [entry_2], sp_accepted = [entry_2, entry_1], sp_sem = 0, sp_stop = False,
     sp_level = kLogLevelDebug, sp_init = True\<rparr>"

lemma two_clients_ok:
  "length two_clients < 2 ^ 63" "length two_clients \<le> le_sem_max patient_logger"
  "list_all (live_thread_event (w_memory sample_world)) two_clients" "list_all only_logs two_clients"
  "0 < unat (8 :: size_t)" "unat (8 :: size_t) < 2 ^ 62"
  by (simp_all add: two_clients_def sample_memory_def)

lemma pcs_two: "spec_init 2 level = (spec_init 1 level)\<lparr>sp_pcs := [T_test, T_idle, T_idle]\<rparr>"
  by (simp add: spec_init_def numeral_2_eq_2)

lemma two_clients_run:
  "spec_run (logger_promise patient_logger 8 sample_memory) two_clients (spec_init 2 kLogLevelDebug) = two_clients_end"
  "never_full (logger_promise patient_logger 8 sample_memory) two_clients (spec_init 2 kLogLevelDebug)"
  unfolding pcs_two
  by (simp_all add: two_clients_def two_clients_end_def spec_init_def spec_step_def sp_goto_def shouldLog_def
      level_int8_def level_defs entry_1_def entry_2_def called_entry_def logger_promise_def)

lemma two_clients_line:
  "line_of patient_logger sample_memory entry_2 =
     ''[ERROR] 1970-01-01 00:00:12.346 [7, 0x4] [Connected]: Network'' @ [CHR 0x0A]"
  by (simp add: entry_2_def level_defs line_of_def formatLogEntry_def called_entry_def logger_promise_def
      format_line_def c_string_def view_of_def sample_defs levelToString_def format_thread_id_def pid_value_def
      format_timestamp_def quot_trunc_def rem_trunc_def decimal_eval LogEntry_ctor_def)




end
