(* ===== verification/Logger_Join.thy ===== *)
theory Logger_Join
  imports Logger_Interleaved
begin

text \<open>
  The end of a logger under interleaving: the thread in \<open>deinitialize\<close> never waits in vain for the
  writer thread, which always finds its way out once the stop has been requested and the semaphore
  released, and when \<open>deinitialize\<close> has returned, the buffers have been written.
\<close>

section \<open>Threads that run alone\<close>

lemma spec_flush_alone:
  assumes "t < length (sp_pcs v)" "sp_pcs v ! t = T_pop_queue c"
  shows "spec_run se (replicate (length (sp_queue v) + length (sp_ring v) + 3) (Step t)) v =
     v\<lparr>sp_pcs := (sp_pcs v)[t := after_flush c], sp_queue := [], sp_ring := [],
       sp_written := sp_written v @ sp_queue v @ sp_ring v, sp_init := sp_init v \<and> c \<noteq> By_deinitialize\<rparr>"
proof -
  let ?es = "sp_queue v @ sp_ring v"
  define v2 where "v2 = v\<lparr>sp_pcs := (sp_pcs v)[t := T_write c ?es], sp_queue := [], sp_ring := []\<rparr>"
  have two: "spec_run se [Step t, Step t] v = v2"
    using assms by (simp add: spec_step_def sp_goto_def v2_def)
  have "t < length (sp_pcs v2)" "sp_pcs v2 ! t = T_write c ?es" using assms(1) by (simp_all add: v2_def)
  note writes = spec_writes [OF this, of se]
  have split: "replicate (length (sp_queue v) + length (sp_ring v) + 3) (Step t) =
      [Step t, Step t] @ replicate (length ?es) (Step t) @ [Step t]"
    by (simp add: replicate_append_same numeral_3_eq_3)
  show ?thesis
    unfolding split spec_run_append two writes using assms(1)
    by (simp add: spec_step_def sp_goto_def v2_def)
qed

lemma spec_write_alone:
  assumes "t < length (sp_pcs v)" "sp_pcs v ! t = T_write c es" "c \<noteq> By_deinitialize"
  shows "spec_run se (replicate (length es + 1) (Step t)) v =
     v\<lparr>sp_pcs := (sp_pcs v)[t := after_flush c], sp_written := sp_written v @ es\<rparr>"
proof -
  have split: "replicate (length es + 1) (Step t) = replicate (length es) (Step t) @ [Step t]"
    by (simp add: replicate_append_same)
  show ?thesis
    unfolding split spec_run_append spec_writes [OF assms(1,2)] using assms(1,3)
    by (simp add: spec_step_def sp_goto_def)
qed

text \<open>A thread changes no other thread's program counter.\<close>

lemma steps_of_one:
  "t \<noteq> u \<Longrightarrow> length (sp_pcs (spec_run se (replicate n (Step u)) v)) = length (sp_pcs v) \<and>
     sp_pcs (spec_run se (replicate n (Step u)) v) ! t = sp_pcs v ! t"
proof (induction n arbitrary: v)
  case (Suc n)
  have "length (sp_pcs (spec_step se u v)) = length (sp_pcs v) \<and> sp_pcs (spec_step se u v) ! t = sp_pcs v ! t"
  proof (cases "sp_pcs v ! u")
    case (T_write c es)
    with Suc.prems show ?thesis by (cases es) (auto simp: spec_step_def sp_goto_def)
  qed (use Suc.prems in \<open>auto simp: spec_step_def sp_goto_def\<close>)
  with Suc show ?case by simp
qed simp

section \<open>No deadlock\<close>

text \<open>
  The writer's program counters belong to thread 0 alone, and while a thread waits for the writer,
  the stop is requested and a writer thread at the semaphore finds it released.
\<close>

fun client_pc :: "thread_pc \<Rightarrow> bool" where
  "client_pc (T_pop_queue c) \<longleftrightarrow> c = By_client \<or> c = By_deinitialize"
| "client_pc (T_pop_ring c es) \<longleftrightarrow> c = By_client \<or> c = By_deinitialize"
| "client_pc (T_write c es) \<longleftrightarrow> c = By_client \<or> c = By_deinitialize"
| "client_pc pc \<longleftrightarrow> pc \<noteq> T_test \<and> pc \<noteq> T_acquire \<and> pc \<noteq> T_woken \<and> pc \<noteq> T_finished"

definition no_deadlock :: "spec \<Rightarrow> bool" where
  "no_deadlock v \<longleftrightarrow> sp_pcs v \<noteq> [] \<and> writer_pc (sp_pcs v ! 0) \<and>
     (\<forall>t. 0 < t \<and> t < length (sp_pcs v) \<longrightarrow> client_pc (sp_pcs v ! t) \<and>
        (sp_pcs v ! t = T_wake \<longrightarrow> sp_stop v) \<and>
        (sp_pcs v ! t = T_join \<longrightarrow> sp_stop v \<and> (sp_pcs v ! 0 = T_acquire \<longrightarrow> 0 < sp_sem v)))"

lemma no_deadlock_goto_writer:
  assumes "no_deadlock v" "sp_pcs v' = sp_pcs v" "sp_stop v' = sp_stop v" "writer_pc pc"
    "pc = T_acquire \<Longrightarrow> \<not> sp_stop v"
  shows "no_deadlock (sp_goto 0 pc v')"
  using assms by (auto simp: no_deadlock_def sp_goto_def)

lemma no_deadlock_goto_client:
  assumes "no_deadlock v" "0 < t" "sp_pcs v' = sp_pcs v" "sp_stop v \<Longrightarrow> sp_stop v'" "sp_sem v \<le> sp_sem v'" "client_pc pc"
    "pc = T_wake \<Longrightarrow> sp_stop v'" "pc = T_join \<Longrightarrow> sp_stop v' \<and> 0 < sp_sem v'"
  shows "no_deadlock (sp_goto t pc v')"
  unfolding no_deadlock_def
proof (intro conjI allI impI)
  show "sp_pcs (sp_goto t pc v') \<noteq> []" "writer_pc (sp_pcs (sp_goto t pc v') ! 0)"
    using assms(1-3) by (auto simp: no_deadlock_def sp_goto_def)
next
  fix u
  assume u: "0 < u \<and> u < length (sp_pcs (sp_goto t pc v'))"
  then have v: "client_pc (sp_pcs v ! u)" "sp_pcs v ! u = T_wake \<Longrightarrow> sp_stop v"
    "sp_pcs v ! u = T_join \<Longrightarrow> sp_stop v \<and> (sp_pcs v ! 0 = T_acquire \<longrightarrow> 0 < sp_sem v)"
    using assms(1,3) by (simp_all add: no_deadlock_def sp_goto_def)
  have nth: "sp_pcs (sp_goto t pc v') ! u = (if u = t then pc else sp_pcs v ! u)"
    "sp_pcs (sp_goto t pc v') ! 0 = sp_pcs v ! 0"
    using u assms(2,3) by (simp_all add: sp_goto_def nth_list_update)
  have fields: "sp_stop (sp_goto t pc v') = sp_stop v'" "sp_sem (sp_goto t pc v') = sp_sem v'"
    by (simp_all add: sp_goto_def)
  show "client_pc (sp_pcs (sp_goto t pc v') ! u)" using v(1) assms(6) by (simp add: nth)
  show "sp_stop (sp_goto t pc v')" if "sp_pcs (sp_goto t pc v') ! u = T_wake"
    using v(2) assms(4,7) that by (auto simp: nth fields split: if_splits)
  show "sp_stop (sp_goto t pc v')" if "sp_pcs (sp_goto t pc v') ! u = T_join"
    using v(3) assms(4,8) that by (auto simp: nth fields split: if_splits)
  show "0 < sp_sem (sp_goto t pc v')" if "sp_pcs (sp_goto t pc v') ! u = T_join" "sp_pcs (sp_goto t pc v') ! 0 = T_acquire"
    using v(3) assms(5,8) that by (auto simp: nth fields split: if_splits)
qed

lemma no_deadlock_writer:
  assumes "no_deadlock v"
  shows "no_deadlock (spec_step se 0 v)"
proof -
  note go = no_deadlock_goto_writer [OF assms]
  have w: "writer_pc (sp_pcs v ! 0)" using assms by (simp add: no_deadlock_def)
  show ?thesis
  proof (cases "sp_pcs v ! 0")
    case (T_write c es)
    with w show ?thesis by (cases es; cases c) (auto simp: spec_step_def intro!: go)
  qed (use w assms in \<open>auto simp: spec_step_def intro!: go\<close>)
qed

lemma no_deadlock_client:
  assumes "no_deadlock v" "0 < t" "t < length (sp_pcs v)"
  shows "no_deadlock (spec_step se t v)"
proof -
  note go = no_deadlock_goto_client [OF assms(1,2)]
  have c: "client_pc (sp_pcs v ! t)" and wake: "sp_pcs v ! t = T_wake \<Longrightarrow> sp_stop v"
    using assms by (simp_all add: no_deadlock_def)
  show ?thesis
  proof (cases "sp_pcs v ! t")
    case (T_write c' es)
    with c show ?thesis by (cases es; cases c') (auto simp: spec_step_def intro!: go)
  next
    case T_wake
    with wake show ?thesis by (auto simp: spec_step_def intro!: go)
  qed (use c assms in \<open>auto simp: spec_step_def intro!: go\<close>)
qed

lemma no_deadlock_exec:
  assumes "no_deadlock v"
  shows "no_deadlock (spec_exec se ev v)"
proof -
  have t: "0 < t" if "sp_pcs v ! t = T_idle \<or> sp_pcs v ! t = T_push e" for t e
    using that assms by (cases "t = 0") (auto simp: no_deadlock_def)
  note go = no_deadlock_goto_client [OF assms t]
  show ?thesis
  proof (cases ev)
    case (Step t)
    with no_deadlock_writer [OF assms, of se] no_deadlock_client [OF assms, of t se] assms
    show ?thesis by (cases "t = 0") auto
  next
    case (Set_level l)
    with assms show ?thesis by (simp add: no_deadlock_def)
  qed (use assms in \<open>auto intro!: go split: thread_pc.split\<close>)
qed

interpretation deadlock: event_invariant "spec_exec se" no_deadlock for se
  by unfold_locales (rule no_deadlock_exec)

lemma no_deadlock_run: "no_deadlock v \<Longrightarrow> no_deadlock (spec_run se evs v)"
  unfolding spec_run_def by (rule deadlock.inv_fold)

lemma no_deadlock_init: "no_deadlock (spec_init n level)"
  by (auto simp: no_deadlock_def spec_init_def gr0_conv_Suc)

section \<open>The writer thread comes to its end\<close>

definition finishes :: "spec_env \<Rightarrow> spec \<Rightarrow> bool" where
  "finishes se v \<longleftrightarrow> (\<exists>n. sp_pcs (spec_run se (replicate n (Step 0)) v) = (sp_pcs v)[0 := T_finished])"

lemma finishes_later:
  assumes "spec_run se (replicate k (Step 0)) v = v1" "sp_pcs v1 = (sp_pcs v)[0 := pc]" "finishes se v1"
  shows "finishes se v"
proof -
  from assms(3) obtain n where "sp_pcs (spec_run se (replicate n (Step 0)) v1) = (sp_pcs v1)[0 := T_finished]"
    by (auto simp: finishes_def)
  then have "sp_pcs (spec_run se (replicate (k + n) (Step 0)) v) = (sp_pcs v)[0 := T_finished]"
    using assms(1,2) by (simp add: replicate_add spec_run_append)
  then show ?thesis unfolding finishes_def by blast
qed

lemma finishes_step:
  assumes "sp_pcs v \<noteq> []" "spec_step se 0 v = v1" "sp_pcs v1 = (sp_pcs v)[0 := pc]" "finishes se v1"
  shows "finishes se v"
proof (rule finishes_later)
  show "spec_run se (replicate 1 (Step 0)) v = v1" using assms(1,2) by simp
qed (rule assms(3,4))+

lemma finishes_done:
  assumes "sp_pcs v ! 0 = T_finished" shows "finishes se v"
  unfolding finishes_def using assms by (intro exI [of _ 0]) (metis list_update_id spec_run_simps(1) replicate_0)

lemma finishes_test:
  assumes "sp_pcs v \<noteq> []" "sp_pcs v ! 0 = T_test" "sp_stop v"
  shows "finishes se v"
proof (rule finishes_step [OF assms(1)])
  show "spec_step se 0 v = sp_goto 0 T_finished v" using assms(2,3) by (simp add: spec_step_def)
  show "sp_pcs (sp_goto 0 T_finished v) = (sp_pcs v)[0 := T_finished]" by (simp add: sp_goto_def)
  show "finishes se (sp_goto 0 T_finished v)" using assms(1) by (intro finishes_done) (simp add: sp_goto_def)
qed

lemma finishes_after_flush:
  assumes "sp_pcs v \<noteq> []" "sp_pcs v ! 0 = after_flush c" "c = By_writer \<or> c = By_writer_last" "sp_stop v"
  shows "finishes se v"
  using assms finishes_test [OF assms(1) _ assms(4)] finishes_done [of v] by auto

lemma finishes_write:
  assumes "sp_pcs v \<noteq> []" "sp_pcs v ! 0 = T_write c es" "c = By_writer \<or> c = By_writer_last" "sp_stop v"
  shows "finishes se v"
proof (rule finishes_later)
  show "spec_run se (replicate (length es + 1) (Step 0)) v =
      v\<lparr>sp_pcs := (sp_pcs v)[0 := after_flush c], sp_written := sp_written v @ es\<rparr>"
    using assms by (intro spec_write_alone) auto
  show "finishes se (v\<lparr>sp_pcs := (sp_pcs v)[0 := after_flush c], sp_written := sp_written v @ es\<rparr>)"
    using assms by (intro finishes_after_flush [of _ c]) simp_all
qed simp

lemma finishes_pop_queue:
  assumes "sp_pcs v \<noteq> []" "sp_pcs v ! 0 = T_pop_queue c" "c = By_writer \<or> c = By_writer_last" "sp_stop v"
  shows "finishes se v"
proof (rule finishes_later)
  let ?v = "v\<lparr>sp_pcs := (sp_pcs v)[0 := after_flush c], sp_queue := [], sp_ring := [],
       sp_written := sp_written v @ sp_queue v @ sp_ring v, sp_init := sp_init v \<and> c \<noteq> By_deinitialize\<rparr>"
  show "spec_run se (replicate (length (sp_queue v) + length (sp_ring v) + 3) (Step 0)) v = ?v"
    using assms by (intro spec_flush_alone) auto
  show "finishes se ?v" using assms by (intro finishes_after_flush [of _ c]) simp_all
qed simp

lemma finishes_woken:
  assumes "sp_pcs v \<noteq> []" "sp_pcs v ! 0 = T_woken" "sp_stop v"
  shows "finishes se v"
proof (rule finishes_step [OF assms(1)])
  let ?v = "sp_goto 0 (T_pop_queue By_writer_last) v"
  show "spec_step se 0 v = ?v" using assms(2,3) by (simp add: spec_step_def)
  show "finishes se ?v" using assms by (intro finishes_pop_queue [of _ By_writer_last]) (simp_all add: sp_goto_def)
qed (simp add: sp_goto_def)

lemma finishes_acquire:
  assumes "sp_pcs v \<noteq> []" "sp_pcs v ! 0 = T_acquire" "sp_stop v" "0 < sp_sem v"
  shows "finishes se v"
proof (rule finishes_step [OF assms(1)])
  let ?v = "sp_goto 0 T_woken (v\<lparr>sp_sem := sp_sem v - 1\<rparr>)"
  show "spec_step se 0 v = ?v" using assms(2,4) by (simp add: spec_step_def)
  show "finishes se ?v" using assms by (intro finishes_woken) (simp_all add: sp_goto_def)
qed (simp add: sp_goto_def)

lemma finishes_pop_ring:
  assumes "sp_pcs v \<noteq> []" "sp_pcs v ! 0 = T_pop_ring c es" "c = By_writer \<or> c = By_writer_last" "sp_stop v"
  shows "finishes se v"
proof (rule finishes_step [OF assms(1)])
  let ?v = "sp_goto 0 (T_write c (es @ sp_ring v)) (v\<lparr>sp_ring := []\<rparr>)"
  show "spec_step se 0 v = ?v" using assms(2) by (simp add: spec_step_def)
  show "finishes se ?v"
    using assms by (intro finishes_write [of _ c "es @ sp_ring v"]) (simp_all add: sp_goto_def)
qed (simp add: sp_goto_def)

lemma writer_finishes:
  assumes "no_deadlock v" "0 < t" "t < length (sp_pcs v)" "sp_pcs v ! t = T_join"
  shows "finishes se v"
proof -
  have v: "sp_pcs v \<noteq> []" "writer_pc (sp_pcs v ! 0)" "sp_stop v" "sp_pcs v ! 0 = T_acquire \<Longrightarrow> 0 < sp_sem v"
    using assms by (auto simp: no_deadlock_def)
  note ends = finishes_test finishes_acquire finishes_woken finishes_pop_queue finishes_pop_ring finishes_write
  show ?thesis
    by (cases "sp_pcs v ! 0") (use v ends [OF v(1)] finishes_done in auto)
qed

lemma spec_deinitialize_returns:
  assumes "no_deadlock v" "0 < t" "t < length (sp_pcs v)" "sp_pcs v ! t = T_join"
  shows "\<exists>n m. let v' = spec_run se (replicate n (Step 0) @ replicate m (Step t)) v
     in sp_pcs v' = (sp_pcs v)[0 := T_finished, t := T_idle] \<and> \<not> sp_init v' \<and> sp_queue v' = [] \<and> sp_ring v' = []"
proof -
  from writer_finishes [OF assms] obtain n where
    n: "sp_pcs (spec_run se (replicate n (Step 0)) v) = (sp_pcs v)[0 := T_finished]" by (auto simp: finishes_def)
  define v1 where "v1 = spec_run se (replicate n (Step 0)) v"
  define v2 where "v2 = sp_goto t (T_pop_queue By_deinitialize) v1"
  have t: "t < length (sp_pcs v2)" "sp_pcs v2 ! t = T_pop_queue By_deinitialize"
    using assms(3) n by (simp_all add: v1_def v2_def sp_goto_def)
  have "spec_exec se (Step t) v1 = v2"
    using assms(2-4) n by (cases "sp_pcs v") (simp_all add: v1_def v2_def spec_step_def)
  then have "spec_run se (replicate (Suc (length (sp_queue v2) + length (sp_ring v2) + 3)) (Step t)) v1 =
      v2\<lparr>sp_pcs := (sp_pcs v2)[t := T_idle], sp_queue := [], sp_ring := [],
       sp_written := sp_written v2 @ sp_queue v2 @ sp_ring v2, sp_init := False\<rparr>"
    unfolding replicate_Suc spec_run_simps(2) using spec_flush_alone [OF t, of se] by simp
  then show ?thesis
    using n by (intro exI [of _ n] exI [of _ "Suc (length (sp_queue v2) + length (sp_ring v2) + 3)"])
      (simp add: spec_run_append v1_def [symmetric] Let_def v2_def sp_goto_def del: replicate_Suc)
qed

section \<open>The interleaved logger\<close>

lemma writer_pc_quiet: "writer_pc pc \<Longrightarrow> quiet_pc pc"
  by (cases pc) simp_all

lemma deinitialize_returns:
  assumes ok: "threads_ok env se n c0 s" and v: "no_deadlock (view s)" "balanced (view s)"
    and t: "0 < t" "t < length (lt_pcs s)" "lt_pcs s ! t = T_join"
  shows "\<exists>i j s'. run_threads env (replicate i (Step 0) @ replicate j (Step t)) s = Inr s' \<and>
     lt_pcs s' = (lt_pcs s)[0 := T_finished, t := T_idle] \<and> \<not> al_initialized (lt_al s') \<and>
     logger_text s' = Some (file_text env (se_memory se) c0 (lt_written s')) \<and>
     mset (lt_written s') + mset (concat (map in_hand (lt_pcs s'))) = mset (lt_accepted s)"
proof -
  from spec_deinitialize_returns [OF v(1), of t se] t obtain i j where
    v': "sp_pcs (spec_run se (replicate i (Step 0) @ replicate j (Step t)) (view s)) = (lt_pcs s)[0 := T_finished, t := T_idle]"
      "\<not> sp_init (spec_run se (replicate i (Step 0) @ replicate j (Step t)) (view s))"
      "sp_queue (spec_run se (replicate i (Step 0) @ replicate j (Step t)) (view s)) = []"
      "sp_ring (spec_run se (replicate i (Step 0) @ replicate j (Step t)) (view s)) = []"
    unfolding Let_def by auto
  have "quiet_pc (lt_pcs s ! 0)" "0 < length (lt_pcs s)"
    using v(1) t(2) by (auto simp: no_deadlock_def intro: writer_pc_quiet)
  from quiet_refines [OF ok this(2,1), of i] obtain s1 where
    s1: "run_threads env (replicate i (Step 0)) s = Inr s1" "threads_ok env se n c0 s1"
      "view s1 = spec_run se (replicate i (Step 0)) (view s)" "lt_accepted s1 = lt_accepted s" by blast
  have same: "length (lt_pcs s1) = length (lt_pcs s)" "lt_pcs s1 ! t = lt_pcs s ! t"
    using steps_of_one [of t 0 se i "view s"] s1(3) [symmetric] t(1) by simp_all
  have "t < length (lt_pcs s1)" "quiet_pc (lt_pcs s1 ! t)" using same t(2,3) by simp_all
  from quiet_refines [OF s1(2) this, of j] obtain s' where
    s': "run_threads env (replicate j (Step t)) s1 = Inr s'" "threads_ok env se n c0 s'"
      "view s' = spec_run se (replicate j (Step t)) (view s1)" "lt_accepted s' = lt_accepted s1" by blast
  have view: "view s' = spec_run se (replicate i (Step 0) @ replicate j (Step t)) (view s)"
    using s'(3) s1(3) by (simp add: spec_run_append)
  have "balanced (view s')" unfolding view by (rule balanced_run [OF v(2)])
  then have "mset (lt_written s') + mset (concat (map in_hand (lt_pcs s'))) = mset (lt_accepted s)"
    using v'(3,4) s'(4) s1(4) by (simp add: balanced_def in_flight_def view [symmetric])
  moreover have "lt_pcs s' = (lt_pcs s)[0 := T_finished, t := T_idle]" "\<not> al_initialized (lt_al s')"
    using v'(1,2) by (simp_all add: view [symmetric])
  ultimately show ?thesis
    using s1(1) s'(1) threads_ok_text [OF s'(2)]
    by (intro exI [of _ i] exI [of _ j] exI [of _ s']) (simp add: run_threads_all run_all_append)
qed


text \<open>A thread logs and deinitializes; the writer thread has not started when the thread waits for it.\<close>

definition log_and_end :: "thread_event list" where
  "log_and_end = [Begin_log 1 kLogLevelError 2 1 12346 (Std_thread_id 4), Step 1, Step 1,
     Begin_deinitialize 1, Step 1, Step 1]"

lemma log_and_end_run:
  "spec_run (logger_promise patient_logger 8 sample_memory) log_and_end (spec_init 1 kLogLevelDebug) =
     \<lparr>sp_pcs = [T_test, T_join], sp_queue = [entry_2], sp_ring = [], sp_written = [], sp_accepted = [entry_2],
      sp_sem = 2, sp_stop = True, sp_level = kLogLevelDebug, sp_init = True\<rparr>"
  by (simp add: log_and_end_def spec_init_def spec_step_def sp_goto_def shouldLog_def
      level_int8_def level_defs entry_2_def called_entry_def logger_promise_def)

lemma log_and_end_ok:
  "length log_and_end < 2 ^ 63" "length log_and_end \<le> le_sem_max patient_logger"
  "list_all (live_thread_event (w_memory sample_world)) log_and_end"
  by (simp_all add: log_and_end_def sample_memory_def)

lemma created_log_and_end:
  assumes "create patient_logger ''/w/App'' 8 sample_world = Inr (Some al, w1)"
    "run_threads patient_logger log_and_end (threads_init 1 al w1) = Inr s"
  shows "lt_pcs s = [T_test, T_join]" "lt_accepted s = [entry_2]"
proof -
  from interleaved_run [OF patient_can_create two_clients_ok(5,6), of log_and_end 0 1] log_and_end_ok assms
  have "view s = spec_run (logger_promise patient_logger 8 sample_memory) log_and_end (spec_init 1 kLogLevelDebug)"
    by auto
  then have "sp_pcs (view s) = [T_test, T_join] \<and> sp_accepted (view s) = [entry_2]" unfolding log_and_end_run by simp
  then show "lt_pcs s = [T_test, T_join]" "lt_accepted s = [entry_2]" by simp_all
qed


end
