(* ===== verification/Logger_Wakeup.thy ===== *)
theory Logger_Wakeup
  imports Logger_Join
begin

text \<open>
  No wake-up of the writer thread is lost: whatever is in the buffers, the semaphore is released or a
  thread is about to release it or to take the entries itself. So, as long as no stop is requested,
  the writer thread alone writes everything that was accepted, and then waits for more.
\<close>

section \<open>Somebody serves the buffers\<close>

fun serves_queue :: "thread_pc \<Rightarrow> bool" where
  "serves_queue (T_pop_queue c) = True"
| "serves_queue pc \<longleftrightarrow> pc = T_release \<or> pc = T_woken"

fun serves_ring :: "thread_pc \<Rightarrow> bool" where
  "serves_ring (T_pop_queue c) = True"
| "serves_ring (T_pop_ring c es) = True"
| "serves_ring pc = False"

definition wakes :: "spec \<Rightarrow> bool" where
  "wakes v \<longleftrightarrow>
     (sp_queue v \<noteq> [] \<longrightarrow> 0 < sp_sem v \<or> list_ex serves_queue (sp_pcs v)) \<and>
     (sp_ring v \<noteq> [] \<longrightarrow> list_ex serves_ring (sp_pcs v))"

lemma list_ex_update:
  assumes "t < length xs" "P x \<or> list_ex P xs \<and> \<not> P (xs ! t)"
  shows "list_ex P (xs[t := x])"
proof (cases "P x")
  case True
  with assms(1) show ?thesis by (auto simp: list_ex_length intro!: exI [of _ t])
next
  case False
  with assms obtain u where "u < length xs" "P (xs ! u)" "u \<noteq> t" by (auto simp: list_ex_length)
  then show ?thesis by (auto simp: list_ex_length intro!: exI [of _ u])
qed

lemma wakes_goto:
  assumes "wakes v" "t < length (sp_pcs v)" "sp_pcs v' = sp_pcs v"
    and "sp_queue v' \<noteq> [] \<Longrightarrow> 0 < sp_sem v' \<or> serves_queue pc \<or>
      sp_queue v \<noteq> [] \<and> sp_sem v = sp_sem v' \<and> \<not> serves_queue (sp_pcs v ! t)"
    and "sp_ring v' \<noteq> [] \<Longrightarrow> serves_ring pc \<or> sp_ring v \<noteq> [] \<and> \<not> serves_ring (sp_pcs v ! t)"
  shows "wakes (sp_goto t pc v')"
proof -
  have "0 < sp_sem v' \<or> list_ex serves_queue ((sp_pcs v)[t := pc])" if "sp_queue v' \<noteq> []"
    using assms(1) assms(4) [OF that] list_ex_update [OF assms(2), of serves_queue pc] by (auto simp: wakes_def)
  moreover have "list_ex serves_ring ((sp_pcs v)[t := pc])" if "sp_ring v' \<noteq> []"
    using assms(1) assms(5) [OF that] list_ex_update [OF assms(2), of serves_ring pc] by (auto simp: wakes_def)
  ultimately show ?thesis using assms(3) by (simp add: wakes_def sp_goto_def)
qed

lemma wakes_step:
  assumes "wakes v" "t < length (sp_pcs v)"
  shows "wakes (spec_step se t v)"
proof -
  note go = wakes_goto [OF assms]
  show ?thesis
  proof (cases "sp_pcs v ! t")
    case (T_write c es)
    then show ?thesis by (cases es; cases c) (auto simp: spec_step_def intro!: go)
  qed (use assms(1) in \<open>auto simp: spec_step_def intro!: go\<close>)
qed

lemma wakes_exec: "wakes v \<Longrightarrow> wakes (spec_exec se ev v)"
proof (cases ev)
  case (Set_level l)
  then show "wakes v \<Longrightarrow> ?thesis" by (simp add: wakes_def)
qed (auto intro!: wakes_goto wakes_step split: thread_pc.split)

text \<open>
  The writer thread ends only when it has seen the stop, and \<open>deinitialize\<close> wakes it, waits for it and
  flushes only after having requested it.
\<close>

fun ending :: "thread_pc \<Rightarrow> bool" where
  "ending (T_pop_queue c) \<longleftrightarrow> c = By_writer_last \<or> c = By_deinitialize"
| "ending (T_pop_ring c es) \<longleftrightarrow> c = By_writer_last \<or> c = By_deinitialize"
| "ending (T_write c es) \<longleftrightarrow> c = By_writer_last \<or> c = By_deinitialize"
| "ending pc \<longleftrightarrow> pc = T_wake \<or> pc = T_join \<or> pc = T_finished"

definition ends_stopped :: "spec \<Rightarrow> bool" where
  "ends_stopped v \<longleftrightarrow> list_ex ending (sp_pcs v) \<longrightarrow> sp_stop v"

lemma ends_stopped_goto:
  assumes "ends_stopped v" "sp_pcs v' = sp_pcs v" "t < length (sp_pcs v)"
    "sp_stop v \<Longrightarrow> sp_stop v'" "ending pc \<Longrightarrow> sp_stop v' \<or> ending (sp_pcs v ! t)"
  shows "ends_stopped (sp_goto t pc v')"
proof -
  have "list_ex ending (sp_pcs v) \<or> sp_stop v'" if "list_ex ending ((sp_pcs v)[t := pc])"
  proof -
    from that obtain u where u: "u < length (sp_pcs v)" "ending ((sp_pcs v)[t := pc] ! u)"
      by (auto simp: list_ex_length)
    show ?thesis using u assms(3,5) by (cases "u = t") (auto simp: list_ex_length)
  qed
  then show ?thesis using assms(1,2,4) by (auto simp: ends_stopped_def sp_goto_def)
qed

lemma ends_stopped_step:
  assumes "ends_stopped v" "t < length (sp_pcs v)"
  shows "ends_stopped (spec_step se t v)"
proof -
  note go = ends_stopped_goto [OF assms(1) _ assms(2)]
  show ?thesis
  proof (cases "sp_pcs v ! t")
    case (T_write c es)
    then show ?thesis by (cases es; cases c) (auto simp: spec_step_def intro!: go)
  qed (use assms(1) in \<open>auto simp: spec_step_def intro!: go\<close>)
qed

lemma ends_stopped_exec: "ends_stopped v \<Longrightarrow> ends_stopped (spec_exec se ev v)"
proof (cases ev)
  case (Set_level l)
  then show "ends_stopped v \<Longrightarrow> ?thesis" by (simp add: ends_stopped_def)
qed (auto intro!: ends_stopped_goto ends_stopped_step split: thread_pc.split)

section \<open>What holds along every schedule\<close>

definition lively :: "spec \<Rightarrow> bool" where
  "lively v \<longleftrightarrow> no_deadlock v \<and> wakes v \<and> ends_stopped v"

interpretation live: event_invariant "spec_exec se" lively for se
  by unfold_locales (simp add: lively_def no_deadlock_exec wakes_exec ends_stopped_exec)

lemma lively_init: "lively (spec_init n level)"
proof -
  have "list_ex ending (sp_pcs (spec_init n level)) = False" by (simp add: spec_init_def list_ex_iff)
  then show ?thesis using no_deadlock_init [of n level] by (simp add: lively_def wakes_def ends_stopped_def) (simp add: spec_init_def)
qed

lemma lively_run: "lively (spec_run se evs (spec_init n level))"
  unfolding spec_run_def by (rule live.inv_fold [OF lively_init])

section \<open>The writer thread comes to rest\<close>

text \<open>
  Other threads may stand before their push or before a request to stop, but not between a push and
  its wake-up, nor in a flush.
\<close>

fun outside :: "thread_pc \<Rightarrow> bool" where
  "outside (T_push e) = True"
| "outside (T_ring e) = True"
| "outside pc \<longleftrightarrow> pc = T_idle \<or> pc = T_stop"

definition undisturbed :: "spec \<Rightarrow> bool" where
  "undisturbed v \<longleftrightarrow> \<not> sp_stop v \<and> (\<forall>t. 0 < t \<and> t < length (sp_pcs v) \<longrightarrow> outside (sp_pcs v ! t))"

text \<open>How far the writer thread is from waiting at an empty semaphore, lexicographically.\<close>

fun writer_distance :: "thread_pc \<Rightarrow> nat \<times> nat" where
  "writer_distance T_woken = (5, 0)"
| "writer_distance (T_pop_queue c) = (4, 0)"
| "writer_distance (T_pop_ring c es) = (3, 0)"
| "writer_distance (T_write c es) = (2, length es)"
| "writer_distance T_test = (1, 0)"
| "writer_distance pc = (0, 0)"

definition distance :: "spec \<Rightarrow> nat \<times> nat \<times> nat" where
  "distance v = (sp_sem v, writer_distance (sp_pcs v ! 0))"

definition at_rest :: "spec \<Rightarrow> bool" where
  "at_rest v \<longleftrightarrow> sp_pcs v ! 0 = T_acquire \<and> sp_sem v = 0"

lemma undisturbed_writer:
  assumes "lively v" "undisturbed v"
  shows "sp_pcs v \<noteq> []" "writer_pc (sp_pcs v ! 0)" "\<not> ending (sp_pcs v ! 0)" "\<not> sp_stop v"
proof -
  show v: "sp_pcs v \<noteq> []" "writer_pc (sp_pcs v ! 0)" "\<not> sp_stop v"
    using assms by (auto simp: lively_def no_deadlock_def undisturbed_def)
  show "\<not> ending (sp_pcs v ! 0)"
    using assms(1) v(1,3) by (auto simp: lively_def ends_stopped_def list_ex_length)
qed

lemma undisturbed_step:
  assumes "lively v" "undisturbed v"
  shows "undisturbed (spec_step se 0 v) \<and> sp_pcs (spec_step se 0 v) = (sp_pcs v)[0 := sp_pcs (spec_step se 0 v) ! 0] \<and>
     sp_accepted (spec_step se 0 v) = sp_accepted v"
proof -
  note w = undisturbed_writer [OF assms]
  have same: "(sp_pcs v)[0 := pc] = sp_pcs v" if "sp_pcs v ! 0 = pc" for pc
    using that by (metis list_update_id)
  show ?thesis
  proof (cases "sp_pcs v ! 0")
    case (T_write c es)
    with w assms(2) show ?thesis
      by (cases es; cases c) (auto simp: spec_step_def sp_goto_def undisturbed_def nth_list_update)
  qed (use w assms(2) in \<open>auto simp: spec_step_def sp_goto_def undisturbed_def nth_list_update same\<close>)
qed

lemma writer_nearer:
  assumes "lively v" "undisturbed v" "\<not> at_rest v"
  shows "(distance (spec_step se 0 v), distance v) \<in> less_than <*lex*> less_than <*lex*> less_than"
proof -
  note w = undisturbed_writer [OF assms(1,2)]
  show ?thesis
  proof (cases "sp_pcs v ! 0")
    case (T_write c es)
    with w show ?thesis by (cases es; cases c) (auto simp: spec_step_def sp_goto_def distance_def)
  qed (use w assms(3) in \<open>auto simp: spec_step_def sp_goto_def distance_def at_rest_def\<close>)
qed

text \<open>Alone, the writer thread comes to rest after finitely many steps.\<close>

lemma writer_settles:
  assumes "lively v" "undisturbed v"
  shows "\<exists>n. let v' = spec_run se (replicate n (Step 0)) v in
     lively v' \<and> undisturbed v' \<and> at_rest v' \<and> sp_pcs v' = (sp_pcs v)[0 := T_acquire] \<and> sp_accepted v' = sp_accepted v"
proof -
  have "wf (inv_image (less_than <*lex*> less_than <*lex*> less_than) distance)"
    by (intro wf_inv_image wf_lex_prod wf_less_than)
  from this assms show ?thesis
  proof (induction v rule: wf_induct_rule)
    case (less v)
    show ?case
    proof (cases "at_rest v")
      case True
      then have "(sp_pcs v)[0 := T_acquire] = sp_pcs v" by (metis at_rest_def list_update_id)
      with True less.prems show ?thesis by (intro exI [of _ 0]) simp
    next
      case False
      let ?v = "spec_step se 0 v"
      have step: "spec_exec se (Step 0) v = ?v" using undisturbed_writer(1) [OF less.prems] by simp
      note u = undisturbed_step [OF less.prems, of se]
      have "lively ?v" using live.inv_exec [OF less.prems(1), of se "Step 0"] step by simp
      with less.IH [of ?v] writer_nearer [OF less.prems False, of se] u obtain n where
        "let v' = spec_run se (replicate n (Step 0)) ?v in lively v' \<and> undisturbed v' \<and> at_rest v' \<and>
           sp_pcs v' = (sp_pcs ?v)[0 := T_acquire] \<and> sp_accepted v' = sp_accepted ?v"
        by auto
      with u step show ?thesis
        by (intro exI [of _ "Suc n"]) (metis list_update_overwrite replicate_Suc spec_run_simps(2))
    qed
  qed
qed

text \<open>Then everything has been written.\<close>

lemma rest_is_empty:
  assumes "lively v" "undisturbed v" "at_rest v"
  shows "sp_queue v = []" "sp_ring v = []" "concat (map in_hand (sp_pcs v)) = []"
proof -
  have pcs: "outside (sp_pcs v ! t) \<or> sp_pcs v ! t = T_acquire" if "t < length (sp_pcs v)" for t
    using that assms(2,3) by (cases "t = 0") (auto simp: undisturbed_def at_rest_def)
  have out: "\<not> serves_queue pc \<and> \<not> serves_ring pc \<and> in_hand pc = []" if "outside pc \<or> pc = T_acquire" for pc
    using that by (cases pc) simp_all
  have none: "\<not> list_ex serves_queue (sp_pcs v)" "\<not> list_ex serves_ring (sp_pcs v)"
    using pcs out by (auto simp: list_ex_length)
  then show "sp_queue v = []" "sp_ring v = []"
    using assms(1,3) by (auto simp: lively_def wakes_def at_rest_def)
  show "concat (map in_hand (sp_pcs v)) = []" using pcs out by (auto simp: in_set_conv_nth)
qed

lemma rest_is_written:
  assumes "lively v" "undisturbed v" "at_rest v" "balanced v"
  shows "mset (sp_written v) = mset (sp_accepted v)"
  using assms(4) unfolding balanced_def in_flight_def rest_is_empty [OF assms(1-3)] by simp

lemma ordered_alone: "ordered v \<Longrightarrow> ordered (spec_run se (replicate n (Step 0)) v)"
proof (induction n arbitrary: v)
  case (Suc n)
  have "ordered (spec_exec se (Step 0) v)" using Suc.prems ordered_writer [OF Suc.prems, of se] by simp
  with Suc.IH show ?case by simp
qed simp

lemma rest_in_order:
  assumes "lively v" "undisturbed v" "at_rest v" "ordered v"
  shows "sp_written v = sp_accepted v"
  using rest_is_empty [OF assms(1-3)] assms(3,4) by (simp add: ordered_def at_rest_def)

section \<open>The interleaved logger\<close>

lemma writer_delivers:
  assumes ok: "threads_ok env se n c0 s" and v: "lively (view s)" "balanced (view s)" "undisturbed (view s)"
  shows "\<exists>i s'. run_threads env (replicate i (Step 0)) s = Inr s' \<and> threads_ok env se n c0 s' \<and>
     lt_pcs s' = (lt_pcs s)[0 := T_acquire] \<and> al_sem (lt_al s') = 0 \<and>
     mset (lt_written s') = mset (lt_accepted s) \<and> (ordered (view s) \<longrightarrow> lt_written s' = lt_accepted s)"
proof -
  from writer_settles [OF v(1,3), of se] obtain i where
    i: "lively (spec_run se (replicate i (Step 0)) (view s))" "undisturbed (spec_run se (replicate i (Step 0)) (view s))"
      "at_rest (spec_run se (replicate i (Step 0)) (view s))"
      "sp_pcs (spec_run se (replicate i (Step 0)) (view s)) = (lt_pcs s)[0 := T_acquire]"
    unfolding Let_def by auto
  note w = undisturbed_writer [OF v(1,3)]
  from quiet_refines [OF ok, of 0 i] w(1,2) obtain s' where
    s': "run_threads env (replicate i (Step 0)) s = Inr s'" "threads_ok env se n c0 s'"
      "view s' = spec_run se (replicate i (Step 0)) (view s)" "lt_accepted s' = lt_accepted s"
    by (auto intro: writer_pc_quiet)
  note i = i [folded s'(3)]
  have "balanced (view s')" unfolding s'(3) by (rule balanced_run [OF v(2)])
  from rest_is_written [OF i(1-3) this] have "mset (lt_written s') = mset (lt_accepted s)" by (simp add: s'(4))
  moreover have "lt_written s' = lt_accepted s" if "ordered (view s)"
    using rest_in_order [OF i(1-3)] ordered_alone [OF that, of se i] by (simp add: s'(3) [symmetric] s'(4))
  ultimately show ?thesis using s'(1,2) i(3,4) by (auto simp: at_rest_def)
qed


text \<open>
  The second thread of \<open>two_clients\<close> also ends its call, when the writer thread, woken by the first
  one, has already taken its entry.
\<close>

definition two_calls :: "thread_event list" where
  "two_calls = two_clients @ [Step 2]"

lemma two_calls_ok:
  "length two_calls < 2 ^ 63" "length two_calls \<le> le_sem_max patient_logger"
  "list_all (live_thread_event (w_memory sample_world)) two_calls" "list_all only_logs two_calls"
  using two_clients_ok by (simp_all add: two_calls_def two_clients_def)

lemma two_calls_run:
  "spec_run (logger_promise patient_logger 8 sample_memory) two_calls (spec_init 2 kLogLevelDebug) =
     two_clients_end\<lparr>sp_pcs := [T_write By_writer [entry_1], T_idle, T_idle], sp_sem := 1\<rparr>"
  unfolding two_calls_def spec_run_append two_clients_run(1)
  by (simp add: two_clients_end_def spec_step_def sp_goto_def)

lemma two_calls_room: "never_full (logger_promise patient_logger 8 sample_memory) two_calls (spec_init 2 kLogLevelDebug)"
  unfolding pcs_two
  by (simp add: two_calls_def two_clients_def spec_init_def spec_step_def sp_goto_def shouldLog_def
      level_int8_def level_defs logger_promise_def)

lemma entry_1_line:
  "line_of patient_logger sample_memory entry_1 =
     ''[INFO] 1970-01-01 00:00:12.345 [7, 0x3] [Network]: Connected'' @ [CHR 0x0A]"
  by (simp add: entry_1_def level_defs line_of_def formatLogEntry_def called_entry_def logger_promise_def
      format_line_def c_string_def view_of_def sample_defs levelToString_def format_thread_id_def pid_value_def
      format_timestamp_def quot_trunc_def rem_trunc_def decimal_eval LogEntry_ctor_def)


section \<open>A call that comes too late\<close>

text \<open>
  One thread has passed the test at the beginning of \<open>log\<close> when another one deinitializes the logger;
  then the first one pushes and releases the semaphore, which nobody waits for any more.
\<close>

definition late_push :: "LogLevel \<Rightarrow> int \<Rightarrow> ThreadIdType \<Rightarrow> nat \<times> nat \<Rightarrow> thread_event list" where
  "late_push level ts tid m =
     [Begin_log 1 level (fst m) (snd m) ts tid, Begin_deinitialize 2, Step 2, Step 2, Step 0] @
       replicate 4 (Step 2) @ [Step 1, Step 1]"

fun no_flush :: "thread_event \<Rightarrow> bool" where
  "no_flush (Begin_flush t) = False"
| "no_flush ev = True"

definition closed :: "spec \<Rightarrow> bool" where
  "closed v \<longleftrightarrow> \<not> sp_init v \<and> list_all (\<lambda>pc. pc = T_idle \<or> pc = T_finished) (sp_pcs v)"

lemma closed_stays:
  "closed v \<Longrightarrow> list_all no_flush evs \<Longrightarrow> \<exists>l. spec_run se evs v = v\<lparr>sp_level := l\<rparr>"
proof (induction evs arbitrary: v)
  case Nil
  then show ?case by (intro exI [of _ "sp_level v"]) simp
next
  case (Cons ev evs)
  have "\<exists>l. spec_exec se ev v = v\<lparr>sp_level := l\<rparr>"
  proof (cases ev)
    case (Set_level l)
    then show ?thesis by auto
  next
    case (Step t)
    have "spec_step se t v = v" if "t < length (sp_pcs v)"
      using that Cons.prems(1) by (auto simp: closed_def list_all_length spec_step_def)
    with Step show ?thesis by (intro exI [of _ "sp_level v"]) simp
  qed (use Cons.prems in \<open>auto simp: closed_def list_all_length intro!: exI [of _ "sp_level v"] split: thread_pc.split\<close>)
  then obtain l where l: "spec_exec se ev v = v\<lparr>sp_level := l\<rparr>" by blast
  have "closed (v\<lparr>sp_level := l\<rparr>)" using Cons.prems(1) by (simp add: closed_def)
  from Cons.IH [OF this] Cons.prems(2) l show ?case by auto
qed

lemma late_push_run:
  assumes "0 < se_queue_cap se" "shouldLog level l"
  shows "spec_run se (late_push level ts tid m) (spec_init 2 l) =
     \<lparr>sp_pcs = [T_finished, T_idle, T_idle], sp_queue = [called_entry se level ts tid m], sp_ring = [], sp_written = [],
      sp_accepted = [called_entry se level ts tid m], sp_sem = 2, sp_stop = True, sp_level = l, sp_init = False\<rparr>"
proof -
  have four: "replicate 4 (Step (2 :: nat)) = [Step 2, Step 2, Step 2, Step 2]" by (simp add: eval_nat_numeral)
  show ?thesis unfolding pcs_two late_push_def four
    using assms by (simp add: spec_init_def spec_step_def sp_goto_def called_entry_def)
qed

text \<open>
  The converse of eventual delivery: a \<open>log\<close> call that overlaps with \<open>deinitialize\<close> returns like any other and
  its entry is accepted, but whatever is called from then on, short of an explicit \<open>flush\<close>, the
  entry stays in the queue and the file never gets it.
\<close>

theorem late_push_never_written:
  assumes "can_create env base w" "0 < unat cap" "unat cap < 2 ^ 62"
    and "11 + length evs < 2 ^ 63" "11 + length evs \<le> le_sem_max env" "list_all (live_thread_event (w_memory w)) evs"
    and "shouldLog level kLogLevelDebug" "live_strings (w_memory w) m" "list_all no_flush evs"
  shows "\<exists>al w1 fm s. create env base cap w = Inr (Some al, w1) \<and> al_file al = Some fm \<and>
     run_threads env (late_push level ts tid m @ evs) (threads_init 2 al w1) = Inr s \<and>
     lt_pcs s = [T_finished, T_idle, T_idle] \<and> \<not> al_initialized (lt_al s) \<and>
     lt_accepted s = [called_entry (logger_promise env cap (w_memory w)) level ts tid m] \<and>
     lt_written s = [] \<and> logger_text s = Some (old_text fm w)"
proof -
  let ?se = "logger_promise env cap (w_memory w)" and ?evs = "late_push level ts tid m @ evs"
  have len: "length ?evs + 0 < 2 ^ 63" "length ?evs + 0 \<le> le_sem_max env"
    using assms(4,5) by (simp_all add: late_push_def)
  have live: "list_all (live_thread_event (w_memory w)) ?evs"
    using assms(6,8) live_steps [of "w_memory w" 4 2] by (simp add: late_push_def live_strings_def)
  from interleaved_run [OF assms(1-3) len live, of 2] obtain al w1 fm s where
    r: "create env base cap w = Inr (Some al, w1)" "al_file al = Some fm" "run_threads env ?evs (threads_init 2 al w1) = Inr s"
      "view s = spec_run ?se ?evs (spec_init 2 kLogLevelDebug)"
      "logger_text s = Some (file_text env (w_memory w) (old_text fm w) (lt_written s))"
    by blast
  have cap: "0 < se_queue_cap ?se" using assms(2) by (simp add: logger_promise_def)
  let ?v = "spec_run ?se (late_push level ts tid m) (spec_init 2 kLogLevelDebug)"
  have "closed ?v" unfolding late_push_run [OF cap assms(7)] by (simp add: closed_def)
  from closed_stays [OF this assms(9), of ?se] obtain l where "view s = ?v\<lparr>sp_level := l\<rparr>"
    unfolding r(4) spec_run_append by blast
  then have "sp_pcs (view s) = [T_finished, T_idle, T_idle] \<and> \<not> sp_init (view s) \<and>
      sp_accepted (view s) = [called_entry ?se level ts tid m] \<and> sp_written (view s) = []"
    unfolding late_push_run [OF cap assms(7)] by simp
  then have v: "lt_pcs s = [T_finished, T_idle, T_idle]" "\<not> al_initialized (lt_al s)"
    "lt_accepted s = [called_entry ?se level ts tid m]" "lt_written s = []" by simp_all
  have "logger_text s = Some (old_text fm w)" using r(5) by (simp add: v(4) file_text_def text_bytes_def)
  with r(1-3) v show ?thesis by (intro exI [of _ al] exI [of _ w1] exI [of _ fm] exI [of _ s]) simp
qed

end
