(* ===== verification/Logger_Progress.thy ===== *)
theory Logger_Progress
  imports Logger_Wakeup
begin

text \<open>
  No thread waits for another one in \<open>log\<close> or \<open>flush\<close>: each call that is under way returns after finitely
  many steps of its own thread, whatever the others do not do. So in every state the threads can bring
  what they have begun to an end, and then everything is in the file.
\<close>

section \<open>A client that runs alone\<close>

fun client_distance :: "thread_pc \<Rightarrow> nat \<times> nat" where
  "client_distance (T_push e) = (6, 0)"
| "client_distance (T_ring e) = (5, 0)"
| "client_distance (T_pop_queue c) = (4, 0)"
| "client_distance (T_pop_ring c es) = (3, 0)"
| "client_distance (T_write c es) = (2, length es)"
| "client_distance T_release = (1, 0)"
| "client_distance pc = (0, 0)"

definition idle_pc :: "thread_pc \<Rightarrow> bool" where
  "idle_pc pc \<longleftrightarrow> pc = T_idle \<or> pc = T_stop"

definition unstopped :: "spec \<Rightarrow> bool" where
  "unstopped v \<longleftrightarrow> lively v \<and> \<not> sp_stop v"

text \<open>Without a stop, a client that is in a call is in \<open>log\<close> or in a \<open>flush\<close> of its own.\<close>

lemma unstopped_client:
  assumes "unstopped v" "0 < t" "t < length (sp_pcs v)"
  shows "client_pc (sp_pcs v ! t)" "\<not> ending (sp_pcs v ! t)"
  using assms by (auto simp: unstopped_def lively_def no_deadlock_def ends_stopped_def list_ex_length)

lemma client_nearer:
  assumes "unstopped v" "0 < t" "t < length (sp_pcs v)" "\<not> idle_pc (sp_pcs v ! t)"
  shows "unstopped (spec_step se t v) \<and> length (sp_pcs (spec_step se t v)) = length (sp_pcs v) \<and>
     (client_distance (sp_pcs (spec_step se t v) ! t), client_distance (sp_pcs v ! t)) \<in> less_than <*lex*> less_than"
proof -
  have "lively (spec_step se t v)" using live.inv_exec [of v se "Step t"] assms(1,3) by (simp add: unstopped_def)
  moreover note unstopped_client [OF assms(1-3)] and assms(1,3,4)
  ultimately show ?thesis
  proof (cases "sp_pcs v ! t")
    case (T_write c es)
    with unstopped_client [OF assms(1-3)] assms(1,3,4) \<open>lively (spec_step se t v)\<close> show ?thesis
      by (cases es; cases c) (auto simp: unstopped_def spec_step_def sp_goto_def idle_pc_def)
  qed (auto simp: unstopped_def spec_step_def sp_goto_def idle_pc_def)
qed

lemma client_returns:
  assumes "unstopped v" "0 < t" "t < length (sp_pcs v)"
  shows "\<exists>n. let v' = spec_run se (replicate n (Step t)) v in unstopped v' \<and> idle_pc (sp_pcs v' ! t)"
proof -
  have "wf (inv_image (less_than <*lex*> less_than) (\<lambda>v. client_distance (sp_pcs v ! t)))"
    by (intro wf_inv_image wf_lex_prod wf_less_than)
  from this assms show ?thesis
  proof (induction v rule: wf_induct_rule)
    case (less v)
    show ?case
    proof (cases "idle_pc (sp_pcs v ! t)")
      case True
      with less.prems show ?thesis by (intro exI [of _ 0]) simp
    next
      case False
      note c = client_nearer [OF less.prems False, of se]
      with less.IH [of "spec_step se t v"] less.prems(2,3) obtain n where
        "let v' = spec_run se (replicate n (Step t)) (spec_step se t v) in unstopped v' \<and> idle_pc (sp_pcs v' ! t)"
        by auto
      with less.prems(3) show ?thesis by (intro exI [of _ "Suc n"]) simp
    qed
  qed
qed

section \<open>All of them, one after the other\<close>

fun is_step :: "thread_event \<Rightarrow> bool" where
  "is_step (Step t) = True"
| "is_step ev = False"

lemma is_step_replicate: "list_all is_step (replicate n (Step t))"
  by (induction n) simp_all

lemma clients_return:
  assumes "unstopped v"
  shows "\<exists>evs. list_all is_step evs \<and> unstopped (spec_run se evs v) \<and>
     length (sp_pcs (spec_run se evs v)) = length (sp_pcs v) \<and>
     (\<forall>t. 0 < t \<and> t < m \<and> t < length (sp_pcs v) \<longrightarrow> idle_pc (sp_pcs (spec_run se evs v) ! t))"
proof (induction m)
  case 0
  with assms show ?case by (intro exI [of _ "[]"]) simp
next
  case (Suc m)
  then obtain evs where evs: "list_all is_step evs" "unstopped (spec_run se evs v)"
    "length (sp_pcs (spec_run se evs v)) = length (sp_pcs v)"
    "\<And>t. 0 < t \<Longrightarrow> t < m \<Longrightarrow> t < length (sp_pcs v) \<Longrightarrow> idle_pc (sp_pcs (spec_run se evs v) ! t)" by blast
  show ?case
  proof (cases "0 < m \<and> m < length (sp_pcs v)")
    case True
    with client_returns [OF evs(2), of m se] evs(3) obtain n where
      n: "unstopped (spec_run se (replicate n (Step m)) (spec_run se evs v))"
        "idle_pc (sp_pcs (spec_run se (replicate n (Step m)) (spec_run se evs v)) ! m)"
      unfolding Let_def by auto
    have len: "length (sp_pcs (spec_run se (replicate n (Step m)) (spec_run se evs v))) = length (sp_pcs v)"
      using steps_of_one [of 0 m se n "spec_run se evs v"] True evs(3) by simp
    have "idle_pc (sp_pcs (spec_run se (replicate n (Step m)) (spec_run se evs v)) ! t)"
      if "0 < t" "t < Suc m" "t < length (sp_pcs v)" for t
      using that n(2) evs(4) [of t] steps_of_one [of t m se n "spec_run se evs v"] by (cases "t = m") auto
    with evs(1) n(1) len show ?thesis
      by (intro exI [of _ "evs @ replicate n (Step m)"]) (simp add: spec_run_append is_step_replicate)
  next
    case False
    with evs show ?thesis by (intro exI [of _ evs]) (auto simp: less_Suc_eq)
  qed
qed

lemma accepted_grows: "\<exists>new. sp_accepted (spec_run se evs v) = sp_accepted v @ new"
proof (induction evs arbitrary: v)
  case (Cons ev evs)
  have "\<exists>new. sp_accepted (spec_step se t v) = sp_accepted v @ new" for t
  proof (cases "sp_pcs v ! t")
    case (T_write c es)
    then show ?thesis by (cases es) (auto simp: spec_step_def sp_goto_def)
  qed (auto simp: spec_step_def sp_goto_def)
  then have "\<exists>new. sp_accepted (spec_exec se ev v) = sp_accepted v @ new" by (cases ev) (auto simp: sp_goto_def split: thread_pc.split)
  with Cons.IH [of "spec_exec se ev v"] show ?case by auto
qed simp

text \<open>The calls come to their ends, then the writer thread comes to rest, and everything is written.\<close>

lemma all_complete:
  assumes "unstopped v" "balanced v"
  shows "\<exists>evs. list_all is_step evs \<and> (let v' = spec_run se evs v in
     length (sp_pcs v') = length (sp_pcs v) \<and> sp_pcs v' ! 0 = T_acquire \<and>
     (\<forall>t. 0 < t \<and> t < length (sp_pcs v') \<longrightarrow> idle_pc (sp_pcs v' ! t)) \<and>
     mset (sp_written v') = mset (sp_accepted v'))"
proof -
  from clients_return [OF assms(1), of se "length (sp_pcs v)"] obtain evs where
    evs: "list_all is_step evs" "unstopped (spec_run se evs v)" "length (sp_pcs (spec_run se evs v)) = length (sp_pcs v)"
      "\<And>t. 0 < t \<Longrightarrow> t < length (sp_pcs v) \<Longrightarrow> idle_pc (sp_pcs (spec_run se evs v) ! t)" by blast
  let ?u = "spec_run se evs v"
  have "outside pc" if "idle_pc pc" for pc using that by (auto simp: idle_pc_def)
  with evs have u: "lively ?u" "undisturbed ?u" by (simp_all add: unstopped_def undisturbed_def)
  from writer_settles [OF this, of se] obtain n where
    n: "lively (spec_run se (replicate n (Step 0)) ?u)" "undisturbed (spec_run se (replicate n (Step 0)) ?u)"
      "at_rest (spec_run se (replicate n (Step 0)) ?u)"
      "sp_pcs (spec_run se (replicate n (Step 0)) ?u) = (sp_pcs ?u)[0 := T_acquire]" unfolding Let_def by blast
  have "balanced (spec_run se (replicate n (Step 0)) ?u)" by (intro balanced_run assms(2))
  note written = rest_is_written [OF n(1-3) this]
  have "(sp_pcs ?u)[0 := T_acquire] ! 0 = T_acquire" using undisturbed_writer(1) [OF u] by simp
  with evs n(4) written show ?thesis
    by (intro exI [of _ "evs @ replicate n (Step 0)"])
      (simp add: spec_run_append is_step_replicate Let_def nth_list_update)
qed

section \<open>What the calls under way cost\<close>

text \<open>The pushes and releases that the calls under way still have before them.\<close>

fun call_cost :: "thread_pc \<Rightarrow> nat" where
  "call_cost (T_push e) = 2"
| "call_cost (T_ring e) = 1"
| "call_cost pc = (if pc = T_release \<or> pc = T_stop \<or> pc = T_wake then 1 else 0)"

definition total_cost :: "spec \<Rightarrow> nat" where
  "total_cost v = sum_list (map call_cost (sp_pcs v))"

lemma total_cost_le: "total_cost v \<le> 2 * length (sp_pcs v)"
proof -
  have "call_cost pc \<le> 2" for pc by (cases pc) simp_all
  then have "sum_list (map call_cost pcs) \<le> 2 * length pcs" for pcs
    by (induction pcs) (auto intro: order_trans [OF add_mono])
  then show ?thesis by (simp add: total_cost_def)
qed

lemma total_cost_goto:
  assumes "t < length (sp_pcs v)" "sp_pcs v' = sp_pcs v" "call_cost pc + c \<le> call_cost (sp_pcs v ! t)"
  shows "total_cost (sp_goto t pc v') + c \<le> total_cost v"
proof -
  have "call_cost (sp_pcs v ! t) \<le> total_cost v"
    unfolding total_cost_def by (rule elem_le_sum_list [of t "map call_cost (sp_pcs v)", simplified]) (rule assms(1))
  then show ?thesis
    using assms by (simp add: total_cost_def sp_goto_def map_update sum_list_update)
qed

lemma total_cost_step:
  assumes "t < length (sp_pcs v)"
  shows "total_cost (spec_step se t v) + step_cost (sp_pcs v ! t) \<le> total_cost v"
proof -
  note go = total_cost_goto [OF assms]
  show ?thesis
  proof (cases "sp_pcs v ! t")
    case (T_write c es)
    then show ?thesis by (cases es; cases c) (auto simp: spec_step_def intro!: go [where c = 0, simplified])
  next
    case (T_push e)
    then show ?thesis using go [where c = 1] by (simp add: spec_step_def)
  next
    case (T_ring e)
    then show ?thesis using go [where c = 1] by (simp add: spec_step_def)
  next
    case T_release
    then show ?thesis using go [where c = 1] by (simp add: spec_step_def)
  next
    case T_wake
    then show ?thesis using go [where c = 1] by (simp add: spec_step_def)
  qed (auto simp: spec_step_def intro!: go [where c = 0, simplified])
qed

text \<open>So a state with that much room bears every schedule of the calls under way.\<close>

lemma steps_refine:
  "threads_ok env se (n + total_cost (view s)) c0 s \<Longrightarrow> list_all is_step evs \<Longrightarrow>
     \<exists>s'. run_threads env evs s = Inr s' \<and> threads_ok env se n c0 s' \<and> view s' = spec_run se evs (view s)"
proof (induction evs arbitrary: s)
  case Nil
  then show ?case by (auto intro: threads_ok_less)
next
  case (Cons ev evs)
  from Cons.prems(2) obtain t where ev: "ev = Step t" and steps: "list_all is_step evs" by (cases ev) auto
  show ?case
  proof (cases "t < length (lt_pcs s)")
    case True
    have "total_cost (spec_step se t (view s)) + step_cost (lt_pcs s ! t) \<le> total_cost (view s)"
      using total_cost_step [of t "view s" se] True by simp
    then have "threads_ok env se (n + total_cost (spec_step se t (view s)) + step_cost (lt_pcs s ! t)) c0 s"
      by (intro threads_ok_less [OF Cons.prems(1)]) simp
    from step_refines [OF this True] obtain s1 where
      s1: "thread_step env t s = Inr s1" "view s1 = spec_step se t (view s)"
        "threads_ok env se (n + total_cost (view s1)) c0 s1" by (auto simp: simulated_def)
    from Cons.IH [OF s1(3) steps] s1(1,2) True ev show ?thesis by simp
  next
    case False
    with Cons ev steps show ?thesis by simp
  qed
qed

section \<open>The interleaved logger\<close>

interpretation threads_stay: event_invariant "spec_exec se" "\<lambda>v. length (sp_pcs v) = n" for se n
proof
  fix v :: spec and ev
  assume n: "length (sp_pcs v) = n"
  have "length (sp_pcs (spec_step se t v)) = n" for t
  proof (cases "sp_pcs v ! t")
    case (T_write c es)
    with n show ?thesis by (cases es) (simp_all add: spec_step_def sp_goto_def)
  qed (use n in \<open>simp_all add: spec_step_def sp_goto_def\<close>)
  with n show "length (sp_pcs (spec_exec se ev v)) = n" by (cases ev) (simp_all add: sp_goto_def split: thread_pc.split)
qed



end
