(* ===== verification/Crash_Logger.thy ===== *)
theory Crash_Logger
  imports Logger_Faults
begin

text \<open>
  The crash handler and the logger together: the callback that \<open>initializeComponents\<close> registers
  captures the logger's \<open>this\<close>, so what the monitor thread runs is the emergency flush of the
  object that registered it last, if that object still exists.
\<close>

section \<open>The monitor runs the callback\<close>

text \<open>
  One step of the monitor of handler \<open>i\<close>; \<open>live\<close> is the loggers that exist. Calling the callback
  of a destroyed logger is undefined behaviour.
\<close>

definition monitor_pass ::
  "'k logger_env \<Rightarrow> nat \<Rightarrow> (nat \<rightharpoonup> AsyncLogger) \<Rightarrow> 'k world \<Rightarrow> fault + (nat \<rightharpoonup> AsyncLogger) \<times> 'k world" where
  "monitor_pass env i live w =
     (let done = w\<lparr>w_crash := monitor_step i (w_crash w)\<rparr>
      in if monitors (w_crash w) i \<noteq> In_callback then Inr (live, done)
         else case flush_callback (w_crash w) of
                None \<Rightarrow> Inr (live, done)
              | Some k \<Rightarrow>
                  (case live k of
                     None \<Rightarrow> Inl Undefined
                   | Some al \<Rightarrow>
                       (case al_emergencyFlush env al done of
                          Inl f \<Rightarrow> Inl f
                        | Inr (al, w) \<Rightarrow> Inr (live(k \<mapsto> al), w))))"

fun run_monitor ::
  "nat \<Rightarrow> 'k logger_env \<Rightarrow> nat \<Rightarrow> (nat \<rightharpoonup> AsyncLogger) \<Rightarrow> 'k world \<Rightarrow> fault + (nat \<rightharpoonup> AsyncLogger) \<times> 'k world" where
  "run_monitor 0 env i live w = Inr (live, w)"
| "run_monitor (Suc n) env i live w =
     (case monitor_pass env i live w of Inl f \<Rightarrow> Inl f | Inr (live, w) \<Rightarrow> run_monitor n env i live w)"

text \<open>How many steps the monitor is away from the callback.\<close>

fun until_callback :: "monitor \<Rightarrow> nat option" where
  "until_callback In_callback = Some 0"
| "until_callback At_exchange = Some 1"
| "until_callback At_condition = Some 2"
| "until_callback Sleeping = Some 3"
| "until_callback _ = None"

text \<open>A flush is due: it has been requested, or the monitor is about to run the callback.\<close>

definition due :: "nat \<Rightarrow> crash_state \<Rightarrow> bool" where
  "due i s \<longleftrightarrow> \<not> stop_monitor s i \<and> until_callback (monitors s i) \<noteq> None \<and>
     (monitors s i = In_callback \<or> flush_requested s)"

lemma monitor_step_due:
  assumes "due i s" "until_callback (monitors s i) = Some (Suc n)"
  shows "due i (monitor_step i s)" "until_callback (monitors (monitor_step i s) i) = Some n"
    "flush_callback (monitor_step i s) = flush_callback s"
  using assms by (cases "monitors s i"; auto simp: due_def monitor_step_def)+

lemma run_monitor_approach:
  assumes "due i (w_crash w)" "until_callback (monitors (w_crash w) i) = Some n"
  shows "\<exists>s. run_monitor (n + m) env i live w = run_monitor m env i live (w\<lparr>w_crash := s\<rparr>) \<and>
     monitors s i = In_callback \<and> flush_callback s = flush_callback (w_crash w)"
  using assms
proof (induction n arbitrary: w)
  case 0
  then have "monitors (w_crash w) i = In_callback" by (cases "monitors (w_crash w) i") auto
  then show ?case by (intro exI [of _ "w_crash w"]) simp
next
  case (Suc n)
  let ?w = "w\<lparr>w_crash := monitor_step i (w_crash w)\<rparr>"
  note d = monitor_step_due [OF Suc.prems]
  have pass: "monitor_pass env i live w = Inr (live, ?w)"
    using Suc.prems(2) by (auto simp: monitor_pass_def Let_def)
  from Suc.IH [of ?w] d obtain s where
    "run_monitor (n + m) env i live ?w = run_monitor m env i live (?w\<lparr>w_crash := s\<rparr>)"
    "monitors s i = In_callback" "flush_callback s = flush_callback (w_crash w)" by auto
  then show ?case using pass by (intro exI [of _ s]) simp
qed

lemma until_callback_bound: "until_callback m = Some n \<Longrightarrow> n \<le> 3"
  by (cases m) auto

section \<open>A monitor that gets to run\<close>

lemma logger_ok_crash: "logger_ok env n c0 acc al w \<Longrightarrow> logger_ok env n c0 acc al (w\<lparr>w_crash := s\<rparr>)"
  by (simp add: logger_ok_def)



section \<open>The callback outlives the logger\<close>

lemma writeEntries_crash: "writeEntries env es al w = Inr (al', w') \<Longrightarrow> w_crash w' = w_crash w"
  by (auto simp: writeEntries_def split: option.splits sum.splits)

lemma flush_crash: "al_flush env al w = Inr (al', w') \<Longrightarrow> w_crash w' = w_crash w"
  by (auto simp: al_flush_def dest!: writeEntries_crash split: sum.splits prod.splits)

lemma writer_crash: "writerThread_step env al w = Inr (al', w') \<Longrightarrow> w_crash w' = w_crash w"
  by (auto simp: writerThread_step_def dest!: flush_crash split: writer.splits sum.splits prod.splits)

lemma run_writer_crash: "run_writer n env al w = Inr (al', w') \<Longrightarrow> w_crash w' = w_crash w"
proof (induction n arbitrary: al w)
  case (Suc n)
  then show ?case by (auto dest!: writer_crash split: if_splits sum.splits prod.splits)
qed (simp split: if_splits)

lemma deinitialize_crash: "deinitialize env al w = Inr (al', w') \<Longrightarrow> w_crash w' = w_crash w"
  by (auto simp: deinitialize_def sem_release_def join_writer_def dest!: flush_crash run_writer_crash
      split: if_splits sum.splits prod.splits)

lemma monitor_step_callback: "flush_callback ((monitor_step i ^^ n) s) = flush_callback s"
  by (induction n) (simp_all add: monitor_step_def ch_emergencyFlush_def split: monitor.splits option.splits)

lemma dtor_callback: "CrashHandler_dtor_wait pl i s = Some t \<Longrightarrow> flush_callback t = flush_callback s"
  by (auto simp: monitor_step_callback CrashHandler_dtor_wait_def cleanupHandlers_def set_actions_def stopMonitor_request_def
      stopMonitor_join_def destroy_thread_def Let_def split: if_splits)

lemma logger_dtor_callback:
  assumes "AsyncLogger_dtor env al w = Inr w'"
  shows "flush_callback (w_crash w') = flush_callback (w_crash w)"
  using assms by (auto simp: AsyncLogger_dtor_def dest!: deinitialize_crash dtor_callback
      split: sum.splits prod.splits option.splits if_splits)

text \<open>
  C38: the callback outlives the logger that registered it. After the logger has been destroyed, a
  crash handler made on Windows by the next one starts its monitor at once, and if a signal
  arrives before that logger has registered its own callback, the monitor calls into the
  destroyed one: undefined behaviour.
\<close>

theorem callback_outlives_logger:
  assumes "host_platform (le_host env) = Some Windows" "AsyncLogger_dtor env al w = Inr w1"
    and "flush_callback (w_crash w) = Some k" "live k = None"
    and "\<not> ch_initialized (w_crash w1)" "\<not> terminated (w_crash w1)"
  shows "\<exists>s. crash_run (host_platform (le_host env)) [New i, Signal SIGSEGV, Handler SIGSEGV, Handler SIGSEGV] (w_crash w1) = Some s \<and>
     run_monitor 3 env i live (w1\<lparr>w_crash := s\<rparr>) = Inl Undefined"
proof -
  have cb: "flush_callback (w_crash w1) = Some k" using logger_dtor_callback [OF assms(2)] assms(3) by simp
  obtain s where s: "crash_run (host_platform (le_host env)) [New i, Signal SIGSEGV, Handler SIGSEGV, Handler SIGSEGV] (w_crash w1) = Some s"
    "monitors s i = At_condition" "\<not> stop_monitor s i" "flush_requested s" "flush_callback s = Some k"
    using assms(1,5,6) cb by (simp add: crash_defs kHandledSignals_def)
  have "due i (w_crash (w1\<lparr>w_crash := s\<rparr>))" "until_callback (monitors (w_crash (w1\<lparr>w_crash := s\<rparr>)) i) = Some 2"
    using s(2-4) by (simp_all add: due_def)
  from run_monitor_approach [OF this, of 1 env live] obtain t where
    t: "run_monitor 3 env i live (w1\<lparr>w_crash := s\<rparr>) = run_monitor 1 env i live (w1\<lparr>w_crash := t\<rparr>)"
      "monitors t i = In_callback" "flush_callback t = Some k" using s(5) by auto
  have "run_monitor 1 env i live (w1\<lparr>w_crash := t\<rparr>) = Inl Undefined"
    using t(2,3) assms(4) by (simp add: monitor_pass_def Let_def)
  with s(1) t(1) show ?thesis by auto
qed

theorem callback_outlives_logger_witness:
  "\<exists>w1 s. AsyncLogger_dtor (sample_logger\<lparr>le_host := sample_host (Some Windows)\<rparr>)
       ((AsyncLogger_ctor sample_logger)\<lparr>al_crash_handler := True\<rparr>)
       (sample_world\<lparr>w_crash := setFlushCallback 0 (CrashHandler_ctor (Some Windows) 0 crash_init)\<rparr>) = Inr w1 \<and>
     crash_run (Some Windows) [New 1, Signal SIGSEGV, Handler SIGSEGV, Handler SIGSEGV] (w_crash w1) = Some s \<and>
     run_monitor 3 (sample_logger\<lparr>le_host := sample_host (Some Windows)\<rparr>) 1 Map.empty (w1\<lparr>w_crash := s\<rparr>) = Inl Undefined"
proof -
  let ?env = "sample_logger\<lparr>le_host := sample_host (Some Windows)\<rparr>"
  let ?al = "(AsyncLogger_ctor sample_logger)\<lparr>al_crash_handler := True\<rparr>"
  let ?w = "sample_world\<lparr>w_crash := setFlushCallback 0 (CrashHandler_ctor (Some Windows) 0 crash_init)\<rparr>"
  have id: "le_id ?env = 0" by (simp add: sample_logger_def)
  obtain w1 where d: "AsyncLogger_dtor ?env ?al ?w = Inr w1" "\<not> ch_initialized (w_crash w1)" "\<not> terminated (w_crash w1)"
    using id by (simp add: AsyncLogger_dtor_def deinitialize_def AsyncLogger_ctor_def CrashHandler_dtor_wait_def
        crash_defs crash_init_def kHandledSignals_def numeral_eq_Suc)
  have "host_platform (le_host ?env) = Some Windows" "flush_callback (w_crash ?w) = Some 0" by (simp_all add: setFlushCallback_def)
  from callback_outlives_logger [OF this(1) d(1) this(2) _ d(2,3), of Map.empty 1] d(1) show ?thesis by auto
qed

end
