(* ===== verification/C_Bridge.thy ===== *)
theory C_Bridge
  imports Archive File_Rotate Tag_Filter Log_Entry
begin

text \<open>
  The C interface \<open>speckit_logger.h\<close> and \<open>speckit_logger.cpp\<close>: a logger that writes through a
  \<open>FileManager\<close> of its own, without queue and writer thread, filters by tag and rotates. A C
  string is \<open>None\<close> when the pointer is null, and so is a handle; an exception leaves through the
  C interface and comes with the state it leaves behind.
\<close>

section \<open>State and error codes\<close>

datatype SpeckitErrorCode =
    SPECKIT_SUCCESS
  | SPECKIT_ERROR_INVALID_ARGUMENT
  | SPECKIT_ERROR_NULL_POINTER
  | SPECKIT_ERROR_ALREADY_INITIALIZED
  | SPECKIT_ERROR_NOT_INITIALIZED
  | SPECKIT_ERROR_FILE_IO
  | SPECKIT_ERROR_MEMORY
  | SPECKIT_ERROR_THREAD

record SpeckitLoggerImpl =
  si_fm :: FileManager
  si_tagFilter :: TagFilter
  si_level :: LogLevel
  si_baseName :: string
  si_processId :: "32 word"

section \<open>Operations\<close>

text \<open>The result of \<open>Initialize\<close> is not looked at.\<close>

definition speckit_logger_create ::
  "'k host \<Rightarrow> ProcessIdType \<Rightarrow> string option \<Rightarrow> 'k os \<Rightarrow> (exn + SpeckitLoggerImpl option) \<times> 'k os" where
  "speckit_logger_create h pid config os =
     (case config of None \<Rightarrow> (Inr None, os)
      | Some base_name \<Rightarrow>
          (case Initialize h pid (FileManager_ctor base_name) os of
             (Inl e, fm, os) \<Rightarrow> (Inl e, os)
           | (Inr ok, fm, os) \<Rightarrow>
               (Inr (Some \<lparr>si_fm = fm, si_tagFilter = TagFilter_ctor, si_level = kLogLevelDebug,
                           si_baseName = base_name, si_processId = pid\<rparr>), os)))"

text \<open>What the two filters let through.\<close>

definition passes :: "TagFilter \<Rightarrow> 32 word \<Rightarrow> string option \<Rightarrow> bool" where
  "passes tf level tag =
     (let tagStr = (case tag of None \<Rightarrow> [] | Some t \<Rightarrow> t)
      in isTagEnabled tagStr tf \<and>
         \<not> level_int8 (LogLevel_of_int level) < level_int8 (getTagLevel tagStr tf))"

text \<open>Writing a message that passed, and rotating.\<close>

definition write_message ::
  "'k host \<Rightarrow> string \<Rightarrow> SpeckitLoggerImpl \<Rightarrow> 'k os \<Rightarrow> (exn + SpeckitErrorCode) \<times> SpeckitLoggerImpl \<times> 'k os" where
  "write_message h message impl os =
     (case Write h (message @ [CHR 0x0A]) (si_fm impl) os of
        (False, fm, os) \<Rightarrow> (Inr SPECKIT_ERROR_FILE_IO, impl\<lparr>si_fm := fm\<rparr>, os)
      | (True, fm, os) \<Rightarrow>
          if NeedsRotation fm then
            (case Rotate h fm os of
               (Inl e, fm, os) \<Rightarrow> (Inl e, impl\<lparr>si_fm := fm\<rparr>, os)
             | (Inr rotated, fm, os) \<Rightarrow> (Inr SPECKIT_SUCCESS, impl\<lparr>si_fm := fm\<rparr>, os))
          else (Inr SPECKIT_SUCCESS, impl\<lparr>si_fm := fm\<rparr>, os))"

definition speckit_logger_log ::
  "'k host \<Rightarrow> SpeckitLoggerImpl option \<Rightarrow> 32 word \<Rightarrow> string option \<Rightarrow> string option \<Rightarrow> 'k os \<Rightarrow>
     (exn + SpeckitErrorCode) \<times> SpeckitLoggerImpl option \<times> 'k os" where
  "speckit_logger_log h logger level tag message os =
     (case (logger, message) of
        (Some impl, Some text) \<Rightarrow>
          if \<not> passes (si_tagFilter impl) level tag then (Inr SPECKIT_SUCCESS, logger, os)
          else (case write_message h text impl os of (r, impl, os) \<Rightarrow> (r, Some impl, os))
      | _ \<Rightarrow> (Inr SPECKIT_ERROR_NULL_POINTER, logger, os))"

definition speckit_logger_set_log_level ::
  "SpeckitLoggerImpl option \<Rightarrow> 32 word \<Rightarrow> SpeckitErrorCode \<times> SpeckitLoggerImpl option" where
  "speckit_logger_set_log_level logger level =
     (case logger of None \<Rightarrow> (SPECKIT_ERROR_NULL_POINTER, None)
      | Some impl \<Rightarrow> (SPECKIT_SUCCESS, Some (impl\<lparr>si_level := LogLevel_of_int level\<rparr>)))"

definition speckit_logger_destroy ::
  "'k host \<Rightarrow> SpeckitLoggerImpl option \<Rightarrow> 'k os \<Rightarrow> SpeckitErrorCode \<times> 'k os" where
  "speckit_logger_destroy h logger os =
     (case logger of None \<Rightarrow> (SPECKIT_ERROR_NULL_POINTER, os)
      | Some impl \<Rightarrow> (SPECKIT_SUCCESS, snd (FileManager_dtor h (si_fm impl) os)))"

text \<open>The five functions without an instance do nothing at all.\<close>

definition speckit_logger_set_max_file_size :: "64 word \<Rightarrow> 's \<Rightarrow> 's" where
  "speckit_logger_set_max_file_size bytes s = s"

definition speckit_logger_set_retention_count :: "32 word \<Rightarrow> 's \<Rightarrow> 's" where
  "speckit_logger_set_retention_count n s = s"

definition speckit_logger_set_tag_enabled :: "string option \<Rightarrow> 32 word \<Rightarrow> 's \<Rightarrow> 's" where
  "speckit_logger_set_tag_enabled tag enabled s = s"

definition speckit_logger_set_tag_level :: "string option \<Rightarrow> 32 word \<Rightarrow> 's \<Rightarrow> 's" where
  "speckit_logger_set_tag_level tag level s = s"

definition speckit_logger_set_auto_archive_config :: "32 word \<Rightarrow> 's \<Rightarrow> 's" where
  "speckit_logger_set_auto_archive_config enabled s = s"

text \<open>The time stamp \<open>%Y%m%d%H%M%S\<close>, which fits the 32 bytes of the buffer.\<close>

definition archive_timestamp :: "tm \<Rightarrow> string" where
  "archive_timestamp t =
     show_int (tm_year t + 1900) @ format_padded 2 (tm_mon t + 1) @ format_padded 2 (tm_mday t) @
     format_padded 2 (tm_hour t) @ format_padded 2 (tm_min t) @ format_padded 2 (tm_sec t)"

definition speckit_logger_archive ::
  "'k host \<Rightarrow> 'z libzip \<Rightarrow> (int \<Rightarrow> tm) \<Rightarrow> int \<Rightarrow> ProcessIdType \<Rightarrow> string option \<Rightarrow> 'k os \<Rightarrow> 'z \<Rightarrow> (exn + int) \<times> 'k os \<times> 'z" where
  "speckit_logger_archive h lib localtime now pid base_name os z =
     (case base_name of None \<Rightarrow> (Inr (- 1), os, z)
      | Some base \<Rightarrow>
          (case createArchive h lib base (sint pid) (archive_timestamp (localtime now)) os z of
             (Inl e, os, z) \<Rightarrow> (Inl e, os, z)
           | (Inr ok, os, z) \<Rightarrow> (Inr (if ok then 0 else - 1), os, z)))"

section \<open>Sequences of log calls\<close>

text \<open>The calls of one client: a message with its level and tag, or a change of the level.\<close>

datatype bridge_call = Call_log "32 word" "string option" string | Call_set_level "32 word"

fun bridge_exec ::
  "'k host \<Rightarrow> bridge_call \<Rightarrow> SpeckitLoggerImpl \<times> 'k os \<Rightarrow> (exn + SpeckitErrorCode) \<times> SpeckitLoggerImpl \<times> 'k os" where
  "bridge_exec h (Call_log level tag text) (impl, os) =
     (case speckit_logger_log h (Some impl) level tag (Some text) os of
        (r, logger, os) \<Rightarrow> (r, (case logger of None \<Rightarrow> impl | Some impl \<Rightarrow> impl), os))"
| "bridge_exec h (Call_set_level level) (impl, os) =
     (case speckit_logger_set_log_level (Some impl) level of
        (r, logger) \<Rightarrow> (Inr r, (case logger of None \<Rightarrow> impl | Some impl \<Rightarrow> impl), os))"

fun bridge_run ::
  "'k host \<Rightarrow> bridge_call list \<Rightarrow> SpeckitLoggerImpl \<times> 'k os \<Rightarrow>
     (exn + SpeckitErrorCode) list \<times> SpeckitLoggerImpl \<times> 'k os" where
  "bridge_run h [] s = ([], s)"
| "bridge_run h (c # cs) s =
     (case bridge_exec h c s of (r, s) \<Rightarrow> (case bridge_run h cs s of (rs, s) \<Rightarrow> (r # rs, s)))"

fun is_log_call :: "bridge_call \<Rightarrow> bool" where
  "is_log_call (Call_log level tag text) = True"
| "is_log_call (Call_set_level level) = False"

text \<open>The text that the tag filter lets through.\<close>

fun accepted_text :: "TagFilter \<Rightarrow> bridge_call list \<Rightarrow> string" where
  "accepted_text tf [] = []"
| "accepted_text tf (Call_log level tag text # cs) =
     (if passes tf level tag then text @ [CHR 0x0A] else []) @ accepted_text tf cs"
| "accepted_text tf (Call_set_level level # cs) = accepted_text tf cs"

lemma bridge_exec_log:
  "bridge_exec h (Call_log level tag text) (impl, os) =
     (if passes (si_tagFilter impl) level tag then write_message h text impl os else (Inr SPECKIT_SUCCESS, impl, os))"
  by (simp add: speckit_logger_log_def split: prod.splits)

lemma bridge_exec_level:
  "bridge_exec h (Call_set_level level) (impl, os) = (Inr SPECKIT_SUCCESS, impl\<lparr>si_level := LogLevel_of_int level\<rparr>, os)"
  by (simp add: speckit_logger_set_log_level_def)

lemma write_message_filter: "write_message h text impl os = (r, impl', os') \<Longrightarrow> si_tagFilter impl' = si_tagFilter impl"
  by (auto simp: write_message_def split: prod.splits bool.splits sum.splits if_splits)

section \<open>Setting the level\<close>

definition same_but_level :: "SpeckitLoggerImpl \<Rightarrow> SpeckitLoggerImpl \<Rightarrow> bool" where
  "same_but_level a b \<longleftrightarrow> b\<lparr>si_level := si_level a\<rparr> = a"

lemma same_but_level_fields: "same_but_level a b \<Longrightarrow> si_fm b = si_fm a \<and> si_tagFilter b = si_tagFilter a"
  by (cases a; cases b) (simp add: same_but_level_def)

lemma write_message_level:
  assumes "same_but_level a b"
  shows "fst (write_message h text b os) = fst (write_message h text a os) \<and>
     snd (snd (write_message h text b os)) = snd (snd (write_message h text a os)) \<and>
     same_but_level (fst (snd (write_message h text a os))) (fst (snd (write_message h text b os)))"
  using assms same_but_level_fields [OF assms]
  by (cases a; cases b)
    (auto simp: write_message_def same_but_level_def split: prod.splits bool.splits sum.splits)

lemma level_never_read:
  "same_but_level a b \<longrightarrow>
   (let (rs, a', os1) = bridge_run h cs (a, os); (rs', b', os2) = bridge_run h (filter is_log_call cs) (b, os)
    in map fst (filter (\<lambda>(r, c). is_log_call c) (zip rs cs)) = rs' \<and> os1 = os2 \<and> same_but_level a' b')"
proof (induction cs arbitrary: a b os)
  case Nil
  then show ?case by simp
next
  case (Cons c cs)
  show ?case
  proof
    assume ab: "same_but_level a b"
    show "let (rs, a', os1) = bridge_run h (c # cs) (a, os); (rs', b', os2) = bridge_run h (filter is_log_call (c # cs)) (b, os)
      in map fst (filter (\<lambda>(r, c). is_log_call c) (zip rs (c # cs))) = rs' \<and> os1 = os2 \<and> same_but_level a' b'"
    proof (cases c)
      case (Call_set_level level)
      have "same_but_level (a\<lparr>si_level := LogLevel_of_int level\<rparr>) b"
        using ab by (cases a; cases b) (simp add: same_but_level_def)
      from Cons.IH [of "a\<lparr>si_level := LogLevel_of_int level\<rparr>" b os] this Call_set_level show ?thesis
        by (simp add: bridge_exec_level del: bridge_exec.simps split: prod.splits)
    next
      case (Call_log level tag msg)
      obtain r a1 os1 where ea: "bridge_exec h c (a, os) = (r, a1, os1)" by (metis prod_cases3)
      have "\<exists>b1. bridge_exec h c (b, os) = (r, b1, os1) \<and> same_but_level a1 b1"
        using write_message_level [OF ab, of h msg os] same_but_level_fields [OF ab] ea ab Call_log
        by (cases "write_message h msg b os") (auto simp: bridge_exec_log simp del: bridge_exec.simps split: if_splits)
      then obtain b1 where eb: "bridge_exec h c (b, os) = (r, b1, os1)" "same_but_level a1 b1" by blast
      from Cons.IH [of a1 b1 os1] eb(2) show ?thesis
        using ea eb(1) Call_log by (simp del: bridge_exec.simps split: prod.splits)
    qed
  qed
qed

text \<open>
  \<open>speckit_logger_set_log_level\<close> answers success and changes nothing that anybody sees: after
  any sequence of calls the results of the log calls and the whole system are the same as
  without its calls; the level it stores is never read.
\<close>

theorem set_log_level_ignored:
  "let (rs, impl1, os1) = bridge_run h cs (impl, os);
       (rs', impl2, os2) = bridge_run h (filter is_log_call cs) (impl, os)
   in map fst (filter (\<lambda>(r, c). is_log_call c) (zip rs cs)) = rs' \<and> os1 = os2 \<and>
      si_fm impl1 = si_fm impl2 \<and> si_tagFilter impl1 = si_tagFilter impl2"
proof -
  have "same_but_level impl impl" by (simp add: same_but_level_def)
  with level_never_read [of impl impl h cs os] show ?thesis
    by (auto simp: Let_def dest: same_but_level_fields split: prod.splits)
qed

section \<open>What reaches the files\<close>

text \<open>The rotated file's text, empty when there is none.\<close>

definition rotated_text :: "FileManager \<Rightarrow> 'k os \<Rightarrow> string" where
  "rotated_text fm os = (case file_content (rotated_name fm) os of None \<Rightarrow> [] | Some c \<Rightarrow> c)"

text \<open>
  A bridge logger of the first process whose rotated file and current file
  together end the text \<open>all_text\<close>; either nothing has been rotated since the rotated file's text was
  \<open>r0\<close>, and they are all of it, or the rotated file has reached the size limit.
\<close>

definition bridge_ok :: "'k host \<Rightarrow> string \<Rightarrow> size_t \<Rightarrow> string \<Rightarrow> string \<Rightarrow> SpeckitLoggerImpl \<times> 'k os \<Rightarrow> bool" where
  "bridge_ok h base lim r0 all_text = (\<lambda>(impl, os). can_rotate h (si_fm impl, os) \<and> fm_name (si_fm impl) = first_name (si_fm impl) \<and>
     fm_base_name (si_fm impl) = base \<and> fm_max_size (si_fm impl) = lim \<and>
     (\<exists>lost c. fm_content (si_fm impl, os) = Some c \<and> all_text = lost @ rotated_text (si_fm impl) os @ c \<and>
        unat (fm_size (si_fm impl)) \<le> length c \<and>
        (lost = [] \<and> rotated_text (si_fm impl) os = r0 \<or> unat (fm_max_size (si_fm impl)) \<le> length (rotated_text (si_fm impl) os))))"

lemma bridge_ok_level: "bridge_ok h base lim r0 t (impl\<lparr>si_level := l\<rparr>, os) = bridge_ok h base lim r0 t (impl, os)"
  by (simp add: bridge_ok_def)

lemma OpenLogFile_limit: "OpenLogFile h fm os = (ok, fm', os') \<Longrightarrow> fm_max_size fm' = fm_max_size fm"
  by (auto simp: OpenLogFile_def split: if_splits sum.splits prod.splits)

lemma reopen_limit: "reopen_after_rename h fm os = (r, fm', os') \<Longrightarrow> fm_max_size fm' = fm_max_size fm"
  by (auto simp: reopen_after_rename_def Let_def dest!: OpenLogFile_limit split: sum.splits prod.splits bool.splits)

lemma Rotate_limit: "Rotate h fm os = (r, fm', os') \<Longrightarrow> fm_max_size fm' = fm_max_size fm"
  by (auto simp: Rotate_def CloseCurrentFile_def Let_def dest!: reopen_limit
      split: if_splits sum.splits prod.splits option.splits bool.splits)

lemma NeedsRotation_length:
  assumes "NeedsRotation fm" "unat (fm_size fm) \<le> n"
  shows "unat (fm_max_size fm) \<le> n"
  using assms by (simp add: NeedsRotation_def word_le_nat_alt)

text \<open>The counted size is at most the length of the file: a line feed counts once, and the counter wraps.\<close>

lemma counted_size_le:
  assumes "unat (s :: size_t) \<le> length c"
  shows "unat (s + of_nat (length d)) \<le> length (c @ text_bytes h d)"
proof -
  have "length d \<le> length (text_bytes h d)" by (induction d) (auto simp: text_bytes_def)
  moreover have "unat (s + of_nat (length d)) \<le> unat s + unat (of_nat (length d) :: size_t)"
    by (simp add: unat_word_ariths)
  moreover have "unat (of_nat (length d) :: size_t) \<le> length d"
    by (simp add: unat_of_nat take_bit_eq_mod)
  ultimately show ?thesis using assms by simp
qed

lemma write_message_ok:
  assumes ok: "bridge_ok h base lim r0 all_text (impl, os)"
  shows "\<exists>impl' os'. write_message h msg impl os = (Inr SPECKIT_SUCCESS, impl', os') \<and>
     bridge_ok h base lim r0 (all_text @ text_bytes h (msg @ [CHR 0x0A])) (impl', os')"
proof -
  let ?line = "text_bytes h (msg @ [CHR 0x0A])"
  from ok obtain lost c where can: "can_rotate h (si_fm impl, os)" and first: "fm_name (si_fm impl) = first_name (si_fm impl)"
    and same: "fm_base_name (si_fm impl) = base" "fm_max_size (si_fm impl) = lim"
    and c: "fm_content (si_fm impl, os) = Some c" "all_text = lost @ rotated_text (si_fm impl) os @ c"
      "unat (fm_size (si_fm impl)) \<le> length c"
      "lost = [] \<and> rotated_text (si_fm impl) os = r0 \<or> unat (fm_max_size (si_fm impl)) \<le> length (rotated_text (si_fm impl) os)"
    by (auto simp: bridge_ok_def)
  obtain ok1 fm1 os1 where w: "Write h (msg @ [CHR 0x0A]) (si_fm impl) os = (ok1, fm1, os1)" by (metis prod_cases3)
  from Write_can_rotate [OF can c(1) w] have W: "can_rotate h (fm1, os1)" "fm_base_name fm1 = fm_base_name (si_fm impl)"
    "fm_name fm1 = fm_name (si_fm impl)" "fm_content (fm1, os1) = Some (c @ ?line)" "ok1"
    "\<forall>q. q \<noteq> fm_name (si_fm impl) \<longrightarrow> file_content q os1 = file_content q os" by blast+
  from Write_total [OF c(1) w] W(4,5) have size: "unat (fm_size fm1) \<le> length (c @ ?line)"
    "fm_max_size fm1 = fm_max_size (si_fm impl)"
    using counted_size_le [OF c(3), of "msg @ [CHR 0x0A]" h] by (auto simp: same_object_def)
  have names: "first_name fm1 = first_name (si_fm impl)" "rotated_name fm1 = rotated_name (si_fm impl)"
    using W(2) by (simp_all add: first_name_def rotated_name_def)
  have rot: "rotated_text fm1 os1 = rotated_text (si_fm impl) os"
    using W(6) first first_name_not_rotated [of "si_fm impl"] by (simp add: rotated_text_def names)
  show ?thesis
  proof (cases "NeedsRotation fm1")
    case False
    have "bridge_ok h base lim r0 (all_text @ ?line) (impl\<lparr>si_fm := fm1\<rparr>, os1)"
      using W(1-4) names first rot c(2,4) size same by (auto simp: bridge_ok_def)
    then show ?thesis using w W(5) False by (simp add: write_message_def)
  next
    case True
    from Rotate_reliable [OF W(1,4)] obtain fm2 os2 where
      r: "Rotate h fm1 os1 = (Inr True, fm2, os2)" "can_rotate h (fm2, os2)" "fm_base_name fm2 = fm_base_name fm1"
        "fm_name fm2 = first_name fm1" "file_content (rotated_name fm1) os2 = Some (c @ ?line)" "fm_size fm2 = 0"
        "fm_content (fm2, os2) = Some (if fm_name fm1 = first_name fm1 then []
           else case file_content (first_name fm1) os1 of None \<Rightarrow> [] | Some x \<Rightarrow> x)" by blast
    have "rotated_name fm2 = rotated_name fm1" "first_name fm2 = first_name fm1" "fm_content (fm2, os2) = Some []"
      using r(3,7) W(3) first names by (simp_all add: first_name_def rotated_name_def)
    then have "bridge_ok h base lim r0 (all_text @ ?line) (impl\<lparr>si_fm := fm2\<rparr>, os2)"
      using r(2-6) c(2) NeedsRotation_length [OF True size(1)] Rotate_limit [OF r(1)] W(2) size(2) same
      by (auto simp: bridge_ok_def rotated_text_def)
    then show ?thesis using w W(5) True r(1) by (simp add: write_message_def)
  qed
qed

lemma bridge_exec_ok:
  assumes "bridge_ok h base lim r0 all_text (impl, os)"
  shows "\<exists>impl' os'. bridge_exec h c (impl, os) = (Inr SPECKIT_SUCCESS, impl', os') \<and>
     si_tagFilter impl' = si_tagFilter impl \<and>
     bridge_ok h base lim r0 (all_text @ text_bytes h (accepted_text (si_tagFilter impl) [c])) (impl', os')"
proof (cases c)
  case (Call_log level tag msg)
  show ?thesis
  proof (cases "passes (si_tagFilter impl) level tag")
    case True
    from write_message_ok [OF assms, of msg] obtain impl' os' where
      "write_message h msg impl os = (Inr SPECKIT_SUCCESS, impl', os')"
      "bridge_ok h base lim r0 (all_text @ text_bytes h (msg @ [CHR 0x0A])) (impl', os')" by blast
    with True Call_log write_message_filter show ?thesis
      by (auto simp: bridge_exec_log simp del: bridge_exec.simps)
  next
    case False
    with assms Call_log show ?thesis by (simp add: bridge_exec_log text_bytes_nil del: bridge_exec.simps)
  qed
next
  case (Call_set_level level)
  with assms show ?thesis by (simp add: bridge_exec_level bridge_ok_level text_bytes_nil del: bridge_exec.simps)
qed

lemma accepted_text_Cons: "accepted_text tf (c # cs) = accepted_text tf [c] @ accepted_text tf cs"
  by (cases c) simp_all

lemma bridge_run_ok:
  assumes "bridge_ok h base lim r0 all_text (impl, os)"
  shows "\<exists>impl' os'. bridge_run h cs (impl, os) = (replicate (length cs) (Inr SPECKIT_SUCCESS), impl', os') \<and>
     bridge_ok h base lim r0 (all_text @ text_bytes h (accepted_text (si_tagFilter impl) cs)) (impl', os')"
  using assms
proof (induction cs arbitrary: all_text impl os)
  case Nil
  then show ?case by (simp add: text_bytes_nil)
next
  case (Cons c cs)
  from bridge_exec_ok [OF Cons.prems, of c] obtain impl1 os1 where
    e: "bridge_exec h c (impl, os) = (Inr SPECKIT_SUCCESS, impl1, os1)" "si_tagFilter impl1 = si_tagFilter impl"
      "bridge_ok h base lim r0 (all_text @ text_bytes h (accepted_text (si_tagFilter impl) [c])) (impl1, os1)" by blast
  from Cons.IH [OF e(3)] e(2) obtain impl' os' where
    "bridge_run h cs (impl1, os1) = (replicate (length cs) (Inr SPECKIT_SUCCESS), impl', os')"
    "bridge_ok h base lim r0 ((all_text @ text_bytes h (accepted_text (si_tagFilter impl) [c])) @
       text_bytes h (accepted_text (si_tagFilter impl) cs)) (impl', os')"
    by auto
  with e(1) show ?case using accepted_text_Cons [of "si_tagFilter impl" c cs] by (simp add: text_bytes_append)
qed

text \<open>
  Whatever is logged through the C interface by the first process, with
  any size limit and so any number of rotations, when no system call fails: every call answers
  success, and the rotated file followed by the current file is at every moment an end part of
  what was there at first followed by the messages that passed the tag filter, one per line, in
  order, as the platform writes text: nothing is reordered, duplicated or torn, and either nothing is missing and the rotated
  file is untouched or the rotated file has reached the size limit.
\<close>

theorem bridge_keeps_the_end:
  assumes "can_rotate h (si_fm impl, os)" "fm_name (si_fm impl) = first_name (si_fm impl)"
    and "fm_content (si_fm impl, os) = Some c" "unat (fm_size (si_fm impl)) \<le> length c"
  shows "\<exists>impl' os' c' lost. bridge_run h cs (impl, os) = (replicate (length cs) (Inr SPECKIT_SUCCESS), impl', os') \<and>
     fm_content (si_fm impl', os') = Some c' \<and>
     lost @ rotated_text (si_fm impl') os' @ c' =
       rotated_text (si_fm impl) os @ c @ text_bytes h (accepted_text (si_tagFilter impl) cs) \<and>
     (lost = [] \<and> rotated_text (si_fm impl') os' = rotated_text (si_fm impl) os \<or>
      unat (fm_max_size (si_fm impl')) \<le> length (rotated_text (si_fm impl') os'))"
proof -
  have "bridge_ok h (fm_base_name (si_fm impl)) (fm_max_size (si_fm impl)) (rotated_text (si_fm impl) os)
      (rotated_text (si_fm impl) os @ c) (impl, os)"
    using assms by (auto simp: bridge_ok_def)
  from bridge_run_ok [OF this, of cs] obtain impl' os' where
    r: "bridge_run h cs (impl, os) = (replicate (length cs) (Inr SPECKIT_SUCCESS), impl', os')"
    "bridge_ok h (fm_base_name (si_fm impl)) (fm_max_size (si_fm impl)) (rotated_text (si_fm impl) os)
       ((rotated_text (si_fm impl) os @ c) @ text_bytes h (accepted_text (si_tagFilter impl) cs)) (impl', os')" by blast
  then obtain lost c' where "fm_content (si_fm impl', os') = Some c'"
    "(rotated_text (si_fm impl) os @ c) @ text_bytes h (accepted_text (si_tagFilter impl) cs) = lost @ rotated_text (si_fm impl') os' @ c'"
    "lost = [] \<and> rotated_text (si_fm impl') os' = rotated_text (si_fm impl) os \<or>
       unat (fm_max_size (si_fm impl')) \<le> length (rotated_text (si_fm impl') os')"
    by (auto simp: bridge_ok_def)
  with r(1) show ?thesis
    by (intro exI [of _ impl'] exI [of _ os'] exI [of _ c'] exI [of _ lost]) simp
qed

definition sample_impl :: SpeckitLoggerImpl where
  "sample_impl = \<lparr>si_fm = open_fm\<lparr>fm_max_size := 4\<rparr>, si_tagFilter = setTagLevel ''net'' kLogLevelError TagFilter_ctor,
     si_level = kLogLevelDebug, si_baseName = ''/w/App'', si_processId = 7\<rparr>"

lemma sample_impl_ok:
  "can_rotate (sample_host (Some MacOS)) (si_fm sample_impl, sample_os [(''/w/App.log'', [])] [''/w''])"
  "fm_name (si_fm sample_impl) = first_name (si_fm sample_impl)"
  "fm_content (si_fm sample_impl, sample_os [(''/w/App.log'', [])] [''/w'']) = Some []"
  "unat (fm_size (si_fm sample_impl)) \<le> length []"
proof -
  show "can_rotate (sample_host (Some MacOS)) (si_fm sample_impl, sample_os [(''/w/App.log'', [])] [''/w''])"
    using open_fm_can_rotate [of "''/w/App.log''" "[(''/w/App.log'', [])]"]
    by (simp add: open_fm_same sample_impl_def can_rotate_def fm_ready_def first_name_def rotated_name_def)
qed (use open_fm_content [of "[]" "[''/w'']"] in
  \<open>simp_all add: sample_impl_def first_name_def open_fm_def FileManager_ctor_def fm_content_def\<close>)

theorem bridge_keeps_the_end_witness:
  "\<exists>impl os c lost. bridge_run (sample_host (Some MacOS))
       [Call_log 1 None ''ab'', Call_log 1 (Some ''net'') ''xx'', Call_log 3 (Some ''net'') ''cd'', Call_log 0 None ''ef'']
       (sample_impl, sample_os [(''/w/App.log'', [])] [''/w'']) = (replicate 4 (Inr SPECKIT_SUCCESS), impl, os) \<and>
     fm_content (si_fm impl, os) = Some c \<and>
     lost @ rotated_text (si_fm impl) os @ c = ''ab'' @ [CHR 0x0A] @ ''cd'' @ [CHR 0x0A] @ ''ef'' @ [CHR 0x0A]"
proof -
  let ?cs = "[Call_log 1 None ''ab'', Call_log 1 (Some ''net'') ''xx'', Call_log 3 (Some ''net'') ''cd'', Call_log 0 None ''ef'']"
  have acc: "accepted_text (si_tagFilter sample_impl) ?cs = ''ab'' @ [CHR 0x0A] @ ''cd'' @ [CHR 0x0A] @ ''ef'' @ [CHR 0x0A]"
    by (simp add: sample_impl_def passes_def setTagLevel_def isTagEnabled_def getTagLevel_def TagFilter_ctor_def
        LogLevel_of_int_def level_int8_def level_defs)
  have rot: "rotated_text (si_fm sample_impl) (sample_os [(''/w/App.log'', [])] [''/w'']) = []"
    by (simp add: rotated_text_def rotated_name_def sample_impl_def open_fm_def FileManager_ctor_def file_content_def sample_os_def)
  have len: "length ?cs = 4" by simp
  have posix: "text_bytes (sample_host (Some MacOS)) s = s" for s by (simp add: text_bytes_posix)
  from bridge_keeps_the_end [OF sample_impl_ok, of ?cs] show ?thesis unfolding acc rot len posix append_Nil by blast
qed

section \<open>Errors\<close>

lemma write_message_closed:
  "fm_file (si_fm impl) = None \<Longrightarrow> write_message h msg impl os = (Inr SPECKIT_ERROR_FILE_IO, impl, os)"
  by (simp add: write_message_def Write_def)

lemma log_closed:
  assumes "fm_file (si_fm impl) = None"
  shows "speckit_logger_log h (Some impl) level tag (Some msg) os =
     (Inr (if passes (si_tagFilter impl) level tag then SPECKIT_ERROR_FILE_IO else SPECKIT_SUCCESS), Some impl, os)"
  by (simp add: speckit_logger_log_def write_message_closed [OF assms])

text \<open>
  A log call whose rotation fails answers success, and it is the last message of that logger:
  from then on every message that passes the filter is answered with
  \<open>SPECKIT_ERROR_FILE_IO\<close> and nothing reaches the system, however it has recovered.
\<close>

theorem failed_rotation_answers_success:
  assumes "passes (si_tagFilter impl) level tag" "Write h (msg @ [CHR 0x0A]) (si_fm impl) os = (True, fm1, os1)"
    and "NeedsRotation fm1" "Rotate h fm1 os1 = (Inr False, fm2, os2)"
  shows "\<exists>impl'. speckit_logger_log h (Some impl) level tag (Some msg) os = (Inr SPECKIT_SUCCESS, Some impl', os2) \<and>
     speckit_logger_log h (Some impl') level' tag' (Some msg') os3 =
       (Inr (if passes (si_tagFilter impl) level' tag' then SPECKIT_ERROR_FILE_IO else SPECKIT_SUCCESS), Some impl', os3)"
proof -
  have "fm_file (si_fm (impl\<lparr>si_fm := fm2\<rparr>)) = None" using Rotate_failed [OF assms(4)] by simp
  from log_closed [OF this, of h level' tag' msg' os3] assms show ?thesis
    by (intro exI [of _ "impl\<lparr>si_fm := fm2\<rparr>"]) (simp add: speckit_logger_log_def write_message_def)
qed

text \<open>A directory that has the name of the rotated file makes the rotation fail.\<close>

lemma Rotate_blocked:
  assumes ready: "fm_ready (fm, os)" "fm_content (fm, os) = Some c"
    and abs: "is_absolute (host_platform h) (fm_base_name fm)" and cwd: "os_cwd os = Some d" "is_directory d os"
    and block: "is_directory (rotated_name fm) os"
  shows "\<exists>os'. Rotate h fm os = (Inr False, fm\<lparr>fm_file := None\<rparr>, os')"
proof -
  from ready obtain f where f: "fm_file fm = Some f" "reliable os" "stream_content f os = Some c"
    by (auto simp: fm_ready_def fm_content_def split: option.splits)
  let ?fm1 = "fm\<lparr>fm_file := None\<rparr>" and ?os1 = "fclose f os"
  note keep = same_system_keeps [OF fclose_reliable(1) [OF f(2,3)]]
  from GetHistoricalFiles_reliable [of ?os1 h ?fm1 d] f(2) abs cwd keep obtain os2 where
    g: "GetHistoricalFiles h ?fm1 ?os1 = (Inr [], os2)" "same_system ?os1 os2" by auto
  have "is_directory (rotated_name fm) os2" using block keep(2) same_system_keeps(2) [OF g(2)] by simp
  moreover have "SequenceName ?fm1 1 = rotated_name fm"
    using rotated_name_is_first_sequence [of fm] by (simp add: SequenceName_def)
  ultimately obtain os3 where "RenameWithSequence h ?fm1 1 os2 = (False, os3)"
    by (simp add: RenameWithSequence_def fs_rename_def syscall_def Let_def is_directory_def)
  then show ?thesis using f(1) g(1) by (simp add: Rotate_def CloseCurrentFile_def CalculateNextSequenceNumber_def)
qed

theorem failed_rotation_answers_success_witness:
  "\<exists>impl os. speckit_logger_log (sample_host (Some MacOS)) (Some sample_impl) 1 None (Some ''abcd'')
       (sample_os [(''/w/App.log'', [])] [''/w'', ''/w/App.1.log'']) = (Inr SPECKIT_SUCCESS, Some impl, os) \<and>
     speckit_logger_log (sample_host (Some MacOS)) (Some impl) 1 None (Some ''lost'') os =
       (Inr SPECKIT_ERROR_FILE_IO, Some impl, os)"
proof -
  let ?h = "sample_host (Some MacOS)" let ?os = "sample_os [(''/w/App.log'', [])] [''/w'', ''/w/App.1.log'']"
  let ?fm = "si_fm sample_impl"
  have pass: "passes (si_tagFilter sample_impl) 1 None"
    by (simp add: sample_impl_def passes_def setTagLevel_def isTagEnabled_def getTagLevel_def TagFilter_ctor_def
        LogLevel_of_int_def level_int8_def level_defs)
  have init: "fm_content (?fm, ?os) = Some []" "fm_ready (?fm, ?os)"
    using open_fm_content [of "[]"] open_fm_ready by (simp_all add: sample_impl_def fm_content_def fm_ready_def)
  have base: "fm_base_name ?fm = ''/w/App''" "fm_size ?fm = 0" "fm_max_size ?fm = 4" "fm_file ?fm \<noteq> None"
    by (simp_all add: sample_impl_def open_fm_def FileManager_ctor_def)
  have dirs: "os_cwd ?os = Some ''/w''" "is_directory ''/w'' ?os" "is_directory ''/w/App.1.log'' ?os"
    by (simp_all add: sample_os_def is_directory_def)
  obtain ok fm1 os1 where w: "Write ?h (''abcd'' @ [CHR 0x0A]) ?fm ?os = (ok, fm1, os1)" by (metis prod_cases3)
  from Write_total [OF init(1) w] init(2) have W: "ok" "fm_content (fm1, os1) = Some (''abcd'' @ [CHR 0x0A])"
    "same_object ?fm fm1" "os_fails os1 = os_fails ?os" "fm_size fm1 = 5"
    by (auto simp: base text_bytes_def)
  from Write_frame [OF w] base(4) have sys: "same_system ?os os1" by auto
  have "NeedsRotation fm1" using W(3,5) base(3) by (simp add: NeedsRotation_def same_object_def)
  moreover have "is_absolute (host_platform ?h) (fm_base_name fm1)" "rotated_name fm1 = ''/w/App.1.log''"
    using W(3) base(1) by (simp_all add: same_object_def is_absolute_def is_sep_def rotated_name_def)
  moreover have "fm_ready (fm1, os1)" by (rule fm_ready_kept [OF init(2) W(3,4)])
  ultimately obtain os2 where "NeedsRotation fm1" "Rotate ?h fm1 os1 = (Inr False, fm1\<lparr>fm_file := None\<rparr>, os2)"
    using Rotate_blocked [of fm1 os1 _ ?h "''/w''"] W(2) dirs same_system_keeps [OF sys] by auto
  from failed_rotation_answers_success [OF pass _ this, of "''abcd''" ?os 1 None "''lost''" os2] w W(1) pass
  show ?thesis by auto
qed

lemma choose_and_open_failed: "choose_and_open h fm os = (Inr False, fm', os') \<Longrightarrow> fm_file fm' = None"
  by (auto simp: choose_and_open_def Let_def dest: OpenLogFile_failed split: sum.splits prod.splits bool.splits)

lemma Initialize_failed:
  assumes "Initialize h pid fm os = (Inr False, fm', os')" "fm_file fm = None"
  shows "fm_file fm' = None"
  using assms
  by (auto simp: Initialize_def Let_def dest: choose_and_open_failed split: if_splits sum.splits prod.splits bool.splits)

text \<open>
  \<open>speckit_logger_create\<close> is documented to return null on an error, but when the log file
  cannot be opened it returns a logger all the same, and every message that passes the filter
  is then answered with \<open>SPECKIT_ERROR_FILE_IO\<close>.
\<close>

theorem create_hides_failure:
  assumes "Initialize h pid (FileManager_ctor base) os = (Inr False, fm, os1)"
  shows "\<exists>impl. speckit_logger_create h pid (Some base) os = (Inr (Some impl), os1) \<and>
     speckit_logger_log h (Some impl) level tag (Some msg) os2 =
       (Inr (if passes TagFilter_ctor level tag then SPECKIT_ERROR_FILE_IO else SPECKIT_SUCCESS), Some impl, os2)"
proof -
  let ?impl = "\<lparr>si_fm = fm, si_tagFilter = TagFilter_ctor, si_level = kLogLevelDebug, si_baseName = base, si_processId = pid\<rparr>"
  have "fm_file (si_fm ?impl) = None" using Initialize_failed [OF assms] by (simp add: FileManager_ctor_def)
  from log_closed [OF this, of h level tag msg os2] assms show ?thesis
    by (intro exI [of _ ?impl]) (simp add: speckit_logger_create_def)
qed

text \<open>A system that refuses to create the directory.\<close>

theorem create_hides_failure_witness:
  "\<exists>impl os. speckit_logger_create (sample_host (Some MacOS)) 7 (Some ''/x/App'')
       ((sample_os [] [''/w''])\<lparr>os_fails := (\<lambda>k. k \<ge> 1)\<rparr>) = (Inr (Some impl), os) \<and>
     speckit_logger_log (sample_host (Some MacOS)) (Some impl) 1 None (Some ''lost'') (sample_os [] [''/w'']) =
       (Inr SPECKIT_ERROR_FILE_IO, Some impl, sample_os [] [''/w''])"
proof -
  let ?h = "sample_host (Some MacOS)"  let ?os = "(sample_os [] [''/w''])\<lparr>os_fails := (\<lambda>k. k \<ge> 1)\<rparr>"
  have "parent_path (Some MacOS) ''/x/App'' = ''/x''" "is_absolute (Some MacOS) ''/x/App''"
    by (simp_all add: parent_path_def root_length_def root_name_length_def is_sep_def last_part_def strip_seps_def
        is_absolute_def)
  then obtain fm os where i: "Initialize ?h 7 (FileManager_ctor ''/x/App'') ?os = (Inr False, fm, os)"
    by (simp add: Initialize_def EnsureParentDirectoryExists_def FileManager_ctor_def fs_exists_def
        fs_create_directories_def syscall_def sample_os_def is_file_def is_directory_def Let_def)
  have "passes TagFilter_ctor 1 None"
    by (simp add: passes_def isTagEnabled_def getTagLevel_def TagFilter_ctor_def
        LogLevel_of_int_def level_int8_def level_defs)
  with create_hides_failure [OF i, of 1 None "''lost''" "sample_os [] [''/w'']"] show ?thesis by auto
qed

section \<open>Archiving\<close>

text \<open>
  The archive is looked for in the wrong place: the logger creates and writes its files in
  the directory its base name names, but \<open>speckit_logger_archive\<close>, given the same base name, only
  looks into the current directory; so when that holds no file whose name starts like the base's, it
  answers -1 and makes no archive, whatever log files there are where they were written.
\<close>

theorem archive_looks_in_current_directory:
  assumes "reliable os" "os_cwd os = Some cwd" "is_directory cwd os"
    and "\<forall>p. is_file p os \<and> parent_path (host_platform h) p = cwd \<longrightarrow>
       take (length (filename_of (host_platform h) base)) (filename_of (host_platform h) p) \<noteq> filename_of (host_platform h) base"
  shows "\<exists>os'. speckit_logger_archive h lib localtime now pid (Some base) os z = (Inr (- 1), os', z)"
proof -
  from createArchive_elsewhere [OF assms, of lib "sint pid" "archive_timestamp (localtime now)" z] obtain os' where
    "createArchive h lib base (sint pid) (archive_timestamp (localtime now)) os z = (Inr False, os', z)" by blast
  then show ?thesis by (simp add: speckit_logger_archive_def)
qed

theorem archive_looks_in_current_directory_witness:
  "\<exists>os'. file_content ''/w/logs/App.log'' (sample_os [(''/w/logs/App.log'', ''text'')] [''/w'', ''/w/logs'']) = Some ''text'' \<and>
     speckit_logger_archive (sample_host (Some MacOS)) sample_zip (fe_localtime sample_env) 86400 7 (Some ''/w/logs/App'')
       (sample_os [(''/w/logs/App.log'', ''text'')] [''/w'', ''/w/logs'']) [3] = (Inr (- 1), os', [3])"
proof -
  let ?os = "sample_os [(''/w/logs/App.log'', ''text'')] [''/w'', ''/w/logs'']"
  have 1: "os_cwd ?os = Some ''/w''" "is_directory ''/w'' ?os" by (simp_all add: sample_os_def is_directory_def)
  have "parent_path (Some MacOS) ''/w/logs/App.log'' = ''/w/logs''"
    by (simp add: parent_path_def root_length_def root_name_length_def is_sep_def last_part_def strip_seps_def)
  then have 2: "\<forall>p. is_file p ?os \<and> parent_path (host_platform (sample_host (Some MacOS))) p = ''/w'' \<longrightarrow>
       take (length (filename_of (host_platform (sample_host (Some MacOS))) ''/w/logs/App''))
         (filename_of (host_platform (sample_host (Some MacOS))) p) \<noteq>
         filename_of (host_platform (sample_host (Some MacOS))) ''/w/logs/App''"
    by (auto simp: is_file_def sample_os_def)
  have "file_content ''/w/logs/App.log'' ?os = Some ''text''" by (simp add: file_content_def sample_os_def)
  with archive_looks_in_current_directory [OF sample_os_reliable 1 2, of sample_zip "fe_localtime sample_env" 86400 7 "[3]"]
  show ?thesis by simp
qed

end
