(* ===== verification/Bridge_Life.thy ===== *)
theory Bridge_Life
  imports C_Bridge
begin

text \<open>
  The life of a logger of the C interface, from \<open>speckit_logger_create\<close> to \<open>speckit_logger_destroy\<close>, and
  what the integration tests of the repository would find in its file.
\<close>

section \<open>Creation\<close>

text \<open>The process lock says that this is the first process, whatever else happens to the files.\<close>

definition lock_is_free :: "'k host \<Rightarrow> string \<Rightarrow> 'k os \<Rightarrow> bool" where
  "lock_is_free h base os \<longleftrightarrow>
     (\<forall>os'. os_ipc os' = os_ipc os \<longrightarrow> fst (IsAnotherProcessLogging h base None os') = Inr False)"

lemma Initialize_name:
  assumes "Initialize h pid fm os = (Inr True, fm', os')" "\<not> fm_initialized fm" "fm_mutex fm = None"
    and "fm_base_name fm' = base" "lock_is_free h base os"
  shows "fm_name fm' = first_name fm'"
  using Initialize_lock [OF assms(1-3)] assms(4,5)
  by (metis GenerateFileName_def first_name_def fst_conv lock_is_free_def sum.inject(2))

text \<open>
  A system on which a logger with this base name can be created and rotated: no call fails, the
  absolute base name is usable, and neither a log name nor the rotated name is a directory.
\<close>

definition bridge_can_create :: "'k host \<Rightarrow> ProcessIdType \<Rightarrow> string \<Rightarrow> string \<Rightarrow> 'k os \<Rightarrow> bool" where
  "bridge_can_create h pid base full os \<longleftrightarrow>
     can_open h pid base full os \<and> (\<exists>cwd. os_cwd os = Some cwd \<and> is_directory cwd os) \<and>
     \<not> is_directory (full @ ''.1.log'') os \<and> lock_is_free h full os"

lemma longer_name_not_ancestor: "x \<noteq> [] \<Longrightarrow> p @ x \<notin> set (ancestors pl (parent_path pl p))"
proof
  assume "x \<noteq> []" "p @ x \<in> set (ancestors pl (parent_path pl p))"
  then have "length (p @ x) \<le> length p" using ancestor_length parent_path_le order_trans by blast
  with \<open>x \<noteq> []\<close> show False by simp
qed

lemma bridge_created:
  assumes "bridge_can_create h pid base full os"
  shows "\<exists>impl os1. speckit_logger_create h pid (Some base) os = (Inr (Some impl), os1) \<and>
     si_tagFilter impl = TagFilter_ctor \<and>
     bridge_ok h full (10 * 1024 * 1024) (text_at (full @ ''.1.log'') os)
       (text_at (full @ ''.1.log'') os @ text_at (full @ ''.log'') os) (impl, os1)"
proof -
  let ?fm = "FileManager_ctor base" and ?pl = "host_platform h"
  have ctor: "\<not> fm_initialized ?fm" "fm_mutex ?fm = None" by (simp_all add: FileManager_ctor_def)
  from assms obtain cwd where can: "can_open h pid base full os" "os_cwd os = Some cwd" "is_directory cwd os"
    "\<not> is_directory (full @ ''.1.log'') os" "lock_is_free h full os"
    unfolding bridge_can_create_def by blast
  from can_open_Initialize [OF can(1)] obtain fm os1 where
    i: "Initialize h pid ?fm os = (Inr True, fm, os1)" "fm_ready (fm, os1)" "fm_base_name fm = full"
      "fm_content (fm, os1) = Some (text_at (fm_name fm) os)"
      "fm_size fm = of_nat (length (text_at (fm_name fm) os))"
      "\<forall>q. q \<noteq> fm_name fm \<longrightarrow> file_content q os1 = file_content q os"
      "map_option f_path (fm_file fm) = Some (fm_name fm)" "fm_max_size fm = 10 * 1024 * 1024"
      "os_cwd os1 = os_cwd os" "is_directory (parent_path ?pl full) os1"
      "\<forall>d. is_directory d os \<longrightarrow> is_directory d os1"
      "\<forall>d. is_directory d os1 \<longrightarrow> is_directory d os \<or> d \<in> set (ancestors ?pl (parent_path ?pl full))" by blast
  have name: "fm_name fm = first_name fm" by (rule Initialize_name [OF i(1) ctor i(3) can(5)])
  have names: "first_name fm = full @ ''.log''" "rotated_name fm = full @ ''.1.log''"
    by (simp_all add: first_name_def rotated_name_def i(3))
  have gen: "GenerateFileName h True (?fm\<lparr>fm_base_name := full, fm_process_id := pid\<rparr>) = full @ ''.log''"
    by (simp add: GenerateFileName_def)
  have first: "openable h (full @ ''.log'')" "\<not> is_directory (full @ ''.log'') os" "usable_base ?pl full"
    using can(1) gen unfolding can_open_def Let_def by metis+
  have new: "\<not> is_directory (full @ x) os1" if "\<not> is_directory (full @ x) os" "x \<noteq> []" for x
    using i(12) that longer_name_not_ancestor by blast
  have dirs: "\<not> is_directory (full @ ''.log'') os1" "\<not> is_directory (full @ ''.1.log'') os1"
    using new [OF first(2)] new [OF can(4)] by simp_all
  have rot: "can_rotate h (fm, os1)"
    unfolding can_rotate_def prod.case using i(2,3,7,9-11) can(2,3) name first dirs names first_name_not_rotated [of fm]
    by auto
  have len: "unat (of_nat n :: size_t) \<le> n" for n by (simp add: unat_of_nat take_bit_eq_mod)
  have "file_content (full @ ''.1.log'') os1 = file_content (full @ ''.1.log'') os"
    using i(6) first_name_not_rotated [of fm] unfolding name names by simp
  then have "rotated_text fm os1 = text_at (full @ ''.1.log'') os" by (simp add: rotated_text_def text_at_def names)
  moreover have "fm_content (fm, os1) = Some (text_at (full @ ''.log'') os)" "unat (fm_size fm) \<le> length (text_at (full @ ''.log'') os)"
    using i(4,5) len unfolding name names by simp_all
  ultimately have "bridge_ok h full (10 * 1024 * 1024) (text_at (full @ ''.1.log'') os)
       (text_at (full @ ''.1.log'') os @ text_at (full @ ''.log'') os)
      (\<lparr>si_fm = fm, si_tagFilter = TagFilter_ctor, si_level = kLogLevelDebug, si_baseName = base, si_processId = pid\<rparr>, os1)"
    using rot name i(3,8) unfolding bridge_ok_def prod.case by simp
  with i(1) show ?thesis by (simp add: speckit_logger_create_def)
qed

section \<open>From create to destroy\<close>

lemma CleanupMutex_files: "CleanupMutex h m os = (m', os') \<Longrightarrow> file_content p os' = file_content p os"
  by (auto simp: CleanupMutex_def file_content_def split: option.splits platform.splits)

lemma destroy_ok:
  assumes "bridge_ok h full lim r0 all_text (impl, os)"
  shows "\<exists>os' lost. speckit_logger_destroy h (Some impl) os = (SPECKIT_SUCCESS, os') \<and>
     all_text = lost @ text_at (full @ ''.1.log'') os' @ text_at (full @ ''.log'') os' \<and>
     (lost = [] \<and> text_at (full @ ''.1.log'') os' = r0 \<or> unat lim \<le> length (text_at (full @ ''.1.log'') os'))"
proof -
  from assms obtain lost c where b: "can_rotate h (si_fm impl, os)" "fm_name (si_fm impl) = first_name (si_fm impl)"
    "fm_base_name (si_fm impl) = full" "fm_max_size (si_fm impl) = lim" "fm_content (si_fm impl, os) = Some c"
    "all_text = lost @ rotated_text (si_fm impl) os @ c"
    "lost = [] \<and> rotated_text (si_fm impl) os = r0 \<or> unat lim \<le> length (rotated_text (si_fm impl) os)"
    by (auto simp: bridge_ok_def)
  from b(1) obtain f where f: "fm_file (si_fm impl) = Some f" "f_path f = fm_name (si_fm impl)" "reliable os"
    by (auto simp: can_rotate_def fm_ready_def split: option.splits)
  have names: "first_name (si_fm impl) = full @ ''.log''" "rotated_name (si_fm impl) = full @ ''.1.log''"
    by (simp_all add: first_name_def rotated_name_def b(3))
  have path: "f_path f = full @ ''.log''" using f(2) b(2) names by simp
  have c: "stream_content f os = Some c" using b(5) f(1) by (simp add: fm_content_def)
  obtain m os' where m: "CleanupMutex h (fm_mutex (si_fm impl)) (fclose f os) = (m, os')" by fastforce
  have files: "text_at (full @ ''.log'') os' = c" "text_at (full @ ''.1.log'') os' = rotated_text (si_fm impl) os"
    using CleanupMutex_files [OF m] fclose_reliable(2) [OF f(3) c] fclose_reliable(3) [OF f(3) c, of "full @ ''.1.log''"]
    by (simp_all add: text_at_def rotated_text_def path names)
  have "speckit_logger_destroy h (Some impl) os = (SPECKIT_SUCCESS, os')"
    using f(1) m by (simp add: speckit_logger_destroy_def FileManager_dtor_def CloseCurrentFile_def)
  with b(6,7) files show ?thesis by (intro exI [of _ os'] exI [of _ lost]) simp
qed

lemma bridge_life_run:
  assumes "bridge_can_create h pid base full os"
  shows "\<exists>impl os1 impl' os2 os3 lost. speckit_logger_create h pid (Some base) os = (Inr (Some impl), os1) \<and>
     bridge_run h cs (impl, os1) = (replicate (length cs) (Inr SPECKIT_SUCCESS), impl', os2) \<and>
     speckit_logger_destroy h (Some impl') os2 = (SPECKIT_SUCCESS, os3) \<and>
     lost @ text_at (full @ ''.1.log'') os3 @ text_at (full @ ''.log'') os3 =
       text_at (full @ ''.1.log'') os @ text_at (full @ ''.log'') os @ text_bytes h (accepted_text TagFilter_ctor cs) \<and>
     (lost = [] \<and> text_at (full @ ''.1.log'') os3 = text_at (full @ ''.1.log'') os \<or>
      10 * 1024 * 1024 \<le> length (text_at (full @ ''.1.log'') os3))"
proof -
  from bridge_created [OF assms] obtain impl os1 where
    c: "speckit_logger_create h pid (Some base) os = (Inr (Some impl), os1)" "si_tagFilter impl = TagFilter_ctor"
      "bridge_ok h full (10 * 1024 * 1024) (text_at (full @ ''.1.log'') os)
         (text_at (full @ ''.1.log'') os @ text_at (full @ ''.log'') os) (impl, os1)" by blast
  from bridge_run_ok [OF c(3), of cs] obtain impl' os2 where
    r: "bridge_run h cs (impl, os1) = (replicate (length cs) (Inr SPECKIT_SUCCESS), impl', os2)"
      "bridge_ok h full (10 * 1024 * 1024) (text_at (full @ ''.1.log'') os)
         ((text_at (full @ ''.1.log'') os @ text_at (full @ ''.log'') os) @ text_bytes h (accepted_text TagFilter_ctor cs))
         (impl', os2)" unfolding c(2) by blast
  from destroy_ok [OF r(2)] obtain os3 lost where
    d: "speckit_logger_destroy h (Some impl') os2 = (SPECKIT_SUCCESS, os3)"
      "(text_at (full @ ''.1.log'') os @ text_at (full @ ''.log'') os) @ text_bytes h (accepted_text TagFilter_ctor cs) =
         lost @ text_at (full @ ''.1.log'') os3 @ text_at (full @ ''.log'') os3"
      "lost = [] \<and> text_at (full @ ''.1.log'') os3 = text_at (full @ ''.1.log'') os \<or>
       unat (10 * 1024 * 1024 :: size_t) \<le> length (text_at (full @ ''.1.log'') os3)" by blast
  have lim: "unat (10 * 1024 * 1024 :: size_t) = 10 * 1024 * 1024" by simp
  show ?thesis
    using c(1) r(1) d(1) d(2) [symmetric] d(3) unfolding lim append_assoc
    by (intro exI [of _ impl] exI [of _ os1] exI [of _ impl'] exI [of _ os2] exI [of _ os3] exI [of _ lost]) (rule conjI | assumption)+
qed

text \<open>
  C8: the C interface from the first call to the last: where a logger of the first process can be created,
  \<open>speckit_logger_create\<close> returns one, every call on it answers success, and so does
  \<open>speckit_logger_destroy\<close>, after which the rotated file followed by the log file holds what was in
  both at first followed by the messages that passed the filter, one per line and in order, as the
  platform writes text: all of it and with the rotated file untouched, or, after a rotation, an end
  part of it of which the rotated file is at least 10 MiB.
\<close>

theorem bridge_life:
  assumes "bridge_can_create h pid base full os"
  shows "\<exists>impl os1 impl' os2 os3 lost. speckit_logger_create h pid (Some base) os = (Inr (Some impl), os1) \<and>
     bridge_run h cs (impl, os1) = (replicate (length cs) (Inr SPECKIT_SUCCESS), impl', os2) \<and>
     speckit_logger_destroy h (Some impl') os2 = (SPECKIT_SUCCESS, os3) \<and>
     lost @ text_at (full @ ''.1.log'') os3 @ text_at (full @ ''.log'') os3 =
       text_at (full @ ''.1.log'') os @ text_at (full @ ''.log'') os @ text_bytes h (accepted_text TagFilter_ctor cs) \<and>
     (lost = [] \<and> text_at (full @ ''.1.log'') os3 = text_at (full @ ''.1.log'') os \<or>
      10 * 1024 * 1024 \<le> length (text_at (full @ ''.1.log'') os3))"
  by (rule bridge_life_run [OF assms])

lemma default_passes: "0 \<le> level_int8 (LogLevel_of_int level) \<Longrightarrow> passes TagFilter_ctor level tag"
  by (simp add: passes_def isTagEnabled_def getTagLevel_def TagFilter_ctor_def level_int8_def level_defs Let_def)

lemma named_levels: "0 \<le> level_int8 (LogLevel_of_int 0)" "0 \<le> level_int8 (LogLevel_of_int 1)"
    "0 \<le> level_int8 (LogLevel_of_int 2)" "0 \<le> level_int8 (LogLevel_of_int 3)"
  by (simp_all add: LogLevel_of_int_def level_int8_def level_defs)

lemmas named_pass = named_levels [THEN default_passes]

section \<open>The integration tests\<close>

text \<open>As long as everything together stays below 10 MiB, the log file just grows by the messages.\<close>

lemma bridge_life_short:
  assumes "bridge_can_create h pid base full os"
    and "length (text_at (full @ ''.1.log'') os @ text_at (full @ ''.log'') os @ text_bytes h (accepted_text TagFilter_ctor cs)) <
      10 * 1024 * 1024"
  shows "\<exists>impl os1 impl' os2 os3. speckit_logger_create h pid (Some base) os = (Inr (Some impl), os1) \<and>
     bridge_run h cs (impl, os1) = (replicate (length cs) (Inr SPECKIT_SUCCESS), impl', os2) \<and>
     speckit_logger_destroy h (Some impl') os2 = (SPECKIT_SUCCESS, os3) \<and>
     text_at (full @ ''.log'') os3 = text_at (full @ ''.log'') os @ text_bytes h (accepted_text TagFilter_ctor cs)"
proof -
  from bridge_life_run [OF assms(1), of cs] obtain impl os1 impl' os2 os3 lost where
    r: "speckit_logger_create h pid (Some base) os = (Inr (Some impl), os1)"
      "bridge_run h cs (impl, os1) = (replicate (length cs) (Inr SPECKIT_SUCCESS), impl', os2)"
      "speckit_logger_destroy h (Some impl') os2 = (SPECKIT_SUCCESS, os3)"
    and t: "lost @ text_at (full @ ''.1.log'') os3 @ text_at (full @ ''.log'') os3 =
       text_at (full @ ''.1.log'') os @ text_at (full @ ''.log'') os @ text_bytes h (accepted_text TagFilter_ctor cs)"
      "lost = [] \<and> text_at (full @ ''.1.log'') os3 = text_at (full @ ''.1.log'') os \<or>
       10 * 1024 * 1024 \<le> length (text_at (full @ ''.1.log'') os3)" by blast
  have "length (lost @ text_at (full @ ''.1.log'') os3 @ text_at (full @ ''.log'') os3) < 10 * 1024 * 1024"
    using assms(2) unfolding t(1) .
  then have "lost = [] \<and> text_at (full @ ''.1.log'') os3 = text_at (full @ ''.1.log'') os" using t(2) by auto
  with t(1) have "text_at (full @ ''.log'') os3 = text_at (full @ ''.log'') os @ text_bytes h (accepted_text TagFilter_ctor cs)"
    by simp
  with r show ?thesis by blast
qed

text \<open>
  \<open>AsyncLog_LevelFilteringWorks\<close> of \<open>tests/integration/test_async_logging.cpp\<close> sets the level to
  \<open>WARNING\<close>, logs one message of each level and expects that the first two are not in the file. They are.
\<close>

definition level_filter_test :: "bridge_call list" where
  "level_filter_test =
     [Call_set_level 2, Call_log 0 (Some ''Test'') ''Debug'', Call_log 1 (Some ''Test'') ''Info'',
      Call_log 2 (Some ''Test'') ''Warning'', Call_log 3 (Some ''Test'') ''Error'']"

theorem level_filter_test_fails:
  assumes "bridge_can_create h pid base full os" "text_at (full @ ''.log'') os = []" "text_at (full @ ''.1.log'') os = []"
  shows "\<exists>impl os1 impl' os2 os3. speckit_logger_create h pid (Some base) os = (Inr (Some impl), os1) \<and>
     bridge_run h level_filter_test (impl, os1) = (replicate 5 (Inr SPECKIT_SUCCESS), impl', os2) \<and>
     speckit_logger_destroy h (Some impl') os2 = (SPECKIT_SUCCESS, os3) \<and>
     text_at (full @ ''.log'') os3 = text_bytes h (''Debug'' @ [CHR 0x0A] @ ''Info'' @ [CHR 0x0A] @
       ''Warning'' @ [CHR 0x0A] @ ''Error'' @ [CHR 0x0A])"
proof -
  let ?text = "''Debug'' @ [CHR 0x0A] @ ''Info'' @ [CHR 0x0A] @ ''Warning'' @ [CHR 0x0A] @ ''Error'' @ [CHR 0x0A]"
  have acc: "accepted_text TagFilter_ctor level_filter_test = ?text" by (simp add: level_filter_test_def named_pass)
  have five: "length level_filter_test = 5" by (simp add: level_filter_test_def)
  have "length (text_bytes h ?text) < 10 * 1024 * 1024" by (simp add: text_bytes_def)
  then have short: "length (text_at (full @ ''.1.log'') os @ text_at (full @ ''.log'') os @
      text_bytes h (accepted_text TagFilter_ctor level_filter_test)) < 10 * 1024 * 1024"
    unfolding acc assms(2,3) append_Nil .
  from bridge_life_short [OF assms(1) short] show ?thesis unfolding acc assms(2) five append_Nil .
qed

text \<open>
  The other tests of that file look for \<open>[INFO]\<close> or \<open>[Network]\<close> in what they have logged. The C interface
  writes neither the level nor the tag: the file holds the bare messages.
\<close>

theorem bridge_lines_are_bare:
  assumes "bridge_can_create h pid base full os"
    and "text_at (full @ ''.log'') os = []" "text_at (full @ ''.1.log'') os = []"
    and "list_all (\<lambda>(level, tag, text). level \<in> {0, 1, 2, 3}) messages"
    and "length (text_bytes h (concat (map (\<lambda>(level, tag, text). text @ [CHR 0x0A]) messages))) < 10 * 1024 * 1024"
  shows "\<exists>impl os1 impl' os2 os3. speckit_logger_create h pid (Some base) os = (Inr (Some impl), os1) \<and>
     bridge_run h (map (\<lambda>(level, tag, text). Call_log level tag text) messages) (impl, os1) =
       (replicate (length messages) (Inr SPECKIT_SUCCESS), impl', os2) \<and>
     speckit_logger_destroy h (Some impl') os2 = (SPECKIT_SUCCESS, os3) \<and>
     text_at (full @ ''.log'') os3 = text_bytes h (concat (map (\<lambda>(level, tag, text). text @ [CHR 0x0A]) messages))"
proof -
  let ?cs = "map (\<lambda>(level, tag, text). Call_log level tag text) messages"
  have acc: "accepted_text TagFilter_ctor ?cs = concat (map (\<lambda>(level, tag, text). text @ [CHR 0x0A]) messages)"
    using assms(4) by (induction messages) (auto simp: named_pass)
  have short: "length (text_at (full @ ''.1.log'') os @ text_at (full @ ''.log'') os @
      text_bytes h (accepted_text TagFilter_ctor ?cs)) < 10 * 1024 * 1024"
    using assms(5) unfolding acc assms(2,3) append_Nil .
  from bridge_life_short [OF assms(1) short] show ?thesis unfolding acc assms(2) length_map append_Nil .
qed

section \<open>An example\<close>

lemma sample_bridge:
  "bridge_can_create (sample_host (Some MacOS)) 7 ''App'' ''/w/App'' (sample_os [(''/w/App.log'', ''old'')] [''/w''])"
proof -
  let ?h = "sample_host (Some MacOS)" let ?os = "sample_os [(''/w/App.log'', ''old'')] [''/w'']"
  have cwd: "os_cwd ?os = Some ''/w''" "is_directory ''/w'' ?os" by (simp_all add: sample_os_def is_directory_def)
  have full: "''/w/App'' = absolute_base ?h ''/w'' ''App''"
    by (simp add: absolute_base_def path_append_def is_absolute_def is_sep_def Let_def preferred_sep_def filename_of_def
        last_part_def root_length_def root_name_length_def)
  have parent: "parent_path (Some MacOS) ''/w/App'' = ''/w''"
    by (simp add: parent_path_def root_length_def root_name_length_def is_sep_def last_part_def strip_seps_def)
  have usable: "usable_base (Some MacOS) ''/w/App''" by (simp add: usable_base_def is_absolute_def is_sep_def)
  have free: "lock_is_free ?h ''/w/App'' ?os"
    by (simp add: lock_is_free_def IsAnotherProcessLogging_def IsAnotherProcessLoggingPOSIX_def Let_def)
      (simp add: sample_host_def sample_os_def)
  have log_file: "is_file d ?os \<longleftrightarrow> d = ''/w/App.log''" for d by (auto simp: is_file_def sample_os_def)
  have "length d \<le> 2" if "d \<in> set (ancestors (Some MacOS) ''/w'')" for d using ancestor_length [OF that] by simp
  then have anc: "\<forall>d \<in> set (ancestors (Some MacOS) (parent_path (Some MacOS) ''/w/App'')). \<not> is_file d ?os"
    unfolding parent log_file by fastforce
  have dirs: "is_directory d ?os \<longleftrightarrow> d = ''/w''" for d by (auto simp: is_directory_def sample_os_def)
  have names: "\<not> is_directory (GenerateFileName ?h first ((FileManager_ctor ''App'')\<lparr>fm_base_name := ''/w/App'', fm_process_id := 7\<rparr>)) ?os" for first
    unfolding dirs by (simp add: GenerateFileName_def)
  have rot: "\<not> is_directory (''/w/App'' @ ''.1.log'') ?os" unfolding dirs by simp
  have "\<forall>first. openable ?h (GenerateFileName ?h first ((FileManager_ctor ''App'')\<lparr>fm_base_name := ''/w/App'', fm_process_id := 7\<rparr>))"
    by (intro allI openable_posix) simp
  then show ?thesis
    unfolding bridge_can_create_def can_open_def Let_def sample_host_platform
    using sample_os_reliable [of "[(''/w/App.log'', ''old'')]" "[''/w'']"] cwd full usable anc names rot free by blast
qed

theorem bridge_life_witness:
  "\<exists>impl os1 impl' os2 os3. speckit_logger_create (sample_host (Some MacOS)) 7 (Some ''App'')
       (sample_os [(''/w/App.log'', ''old'')] [''/w'']) = (Inr (Some impl), os1) \<and>
     bridge_run (sample_host (Some MacOS)) [Call_log 1 (Some ''Net'') ''up'', Call_set_level 3, Call_log 2 None ''down''] (impl, os1) =
       (replicate 3 (Inr SPECKIT_SUCCESS), impl', os2) \<and>
     speckit_logger_destroy (sample_host (Some MacOS)) (Some impl') os2 = (SPECKIT_SUCCESS, os3) \<and>
     text_at ''/w/App.log'' os3 = ''oldup'' @ [CHR 0x0A] @ ''down'' @ [CHR 0x0A]"
proof -
  let ?h = "sample_host (Some MacOS)" let ?os = "sample_os [(''/w/App.log'', ''old'')] [''/w'']"
  let ?cs = "[Call_log 1 (Some ''Net'') ''up'', Call_set_level 3, Call_log 2 None ''down'']"
  have acc: "text_bytes ?h (accepted_text TagFilter_ctor ?cs) = ''up'' @ [CHR 0x0A] @ ''down'' @ [CHR 0x0A]"
    by (simp add: named_pass text_bytes_posix)
  have names: "''/w/App'' @ ''.log'' = ''/w/App.log''" "''/w/App'' @ ''.1.log'' = ''/w/App.1.log''" by simp_all
  have at: "text_at ''/w/App.log'' ?os = ''old''" "text_at ''/w/App.1.log'' ?os = []"
    by (simp_all add: text_at_def file_content_def sample_os_def)
  have three: "length ?cs = 3" by simp
  from bridge_life [OF sample_bridge, of ?cs] obtain impl os1 impl' os2 os3 lost where
    r: "speckit_logger_create ?h 7 (Some ''App'') ?os = (Inr (Some impl), os1)"
      "bridge_run ?h ?cs (impl, os1) = (replicate 3 (Inr SPECKIT_SUCCESS), impl', os2)"
      "speckit_logger_destroy ?h (Some impl') os2 = (SPECKIT_SUCCESS, os3)"
    and t: "lost @ text_at ''/w/App.1.log'' os3 @ text_at ''/w/App.log'' os3 = [] @ ''old'' @ ''up'' @ [CHR 0x0A] @ ''down'' @ [CHR 0x0A]"
      "lost = [] \<and> text_at ''/w/App.1.log'' os3 = [] \<or> 10 * 1024 * 1024 \<le> length (text_at ''/w/App.1.log'' os3)"
    unfolding names at acc three by blast
  have "length (lost @ text_at ''/w/App.1.log'' os3 @ text_at ''/w/App.log'' os3) = 11" unfolding t(1) by simp
  then have "length (text_at ''/w/App.1.log'' os3) \<le> 11" by simp
  then have "lost = [] \<and> text_at ''/w/App.1.log'' os3 = []" using t(2) by linarith
  with t(1) have "text_at ''/w/App.log'' os3 = ''oldup'' @ [CHR 0x0A] @ ''down'' @ [CHR 0x0A]" by simp
  with r show ?thesis by blast
qed

end
