(* ===== verification/Spec2Isabelle.thy ===== *)
theory Spec2Isabelle
  imports Prelude Cxx_String Platform Log_Level Log_Entry Fifo Async_Queue Mpsc Queue_Linear Queue_Solo
    Queue_Faults Ring_Buffer Ring_Race Ring_Pushes Paths Os_Model Os_Reliable Process_Lock Sample_Host File_Manager
    Log_Sink File_Write Retention File_Rotate Process_Isolation Tag_Filter Crash_Handler Archive Archive_Content Async_Logger
    Logger_Delivery Logger_Faults Logger_Threads Logger_Alone Logger_Spec Threads_Refine Logger_Interleaved Logger_Join
    Logger_Wakeup Logger_Progress Crash_Logger C_Bridge Bridge_Life
begin

text \<open>
  \<^bold>\<open>A verification library for AppSimpleLog\<close>

  AppSimpleLog is a logging library in C++20. A program logs through \<open>AsyncLogger\<close>
  (\<open>src/src/src/async_logger.cpp\<close>): \<open>log\<close> filters by level, makes a \<open>LogEntry\<close> and pushes it into the
  lock-free \<open>AsyncQueue\<close> (\<open>async_queue.cpp\<close>), or into the \<open>RingBuffer\<close> (\<open>log_buffer.cpp\<close>) when that is
  full; a writer thread, woken by a semaphore, drains both, formats the entries (\<open>log_entry.cpp\<close>)
  and writes them with the \<open>FileManager\<close> (\<open>file_manager.cpp\<close>), which chooses the file by a lock between
  processes and can rotate it. The \<open>CrashHandler\<close> (\<open>crash_handler.cpp\<close>) is to flush everything on a fatal
  signal. The C interface (\<open>src/cbridge/speckit_logger.cpp\<close>) writes through a \<open>FileManager\<close> of its own,
  with a \<open>TagFilter\<close> (\<open>tag_filter.cpp\<close>) and rotation, and offers the ZIP archive of \<open>archive.cpp\<close>.

  \<^bold>\<open>Theories\<close>

  \<^item> \<open>Prelude\<close>: \<open>size_t\<close>, counters that have not wrapped, slots of a ring, the locales of an
    invariant of a step relation (\<open>step_invariant\<close>) and of a machine driven by events
    (\<open>event_invariant\<close>, a sublocale of it, interpreted on the invariants of the abstract
    logger), and the locale \<open>budgeted_refinement\<close> of a run that implements an abstract one, interpreted on the
    sequential logger (\<open>Logger_Delivery\<close>) and the interleaved one (\<open>Threads_Refine\<close>).
  \<^item> \<open>Cxx_String\<close>: the \<open>std::string\<close> functions the program uses, with \<open>npos\<close> as the largest
    \<open>size_t\<close>, \<open>std::stoi\<close>, and decimal printing with the facts that read it back.
  \<^item> \<open>Platform\<close>, \<open>Log_Level\<close>, \<open>Log_Entry\<close>: \<open>platform.h\<close> and \<open>features.h\<close>; \<open>log_level.h\<close> with the levels as
    all 256 bytes, a linear order; \<open>log_entry.h\<close> and \<open>formatLogEntry\<close> over a memory of live strings,
    because an entry holds \<open>string_view\<close>s.
  \<^item> \<open>Fifo\<close>: the locale \<open>bounded_fifo\<close>, the contract of both buffers. \<open>Async_Queue\<close> and \<open>Ring_Buffer\<close>: the
    classes called by one thread, and the interpretations of that contract on them.
  \<^item> \<open>Mpsc\<close>, \<open>Queue_Linear\<close>, \<open>Queue_Solo\<close>, \<open>Queue_Faults\<close>: the queue's methods as atomic accesses of any
    number of threads in any order; the invariant for one consumer; that every run is one of an atomic
    queue, each call taking effect at one of its accesses; that a thread running alone computes the
    sequential operations; and the reachable states in which the queue disappoints.
    \<open>Ring_Race\<close>: the same for the ring buffer, which is not safe when \<open>popAll\<close> overlaps with a push;
    \<open>Ring_Pushes\<close>: it is when only pushes overlap.
  \<^item> \<open>Paths\<close>, \<open>Os_Model\<close>, \<open>Os_Reliable\<close>: what is used of \<open>std::filesystem\<close>, stdio and the system, in
    which any call may fail and a stream may hand over any part of its buffer at any call; and what
    these operations do when no call fails.
  \<^item> \<open>Process_Lock\<close>, \<open>Sample_Host\<close>: the lock between processes, over the documented laws of Windows
    mutexes and POSIX named semaphores, and a host that satisfies both sets of laws.
  \<^item> \<open>File_Manager\<close>: every method of the class. \<open>Log_Sink\<close> is the contract of what can be
    written to and flushed, a locale; \<open>File_Write\<close> interprets it on the file manager and proves writing,
    flushing and the size; \<open>Retention\<close> the names and the deletion of historical files; \<open>File_Rotate\<close>
    \<open>Initialize\<close> and rotation. \<open>Process_Isolation\<close>: two processes with one base name write to two files.
  \<^item> \<open>Tag_Filter\<close>: \<open>tag_filter.cpp\<close> and the locale \<open>settings\<close>, interpreted on both of its tables.
  \<^item> \<open>Crash_Handler\<close>: the static state, the handler and the monitor thread as interleaved steps.
  \<^item> \<open>Archive\<close>: \<open>archive.cpp\<close> over a record of libzip's functions. \<open>Archive_Content\<close>: what is in the
    archive, from what libzip documents of its entries.
  \<^item> \<open>Async_Logger\<close>: the logger over all of these. \<open>Logger_Delivery\<close>: its invariant \<open>logger_ok\<close>, kept by every
    call, and delivery. \<open>Logger_Faults\<close>: creation, the whole life of a logger, the emergency flush, and
    the calls that go wrong.
  \<^item> \<open>Logger_Threads\<close>: the same methods broken into their accesses to the buffers, the semaphore and the file,
    for the writer thread and any number of clients in any order. \<open>Logger_Alone\<close>: a call that runs alone is
    the method of \<open>Async_Logger\<close>. \<open>Logger_Spec\<close>: the abstract machine of plain lists, what it conserves and
    when it keeps the order; \<open>Threads_Refine\<close>: the interleaved logger implements it, by the abstraction
    \<open>view\<close> and the invariant \<open>threads_ok\<close>. \<open>Logger_Interleaved\<close>: the consequences for a created logger, and the
    schedules in which a flush overtakes the writer or a message is dropped. \<open>Logger_Join\<close>: \<open>deinitialize\<close>
    does not deadlock. \<open>Logger_Wakeup\<close>: the writer thread misses no wake-up, so everything accepted is
    eventually written, but for a call that overlaps with \<open>deinitialize\<close>. \<open>Logger_Progress\<close>: from every state
    without a stop request the calls under way can return and everything is written.
  \<^item> \<open>Crash_Logger\<close>: the monitor thread running the callback of a logger, alive
    or destroyed.
  \<^item> \<open>C_Bridge\<close>: the functions of the C interface, and what reaches the files over any number of
    rotations. \<open>Bridge_Life\<close>: a logger from \<open>speckit_logger_create\<close> to \<open>speckit_logger_destroy\<close>, and two
    integration tests of the repository that this program cannot pass.

  \<^bold>\<open>How state and operations correspond\<close>

  Each class is a record of its data members (\<open>aq_\<close>, \<open>rb_\<close>, \<open>fm_\<close>, \<open>tf_\<close>, \<open>al_\<close>, \<open>si_\<close>), each method a definition of
  the method's name, with a prefix where names clash, that takes and returns the records it
  changes. Machine integers are words. An exception is the left case of a sum and comes with the state
  it leaves behind; undefined behaviour, a wait that never ends, a failed assertion and an exception
  that nobody catches are the values \<open>Undefined\<close>, \<open>Hangs\<close>, \<open>Aborts\<close>, \<open>Throws\<close> of \<open>fault\<close>, or \<open>None\<close>. Loops are
  structural recursion or have a measure; the only bounds are the three steps in which a writer thread
  that was told to stop ends (\<open>run_writer_ok\<close> proves it), the four of the crash monitor, and the
  counters of \<open>push_alone\<close> and \<open>pop_alone\<close>, proved to be enough in \<open>ring_actions_alone\<close>.

  \<^bold>\<open>What the lemmas show\<close>

  The two buffers are bounded first-in first-out stores as long as their 64-bit counters stay below
  the wrap, which the budget functions count; under interleaving the queue neither loses nor
  duplicates nor reorders for one consumer, is linearizable, and waits only for producers that can go
  on; the ring buffer is safe as long as only pushes overlap. Writing appends exactly what it says
  under every fault. A logger delivers what it accepts, once and in
  order, until \<open>deinitialize\<close>, when calls do not overlap; when they do, it implements a machine that
  conserves every entry, keeps the order while nobody but the writer thread flushes, and writes
  everything once its threads get to run, unless a call overlaps with \<open>deinitialize\<close>. A C logger, from
  its creation to its destruction, keeps all of its text or, once it has rotated, the latest; the
  archive holds every log that is not empty. Two processes never share a file while their lock is held. The other
  properties are about errors, and about places where the code does not do what it or its
  documentation says; each of these is a theorem about the same definitions.

  \<^bold>\<open>Abstractions and limits\<close>

  Interleavings are sequentially consistent. In \<open>Async_Logger\<close> a method of the logger and a pass of the
  writer thread are single steps, which \<open>calls_run_alone\<close> justifies for threads that do not overlap; in
  \<open>Logger_Threads\<close> an access to a buffer and the writing of one entry are (for the queue and one
  consumer \<open>mpsc_linearizable\<close> justifies it, with the event \<open>Refuse\<close> for the pushes that are refused
  although there is room), and the entry of a \<open>log\<close> call is built together with the test of the level; the steps inside the buffers are in \<open>Mpsc\<close> and \<open>Ring_Race\<close>. The
  semaphore's maximum, the clock, the thread and process identifiers, the time zone and the text of a
  \<open>std::thread::id\<close> are parameters. Files are named by the text of their path: no links, no
  normalisation, and a name has no NUL inside, so \<open>c_str()\<close> is all of it. The theorems about a created
  logger, an opened file, rotation and the C interface hold on both platforms: what the file gets is
  \<open>text_bytes\<close>, which doubles line feeds on Windows, and a file is opened only when its name survives
  the conversion to UTF-16 (\<open>openable\<close>). Only the exactness of the counted size excludes Windows, where
  it is false (\<open>windows_size_undercounts\<close>).

  \<^bold>\<open>Not modelled\<close>

  The tests, \<open>test_thread_id.cpp\<close> (a sample program), the build scripts and the documents, and the
  third-party libraries: libzip and the system's interprocess calls are parameters. Memory
  exhaustion (\<open>bad_alloc\<close>), weak memory orders, two threads inside one call of \<open>FileManager\<close>, which
  has no lock, and two threads in \<open>deinitialize\<close>, which share one \<open>std::jthread\<close>: these are undefined
  behaviour in the source.
\<close>

end
